(* ===== verification/Xv6_Prelude.thy ===== *)
theory Xv6_Prelude
  imports Main "HOL-Library.Word"
begin

text \<open>
  Shared vocabulary of the development: the C integer types as words, the outcome of kernel code
  that may call \<^verbatim>\<open>panic\<close>, byte-addressed memory with its 64-bit little-endian accesses, and the
  generic lemmas on words, lists and memory that the component theories use.
\<close>

unbundle bit_operations_syntax

named_theorems mem_simps \<comment> \<open>closed forms of memory updates\<close>
named_theorems kres_elims \<comment> \<open>inversion of successful kernel computations\<close>

section \<open>Integer types (kernel/types.h)\<close>

type_synonym u8 = "8 word"
type_synonym u16 = "16 word"
type_synonym u32 = "32 word"
type_synonym u64 = "64 word"

section \<open>Outcomes of kernel code\<close>

text \<open>
  A kernel function either returns, or stops the machine through \<^verbatim>\<open>panic\<close>, whose argument is kept,
  or has to wait for another process, for the reason given, or never returns.
\<close>

datatype 'a kres = Ok 'a | Panic string | Wait string | NoReturn

fun kbind :: "'a kres \<Rightarrow> ('a \<Rightarrow> 'b kres) \<Rightarrow> 'b kres" where
  "kbind (Ok x) f = f x"
| "kbind (Panic e) f = Panic e"
| "kbind (Wait e) f = Wait e"
| "kbind NoReturn f = NoReturn"

fun is_Ok :: "'a kres \<Rightarrow> bool" where
  "is_Ok (Ok x) = True"
| "is_Ok (Panic e) = False"
| "is_Ok (Wait e) = False"
| "is_Ok NoReturn = False"

text \<open>A computation that may run forever, as \<open>partial_function\<close> gives it.\<close>

definition returns :: "'a kres option \<Rightarrow> 'a kres" where
  "returns r = (case r of None \<Rightarrow> NoReturn | Some x \<Rightarrow> x)"

lemma kbind_eq_Ok [simp, kres_elims]: "kbind m f = Ok y \<longleftrightarrow> (\<exists>x. m = Ok x \<and> f x = Ok y)"
  by (cases m) auto

lemma kbind_eq_Panic [kres_elims]:
  "kbind m f = Panic e \<longleftrightarrow> m = Panic e \<or> (\<exists>x. m = Ok x \<and> f x = Panic e)"
  by (cases m) auto

lemma kbind_pairE:
  assumes "kbind m (\<lambda>(a, b). f a b) = Ok y"
  obtains a b where "f a b = Ok y" "m = Ok (a, b)"
  using assms by (cases m) auto

lemma kbind_assoc: "kbind (kbind m f) g = kbind m (\<lambda>x. kbind (f x) g)"
  by (cases m) auto

lemma is_Ok_iff: "is_Ok r \<longleftrightarrow> (\<exists>x. r = Ok x)"
  by (cases r) auto

lemma kbind_cong [fundef_cong]:
  "m = m' \<Longrightarrow> (\<And>x. m' = Ok x \<Longrightarrow> f x = f' x) \<Longrightarrow> kbind m f = kbind m' f'"
  by (cases m') auto

section \<open>Words\<close>

lemma unat_less_2p64 [simp]: "unat (a :: u64) < 18446744073709551616"
  using unsigned_less [of a] by simp

lemma unat_less_2p32 [simp]: "unat (a :: u32) < 4294967296"
  using unsigned_less [of a] by simp

lemma unat_less_2p16 [simp]: "unat (a :: u16) < 65536"
  using unsigned_less [of a] by simp

lemma unat_less_256 [simp]: "unat (a :: u8) < 256"
  using unsigned_less [of a] by simp

lemma unat_ucast_u32_u64 [simp]: "unat (ucast (n :: u32) :: u64) = unat n"
  by (simp add: unsigned_ucast_eq take_bit_nat_eq_self less_le_trans [OF unat_less_2p32])

lemma unat_of_nat_small: "n < 2 ^ LENGTH('a) \<Longrightarrow> unat (of_nat n :: 'a :: len word) = n"
  by (simp add: unat_of_nat)

lemma unat_of_nat_u64 [simp]: "n < 18446744073709551616 \<Longrightarrow> unat (of_nat n :: u64) = n"
  by (rule unat_of_nat_small) simp

lemma unat_of_nat_u32 [simp]: "n < 4294967296 \<Longrightarrow> unat (of_nat n :: u32) = n"
  by (rule unat_of_nat_small) simp

lemma unat_add_no_wrap:
  "unat (a :: 'a :: len word) + unat b < 2 ^ LENGTH('a) \<Longrightarrow> unat (a + b) = unat a + unat b"
  by (simp add: unat_word_ariths)

lemma unat_add_u64:
  "unat (a :: u64) + unat b < 18446744073709551616 \<Longrightarrow> unat (a + b) = unat a + unat b"
  using unat_add_no_wrap [of a b] by simp

lemma unat_sub_wrap: "(x :: u64) < k \<Longrightarrow> unat (x - k) = 18446744073709551616 + unat x - unat k"
  by (simp add: unat_sub_if' word_less_nat_alt)

lemma unat_le_2p64 [simp]: "unat (n :: u32) \<le> 18446744073709551616"
  using unat_less_2p32 [of n] by linarith

lemma unat_minus_1_u64 [simp]: "unat (- 1 :: u64) = 18446744073709551615"
  by (simp add: unsigned_minus_1_eq_mask mask_eq_exp_minus_1)

lemma of_nat_unat_sub: "of_nat (unat ((a :: 'a :: len word) - d)) = a - d"
  by simp

section \<open>Lists\<close>

lemma replicate_numeral: "replicate (numeral k) x = x # replicate (pred_numeral k) x"
  by (simp add: numeral_eq_Suc)

section \<open>Byte-addressed memory\<close>

type_synonym mem = "u64 \<Rightarrow> u8"

text \<open>The \<open>n\<close> bytes at \<open>a\<close>.\<close>

definition bytes :: "mem \<Rightarrow> u64 \<Rightarrow> nat \<Rightarrow> u8 list" where
  "bytes m a n = map (\<lambda>i. m (a + of_nat i)) [0..<n]"

lemma length_bytes [simp]: "length (bytes m a n) = n"
  by (simp add: bytes_def)

lemma nth_bytes [simp]: "i < n \<Longrightarrow> bytes m a n ! i = m (a + of_nat i)"
  by (simp add: bytes_def)

lemma bytes_0 [simp]: "bytes m a 0 = []"
  by (simp add: bytes_def)

lemma bytes_Suc: "bytes m a (Suc n) = m a # bytes m (a + 1) n"
  by (simp add: bytes_def map_upt_Suc add_ac del: upt_Suc)

lemma bytes_cong: "(\<And>i. i < n \<Longrightarrow> m (a + of_nat i) = m' (a + of_nat i)) \<Longrightarrow> bytes m a n = bytes m' a n"
  by (simp add: bytes_def)

text \<open>Whether address \<open>a\<close> is one of the \<open>n\<close> bytes at \<open>d\<close>.\<close>

definition in_range :: "u64 \<Rightarrow> nat \<Rightarrow> u64 \<Rightarrow> bool" where
  "in_range d n a \<longleftrightarrow> unat (a - d) < n"

lemma in_range_0 [simp]: "\<not> in_range d 0 a"
  by (simp add: in_range_def)

lemma in_range_iff_ex:
  "n \<le> 2 ^ 64 \<Longrightarrow> in_range d n a \<longleftrightarrow> (\<exists>i < n. a = d + of_nat i)"
proof
  assume "in_range d n a"
  then show "\<exists>i < n. a = d + of_nat i"
    by (intro exI [of _ "unat (a - d)"]) (simp add: in_range_def)
next
  assume n: "n \<le> 2 ^ 64" and "\<exists>i < n. a = d + of_nat i"
  then obtain i where "i < n" "a = d + of_nat i" by blast
  with n show "in_range d n a"
    by (simp add: in_range_def)
qed

lemma in_range_Suc:
  assumes "n < 2 ^ 64"
  shows "in_range d (Suc n) a \<longleftrightarrow> a = d \<or> in_range (d + 1) n a"
proof (cases "a = d")
  case False
  then have "a - d \<noteq> 0" by simp
  then have "unat (a - d - 1) = unat (a - d) - 1" "unat (a - d) \<noteq> 0"
    by (simp_all add: unat_minus_one unat_0_iff)
  then show ?thesis
    using False by (simp add: in_range_def diff_diff_eq less_diff_conv2 le_Suc_eq)
qed (simp add: in_range_def)

lemma in_range_snoc:
  assumes "n < 2 ^ 64"
  shows "in_range d (Suc n) a \<longleftrightarrow> a = d + of_nat n \<or> in_range d n a"
proof -
  have "unat (a - d) = n \<longleftrightarrow> a = d + of_nat n"
  proof
    assume "unat (a - d) = n"
    then show "a = d + of_nat n" by (simp flip: \<open>unat (a - d) = n\<close>)
  qed (use assms in simp)
  then show ?thesis
    by (auto simp: in_range_def less_Suc_eq)
qed

lemma bytes_upd_other: "\<forall>i < n. a + of_nat i \<noteq> x \<Longrightarrow> bytes (m(x := c)) a n = bytes m a n"
  by (rule bytes_cong) auto

lemma bytes_all: "(\<And>i. i < n \<Longrightarrow> m (a + of_nat i) = c) \<Longrightarrow> bytes m a n = replicate n c"
  by (rule nth_equalityI) auto

text \<open>No byte of the \<open>n\<close> at \<open>s\<close> is one of the \<open>k\<close> at \<open>d\<close>.\<close>

definition disjoint_ranges :: "u64 \<Rightarrow> nat \<Rightarrow> u64 \<Rightarrow> nat \<Rightarrow> bool" where
  "disjoint_ranges d k s n \<longleftrightarrow> (\<forall>i < n. \<not> in_range d k (s + of_nat i))"

lemma disjoint_ranges_Suc:
  assumes "disjoint_ranges d (Suc n) s (Suc n)" "n < 18446744073709551616"
  shows "disjoint_ranges (d + 1) n (s + 1) n" "\<forall>i < n. s + 1 + of_nat i \<noteq> d" "s \<noteq> d"
proof -
  have *: "\<not> in_range d (Suc n) (s + of_nat i)" if "i < Suc n" for i
    using assms(1) that by (auto simp: disjoint_ranges_def)
  have S: "s + 1 + of_nat i = s + of_nat (Suc i)" for i by (simp add: algebra_simps)
  show "disjoint_ranges (d + 1) n (s + 1) n" "\<forall>i < n. s + 1 + of_nat i \<noteq> d"
    unfolding disjoint_ranges_def S using * assms(2) in_range_Suc [of n d] by force+
  show "s \<noteq> d" using * [of 0] by (auto simp: in_range_def)
qed

text \<open>The characters of the C string at the front of a byte list.\<close>

definition cstr :: "u8 list \<Rightarrow> u8 list" where
  "cstr xs = takeWhile (\<lambda>b. b \<noteq> 0) xs"

lemma cstr_simps [simp]: "cstr [] = []" "cstr (x # xs) = (if x = 0 then [] else x # cstr xs)"
  by (simp_all add: cstr_def)

lemma length_cstr_le: "length (cstr xs) \<le> length xs"
  by (simp add: cstr_def length_takeWhile_le)

end
