(* ===== verification/Ring.thy ===== *)
theory Ring
  imports Xv6_Prelude
begin

text \<open>
  Circular buffers with free-running unsigned counters, as pipe.c, console.c, uart.c and virtio_disk.c use them:
  the counters are never reduced modulo the buffer size, they wrap at the width of their C type,
  and a slot is selected by the remainder. The locale states what such a buffer's put and get do
  to the storage and the counters; inside it the buffer is shown to be a bounded first-in
  first-out queue, also across the wrap of the counters.
\<close>

lemma unat_mod_dvd:
  fixes a :: "'l::len word"
  assumes "N dvd 2 ^ LENGTH('l)"
  shows "unat (a + of_nat i) mod N = (unat a + i) mod N"
proof -
  have "unat (a + of_nat i) = (unat a + i) mod 2 ^ LENGTH('l)"
    by (simp add: unat_word_ariths unat_of_nat mod_add_right_eq)
  then show ?thesis using assms by (simp add: mod_mod_cancel)
qed

lemma slot_distinct:
  fixes a :: "'l::len word"
  assumes "N dvd 2 ^ LENGTH('l)" "i < j" "j < i + N"
  shows "unat (a + of_nat i) mod N \<noteq> unat (a + of_nat j) mod N"
proof
  assume "unat (a + of_nat i) mod N = unat (a + of_nat j) mod N"
  then have "(unat a + i) mod N = (unat a + j) mod N" using assms(1) by (simp add: unat_mod_dvd)
  moreover have "unat a + i \<le> unat a + j" using assms(2) by simp
  ultimately have "N dvd (unat a + j) - (unat a + i)" by (metis mod_eq_dvd_iff_nat)
  then have "N dvd j - i" by simp
  then show False using assms(2,3) nat_dvd_not_less [of "j - i" N] by simp
qed

lemma unat_pred_less: "x \<noteq> 0 \<Longrightarrow> Suc (unat (x - 1)) = unat (x :: 'l::len word)"
  by (metis Suc_pred' unat_eq_zero unat_minus_one not_gr_zero)

text \<open>The queue a buffer holds, oldest element first: the slots from the read to the write counter.\<close>

definition ring_list :: "nat \<Rightarrow> 'a list \<Rightarrow> 'l::len word \<Rightarrow> 'l word \<Rightarrow> 'a list" where
  "ring_list N buf r w = map (\<lambda>i. buf ! (unat (r + of_nat i) mod N)) [0..<unat (w - r)]"

lemma length_ring_list [simp]: "length (ring_list N buf r w) = unat (w - r)"
  by (simp add: ring_list_def)

lemma ring_list_empty [simp]: "ring_list N buf r r = []"
  by (simp add: ring_list_def)

lemma ring_list_Cons:
  assumes "r \<noteq> w"
  shows "ring_list N buf r w = buf ! (unat r mod N) # ring_list N buf (r + 1) w"
proof -
  have e: "w - (r + 1) = (w - r) - 1" by simp
  have "unat (w - r) = Suc (unat (w - (r + 1)))"
    unfolding e by (rule unat_pred_less [symmetric]) (use assms in simp)
  then show ?thesis
    unfolding ring_list_def by (simp add: upt_conv_Cons map_Suc_upt [symmetric] comp_def ac_simps del: upt_Suc)
qed

lemma ring_list_put:
  fixes r w :: "'l::len word"
  assumes N: "0 < N" "N dvd 2 ^ LENGTH('l)" "N < 2 ^ LENGTH('l)" and buf: "length buf = N" and room: "unat (w - r) < N"
  shows "ring_list N (buf[unat w mod N := c]) r (w + 1) = ring_list N buf r w @ [c]"
proof -
  have sz: "unat (w + 1 - r) = Suc (unat (w - r))"
    using room N(3) unat_add_lem [of "w - r" 1] by (simp add: algebra_simps)
  have w: "r + of_nat (unat (w - r)) = w" by simp
  have "buf[unat w mod N := c] ! (unat (r + of_nat i) mod N) = buf ! (unat (r + of_nat i) mod N)"
    if "i < unat (w - r)" for i
    using slot_distinct [OF N(2) that, of r] room unfolding w by simp
  then have "map (\<lambda>i. buf[unat w mod N := c] ! (unat (r + of_nat i) mod N)) [0..<unat (w - r)] = ring_list N buf r w"
    by (simp add: ring_list_def)
  then show ?thesis using buf N(1) by (simp add: ring_list_def sz w)
qed

locale ring_buffer =
  fixes N :: nat
    and store :: "'s \<Rightarrow> 'a list"
    and rd wr :: "'s \<Rightarrow> 'l::len word"
    and put :: "'a \<Rightarrow> 's \<Rightarrow> 's"
    and get :: "'s \<Rightarrow> 'a \<times> 's"
  assumes size: "0 < N" "N dvd 2 ^ LENGTH('l)" "N < 2 ^ LENGTH('l)"
    and put: "store (put c s) = (store s)[unat (wr s) mod N := c]" "wr (put c s) = wr s + 1" "rd (put c s) = rd s"
    and get: "fst (get s) = store s ! (unat (rd s) mod N)" "store (snd (get s)) = store s"
      "rd (snd (get s)) = rd s + 1" "wr (snd (get s)) = wr s"
begin

definition queue :: "'s \<Rightarrow> 'a list" where
  "queue s = ring_list N (store s) (rd s) (wr s)"

definition ok :: "'s \<Rightarrow> bool" where
  "ok s \<longleftrightarrow> length (store s) = N \<and> unat (wr s - rd s) \<le> N"

lemma length_queue: "length (queue s) = unat (wr s - rd s)"
  by (simp add: queue_def)

lemma queue_Nil: "queue s = [] \<longleftrightarrow> rd s = wr s"
proof -
  have "queue s = [] \<longleftrightarrow> unat (wr s - rd s) = 0" by (metis length_queue length_0_conv)
  then show ?thesis by (auto simp: unat_eq_zero)
qed

lemma queue_full:
  assumes "ok s"
  shows "length (queue s) = N \<longleftrightarrow> wr s = rd s + of_nat N"
proof -
  have "length (queue s) = N \<longleftrightarrow> wr s - rd s = of_nat N"
    using size(3) unfolding length_queue word_unat_eq_iff by (simp add: unat_of_nat)
  also have "\<dots> \<longleftrightarrow> wr s = rd s + of_nat N" by (simp add: diff_eq_eq add.commute)
  finally show ?thesis .
qed

lemma put_queue:
  assumes "ok s" "length (queue s) < N"
  shows "queue (put c s) = queue s @ [c]" "ok (put c s)"
proof -
  show q: "queue (put c s) = queue s @ [c]"
    using assms ring_list_put [OF size, of "store s" "wr s" "rd s" c] unfolding queue_def ok_def put by simp
  have "unat (wr (put c s) - rd (put c s)) = length (queue s @ [c])" unfolding q [symmetric] length_queue ..
  then show "ok (put c s)" using assms by (simp add: ok_def put(1))
qed

lemma get_queue:
  assumes "ok s" "queue s \<noteq> []"
  shows "queue s = fst (get s) # queue (snd (get s))" "ok (snd (get s))"
proof -
  show q: "queue s = fst (get s) # queue (snd (get s))"
    using assms(2) unfolding queue_def get by (intro ring_list_Cons) (use assms(2) queue_Nil in simp)
  have "Suc (unat (wr (snd (get s)) - rd (snd (get s)))) = length (queue s)"
    unfolding q by (simp add: length_queue)
  then show "ok (snd (get s))" using assms(1) by (simp add: ok_def get(2) length_queue)
qed

end

end
