(* ===== verification/Uart.thy ===== *)
theory Uart
  imports Ring
begin

text \<open>
  The 16550a UART driver (kernel/uart.c). The device is seen through its registers: the bytes that
  successive reads of the line status and receive registers return are arguments (\<open>lsr\<close>, \<open>rhr\<close>),
  indexed by the number of reads made so far, and register writes are recorded in order. Waiting
  for the device is a loop that may not end, and returns None then; a full transmit buffer makes
  \<open>uartputc\<close> sleep.
\<close>

unbundle bit_operations_syntax

definition RHR :: nat where "RHR = 0"
definition THR :: nat where "THR = 0"
definition IER :: nat where "IER = 1"
definition IER_RX_ENABLE :: u8 where "IER_RX_ENABLE = push_bit 0 1"
definition IER_TX_ENABLE :: u8 where "IER_TX_ENABLE = push_bit 1 1"
definition FCR :: nat where "FCR = 2"
definition FCR_FIFO_ENABLE :: u8 where "FCR_FIFO_ENABLE = push_bit 0 1"
definition FCR_FIFO_CLEAR :: u8 where "FCR_FIFO_CLEAR = push_bit 1 3"
definition LCR :: nat where "LCR = 3"
definition LCR_EIGHT_BITS :: u8 where "LCR_EIGHT_BITS = push_bit 0 3"
definition LCR_BAUD_LATCH :: u8 where "LCR_BAUD_LATCH = push_bit 7 1"
definition LSR_RX_READY :: u8 where "LSR_RX_READY = push_bit 0 1"
definition LSR_TX_IDLE :: u8 where "LSR_TX_IDLE = push_bit 5 1"
definition UART_TX_BUF_SIZE :: u64 where "UART_TX_BUF_SIZE = 32"

record uart =
  uart_tx_buf :: "u8 list"
  uart_tx_w :: u64
  uart_tx_r :: u64
  lsr_reads :: nat
  rhr_reads :: nat
  reg_writes :: "(nat \<times> u8) list"
  tx_wakeups :: nat

type_synonym device = "nat \<Rightarrow> u8"

definition WriteReg :: "nat \<Rightarrow> u8 \<Rightarrow> uart \<Rightarrow> uart" where
  "WriteReg r v s = s\<lparr>reg_writes := reg_writes s @ [(r, v)]\<rparr>"

definition ReadLSR :: "device \<Rightarrow> uart \<Rightarrow> u8 \<times> uart" where
  "ReadLSR lsr s = (lsr (lsr_reads s), s\<lparr>lsr_reads := Suc (lsr_reads s)\<rparr>)"

definition ReadRHR :: "device \<Rightarrow> uart \<Rightarrow> u8 \<times> uart" where
  "ReadRHR rhr s = (rhr (rhr_reads s), s\<lparr>rhr_reads := Suc (rhr_reads s)\<rparr>)"

definition uartinit :: "uart \<Rightarrow> uart" where
  "uartinit s =
     (let s = WriteReg IER 0x00 s;
          s = WriteReg LCR LCR_BAUD_LATCH s;
          s = WriteReg 0 0x03 s;
          s = WriteReg 1 0x00 s;
          s = WriteReg LCR LCR_EIGHT_BITS s;
          s = WriteReg FCR (FCR_FIFO_ENABLE OR FCR_FIFO_CLEAR) s
      in WriteReg IER (IER_TX_ENABLE OR IER_RX_ENABLE) s)"

definition tx_put :: "u8 \<Rightarrow> uart \<Rightarrow> uart" where
  "tx_put c s = s\<lparr>uart_tx_buf := (uart_tx_buf s)[unat (uart_tx_w s mod UART_TX_BUF_SIZE) := c], uart_tx_w := uart_tx_w s + 1\<rparr>"

definition tx_get :: "uart \<Rightarrow> u8 \<times> uart" where
  "tx_get s = (uart_tx_buf s ! unat (uart_tx_r s mod UART_TX_BUF_SIZE), s\<lparr>uart_tx_r := uart_tx_r s + 1\<rparr>)"

lemma ReadLSR_fields [simp]:
  "fst (ReadLSR lsr s) = lsr (lsr_reads s)" "uart_tx_w (snd (ReadLSR lsr s)) = uart_tx_w s"
  "uart_tx_r (snd (ReadLSR lsr s)) = uart_tx_r s" "uart_tx_buf (snd (ReadLSR lsr s)) = uart_tx_buf s"
  "reg_writes (snd (ReadLSR lsr s)) = reg_writes s"
  by (simp_all add: ReadLSR_def)

function uartstart :: "device \<Rightarrow> uart \<Rightarrow> uart" where
  "uartstart lsr s =
     (if uart_tx_w s = uart_tx_r s then s
      else
        let (v, s) = ReadLSR lsr s
        in if v AND LSR_TX_IDLE = 0 then s
           else
             let (c, s) = tx_get s;
                 s = s\<lparr>tx_wakeups := Suc (tx_wakeups s)\<rparr>
             in uartstart lsr (WriteReg THR c s))"
  by pat_completeness auto
termination
proof (relation "measure (\<lambda>(lsr, s). unat (uart_tx_w s - uart_tx_r s))")
  fix lsr :: device and s :: uart and x v s1 y c s2 s3
  assume a: "uart_tx_w s \<noteq> uart_tx_r s" "x = ReadLSR lsr s" "(v, s1) = x" "y = tx_get s1" "(c, s2) = y"
    "s3 = s2\<lparr>tx_wakeups := Suc (tx_wakeups s2)\<rparr>"
  then have "uart_tx_w s3 = uart_tx_w s" "uart_tx_r s3 = uart_tx_r s + 1"
    by (simp_all add: ReadLSR_def tx_get_def)
  moreover have "unat ((uart_tx_w s - uart_tx_r s) - 1) < unat (uart_tx_w s - uart_tx_r s)"
    using unat_pred_less [of "uart_tx_w s - uart_tx_r s"] a(1) by simp
  ultimately show "((lsr, WriteReg THR c s3), lsr, s) \<in> measure (\<lambda>(lsr, s). unat (uart_tx_w s - uart_tx_r s))"
    by (simp add: WriteReg_def diff_diff_eq)
qed simp

declare uartstart.simps [simp del]

text \<open>\<open>uartputc\<close> returns, sleeps until \<open>uartstart\<close> makes room, or spins when the kernel has panicked.\<close>

datatype putc_res = Put uart | Sleep uart | Spin

definition uartputc :: "device \<Rightarrow> bool \<Rightarrow> u32 \<Rightarrow> uart \<Rightarrow> putc_res" where
  "uartputc lsr panicked c s =
     (if panicked then Spin
      else if uart_tx_w s = uart_tx_r s + UART_TX_BUF_SIZE then Sleep s
      else Put (uartstart lsr (tx_put (ucast c) s)))"

partial_function (option) wait_idle :: "device \<Rightarrow> uart \<Rightarrow> uart option" where
  "wait_idle lsr s =
     (let (v, s) = ReadLSR lsr s in if v AND LSR_TX_IDLE = 0 then wait_idle lsr s else Some s)"

definition uartputc_sync :: "device \<Rightarrow> bool \<Rightarrow> u32 \<Rightarrow> uart \<Rightarrow> uart option" where
  "uartputc_sync lsr panicked c s =
     (if panicked then None
      else case wait_idle lsr s of None \<Rightarrow> None | Some s \<Rightarrow> Some (WriteReg THR (ucast c) s))"

definition uartgetc :: "device \<Rightarrow> device \<Rightarrow> uart \<Rightarrow> int \<times> uart" where
  "uartgetc lsr rhr s =
     (let (v, s) = ReadLSR lsr s
      in if v AND 0x01 \<noteq> 0 then (case ReadRHR rhr s of (c, s) \<Rightarrow> (int (unat c), s)) else (- 1, s))"

section \<open>The transmit queue\<close>

lemma unat_mod_TX: "unat (x mod UART_TX_BUF_SIZE) = unat x mod 32"
  by (simp add: UART_TX_BUF_SIZE_def unat_mod)

interpretation tx: ring_buffer 32 uart_tx_buf uart_tx_r uart_tx_w tx_put tx_get
  by unfold_locales (simp_all add: tx_put_def tx_get_def unat_mod_TX)

definition tx_queue :: "uart \<Rightarrow> u8 list" where
  "tx_queue = tx.queue"

definition tx_ok :: "uart \<Rightarrow> bool" where
  "tx_ok = tx.ok"

text \<open>What the driver has handed to the transmit register since initialisation.\<close>

definition sent :: "uart \<Rightarrow> u8 list" where
  "sent s = map snd (filter (\<lambda>w. fst w = THR) (reg_writes s))"

lemma tx_queue_cong:
  "uart_tx_buf s = uart_tx_buf s' \<Longrightarrow> uart_tx_r s = uart_tx_r s' \<Longrightarrow> uart_tx_w s = uart_tx_w s' \<Longrightarrow>
   tx_queue s = tx_queue s' \<and> tx_ok s = tx_ok s'"
  by (simp add: tx_queue_def tx_ok_def tx.queue_def tx.ok_def)

lemma tx_queue_full: "tx_ok s \<Longrightarrow> length (tx_queue s) = 32 \<longleftrightarrow> uart_tx_w s = uart_tx_r s + UART_TX_BUF_SIZE"
  using tx.queue_full [of s] by (simp add: tx_ok_def tx_queue_def UART_TX_BUF_SIZE_def)

lemma tx_queue_bound: "tx_ok s \<Longrightarrow> length (tx_queue s) \<le> 32"
  by (simp add: tx_ok_def tx_queue_def tx.length_queue tx.ok_def)

lemma sent_WriteReg [simp]: "sent (WriteReg THR c s) = sent s @ [c]"
  by (simp add: sent_def WriteReg_def)

lemma sent_cong: "reg_writes s = reg_writes s' \<Longrightarrow> sent s = sent s'"
  by (simp add: sent_def)

lemma uartstart_stream:
  assumes "tx_ok s"
  shows "tx_ok (uartstart lsr s) \<and> sent (uartstart lsr s) @ tx_queue (uartstart lsr s) = sent s @ tx_queue s \<and>
    uart_tx_w (uartstart lsr s) = uart_tx_w s"
  using assms
proof (induction lsr s rule: uartstart.induct)
  case (1 lsr s)
  define s1 where "s1 = snd (ReadLSR lsr s)"
  have s1: "tx_queue s1 = tx_queue s" "tx_ok s1" "sent s1 = sent s" "uart_tx_w s1 = uart_tx_w s" "uart_tx_r s1 = uart_tx_r s"
    using tx_queue_cong [of s1 s] 1(2) by (simp_all add: s1_def ReadLSR_def sent_def)
  show ?case
  proof (cases "uart_tx_w s = uart_tx_r s \<or> lsr (lsr_reads s) AND LSR_TX_IDLE = 0")
    case True
    then show ?thesis using 1(2) s1 by (auto simp: uartstart.simps [of lsr s] s1_def case_prod_beta)
  next
    case False
    obtain c s2 where g: "tx_get s1 = (c, s2)" by fastforce
    define s3 where "s3 = WriteReg THR c (s2\<lparr>tx_wakeups := Suc (tx_wakeups s2)\<rparr>)"
    have run: "uartstart lsr s = uartstart lsr s3"
      using False g by (simp add: uartstart.simps [of lsr s] s1_def s3_def case_prod_beta)
    have q: "tx_queue s1 = c # tx_queue s2" "tx_ok s2"
      using tx.get_queue [of s1] s1(2,4,5) False g by (auto simp: tx_queue_def tx_ok_def tx.queue_Nil)
    have s3: "tx_queue s3 = tx_queue s2" "tx_ok s3" using tx_queue_cong [of s3 s2] q(2) by (simp_all add: s3_def WriteReg_def)
    have "sent s3 = sent s @ [c]"
      using g s1(3) sent_cong [of "s2\<lparr>tx_wakeups := Suc (tx_wakeups s2)\<rparr>" s1] by (auto simp: s3_def tx_get_def)
    moreover have w: "uart_tx_w s3 = uart_tx_w s" using g s1(4) by (auto simp: s3_def tx_get_def WriteReg_def)
    moreover have "tx_ok (uartstart lsr s3) \<and> sent (uartstart lsr s3) @ tx_queue (uartstart lsr s3) = sent s3 @ tx_queue s3 \<and>
        uart_tx_w (uartstart lsr s3) = uart_tx_w s3"
      using 1(1) [of "ReadLSR lsr s" "lsr (lsr_reads s)" s1 "tx_get s1" c s2 "s2\<lparr>tx_wakeups := Suc (tx_wakeups s2)\<rparr>"]
        False g s3(2) unfolding s3_def by (simp add: s1_def ReadLSR_def)
    ultimately show ?thesis unfolding run using s1(1) s3(1) q(1) by simp
  qed
qed

lemma uartputc_stream:
  assumes "tx_ok s"
  shows "if length (tx_queue s) = 32 then uartputc lsr False c s = Sleep s
    else \<exists>s'. uartputc lsr False c s = Put s' \<and> tx_ok s' \<and> sent s' @ tx_queue s' = sent s @ tx_queue s @ [ucast c]"
proof (cases "length (tx_queue s) = 32")
  case True
  then show ?thesis using tx_queue_full [OF assms] by (simp add: uartputc_def)
next
  case False
  then have "length (tx.queue s) < 32" using tx_queue_bound [OF assms] by (simp add: tx_queue_def)
  then have p: "tx_queue (tx_put (ucast c) s) = tx_queue s @ [ucast c]" "tx_ok (tx_put (ucast c) s)"
    using tx.put_queue assms by (simp_all add: tx_queue_def tx_ok_def)
  have "sent (tx_put (ucast c) s) = sent s" by (simp add: sent_def tx_put_def)
  then show ?thesis using False tx_queue_full [OF assms] uartstart_stream [OF p(2), of lsr] p(1)
    by (simp add: uartputc_def)
qed

section \<open>Properties\<close>

text \<open>
  Writers and transmit interrupts in any order: \<open>Inl c\<close> is a call of \<open>uartputc\<close>, \<open>Inr ()\<close> the interrupt
  handler's call of \<open>uartstart\<close>. The second component collects the characters that were accepted.
\<close>

fun uart_run :: "device \<Rightarrow> (u32 + unit) list \<Rightarrow> uart \<times> u8 list \<Rightarrow> uart \<times> u8 list" where
  "uart_run lsr [] (s, acc) = (s, acc)"
| "uart_run lsr (Inl c # ops) (s, acc) =
     (case uartputc lsr False c s of Put s' \<Rightarrow> uart_run lsr ops (s', acc @ [ucast c]) | _ \<Rightarrow> uart_run lsr ops (s, acc))"
| "uart_run lsr (Inr u # ops) (s, acc) = uart_run lsr ops (uartstart lsr s, acc)"

text \<open>
  C28: whatever the device answers and however writers and transmit interrupts interleave, the bytes
  handed to the transmit register followed by those still buffered are exactly the accepted
  characters in order: none is lost, duplicated or reordered, also when the 64-bit counters wrap.
\<close>
theorem uart_fifo:
  assumes "tx_ok s" "sent s @ tx_queue s = acc" "uart_run lsr ops (s, acc) = (s', acc')"
  shows "tx_ok s' \<and> sent s' @ tx_queue s' = acc'"
  using assms
proof (induction lsr ops "(s, acc)" arbitrary: s acc rule: uart_run.induct)
  case (2 lsr c ops s acc)
  show ?case
  proof (cases "length (tx_queue s) = 32")
    case True
    then show ?thesis using 2 uartputc_stream [OF 2(4), of lsr c] by simp
  next
    case False
    then obtain s1 where "uartputc lsr False c s = Put s1" "tx_ok s1" "sent s1 @ tx_queue s1 = acc @ [ucast c]"
      using uartputc_stream [OF 2(4), of lsr c] 2(5) by auto
    then show ?thesis using 2(1) [of s1] 2(6) by simp
  qed
next
  case (3 lsr u ops s acc)
  then show ?case using uartstart_stream [OF 3(2), of lsr] by simp
qed simp

theorem uart_fifo_witness:
  "let s0 = \<lparr>uart_tx_buf = replicate 32 0, uart_tx_w = - 1, uart_tx_r = - 1, lsr_reads = 0, rhr_reads = 0, reg_writes = [], tx_wakeups = 0\<rparr>;
       (s', acc') = uart_run (\<lambda>_. 0) [Inl 104, Inl 105, Inr ()] (s0, [])
   in sent s' @ tx_queue s' = [104, 105]"
proof -
  let ?s0 = "\<lparr>uart_tx_buf = replicate 32 0, uart_tx_w = - 1, uart_tx_r = - 1, lsr_reads = 0, rhr_reads = 0, reg_writes = [], tx_wakeups = 0\<rparr> :: uart"
  have ok: "tx_ok ?s0" by (simp add: tx_ok_def tx.ok_def)
  have q: "sent ?s0 @ tx_queue ?s0 = []" by (simp add: sent_def tx_queue_def tx.queue_def)
  obtain s' acc' where r: "uart_run (\<lambda>_. 0) [Inl 104, Inl 105, Inr ()] (?s0, []) = (s', acc')" by fastforce
  then have "acc' = [104, 105]"
    by (auto simp: uartputc_def UART_TX_BUF_SIZE_def tx_put_def uartstart.simps ReadLSR_def)
  then show ?thesis using uart_fifo [OF ok q r] r by simp
qed

text \<open>Waiting for the device ends exactly when it eventually reports that it is idle.\<close>

lemma wait_idle_returns:
  assumes "lsr (lsr_reads s + d) AND LSR_TX_IDLE \<noteq> 0"
  shows "\<exists>s'. wait_idle lsr s = Some s'"
  using assms
proof (induction d arbitrary: s)
  case 0
  then show ?case by (subst wait_idle.simps) (simp add: ReadLSR_def)
next
  case (Suc d)
  then show ?case
    using Suc.IH [of "s\<lparr>lsr_reads := Suc (lsr_reads s)\<rparr>"] by (subst wait_idle.simps) (simp add: ReadLSR_def)
qed

lemma wait_idle_state:
  "wait_idle lsr s = Some s' \<Longrightarrow> \<exists>n. s' = s\<lparr>lsr_reads := n\<rparr>"
proof (induction lsr s s' rule: wait_idle.raw_induct [rotated, consumes 1, case_names step])
  case (step w lsr s s')
  show ?case
  proof (cases "lsr (lsr_reads s) AND LSR_TX_IDLE = 0")
    case True
    then have "w lsr (s\<lparr>lsr_reads := Suc (lsr_reads s)\<rparr>) = Some s'" using step(2) by (simp add: ReadLSR_def)
    from step(1) [OF this] show ?thesis by auto
  next
    case False
    then have "s' = s\<lparr>lsr_reads := Suc (lsr_reads s)\<rparr>" using step(2) by (simp add: ReadLSR_def)
    then show ?thesis by blast
  qed
qed

lemma uartputc_sync_sent:
  "uartputc_sync lsr panicked c s = Some s' \<Longrightarrow>
    sent s' = sent s @ [ucast c] \<and> tx_queue s' = tx_queue s \<and> tx_ok s' = tx_ok s"
proof -
  assume "uartputc_sync lsr panicked c s = Some s'"
  then obtain s1 where "wait_idle lsr s = Some s1" and s': "s' = WriteReg THR (ucast c) s1"
    by (auto simp: uartputc_sync_def split: if_splits option.splits)
  then obtain n where "s1 = s\<lparr>lsr_reads := n\<rparr>" using wait_idle_state by blast
  then have "tx_queue s' = tx_queue s \<and> tx_ok s' = tx_ok s" "sent s1 = sent s"
    using s' tx_queue_cong [of s' s] by (simp_all add: WriteReg_def sent_def)
  then show ?thesis using s' by simp
qed

end
