(* ===== verification/Bytes.thy ===== *)
theory Bytes
  imports Xv6_Prelude
begin

text \<open>
  Little-endian encodings of machine words and the 64-bit accesses of byte-addressed memory:
  round trips, and that naturally aligned accesses at different addresses do not interfere.
  RISC-V is little-endian, and so are the on-disk structures of the file system.
\<close>

text \<open>Little-endian words: the value of a byte list and the first \<open>n\<close> bytes of a value.\<close>

fun le_word :: "u8 list \<Rightarrow> 'a :: len word" where
  "le_word [] = 0"
| "le_word (b # bs) = ucast b OR push_bit 8 (le_word bs)"

definition le_bytes :: "nat \<Rightarrow> 'a :: len word \<Rightarrow> u8 list" where
  "le_bytes n w = map (\<lambda>i. ucast (drop_bit (8 * i) w)) [0..<n]"

lemma length_le_bytes [simp]: "length (le_bytes n w) = n"
  by (simp add: le_bytes_def)

lemma nth_le_bytes [simp]: "i < n \<Longrightarrow> le_bytes n w ! i = ucast (drop_bit (8 * i) w)"
  by (simp add: le_bytes_def)

lemma bit_le_word:
  "bit (le_word xs :: 'a :: len word) n \<longleftrightarrow>
     n < LENGTH('a) \<and> n div 8 < length xs \<and> bit (xs ! (n div 8)) (n mod 8)"
proof (induction xs arbitrary: n)
  case (Cons b bs)
  show ?case
  proof (cases "n < 8")
    case True
    then show ?thesis by (auto simp: bit_or_iff bit_push_bit_iff bit_ucast_iff)
  next
    case False
    then have d: "n div 8 = Suc ((n - 8) div 8)" "n mod 8 = (n - 8) mod 8"
      by (simp_all add: le_div_geq le_mod_geq)
    have "\<not> bit b n" using False bit_imp_le_length [of b n] by auto
    with False show ?thesis by (auto simp: bit_or_iff bit_push_bit_iff bit_ucast_iff Cons d)
  qed
qed simp

lemma le_word_le_bytes:
  "LENGTH('a) = 8 * n \<Longrightarrow> le_word (le_bytes n (w :: 'a :: len word)) = w"
proof (rule bit_word_eqI)
  fix i assume l: "LENGTH('a) = 8 * n" and i: "i < LENGTH('a)"
  then have "i div 8 < n" by auto
  moreover have "8 * (i div 8) + i mod 8 = i" by simp
  ultimately show "bit (le_word (le_bytes n w) :: 'a word) i = bit w i"
    using i by (simp add: bit_le_word bit_ucast_iff bit_drop_bit_eq)
qed

lemma le_bytes_le_word:
  assumes "LENGTH('a) = 8 * length xs"
  shows "le_bytes (length xs) (le_word xs :: 'a :: len word) = xs"
proof (rule nth_equalityI)
  fix i assume "i < length (le_bytes (length xs) (le_word xs :: 'a word))"
  then have i: "i < length xs" by simp
  show "le_bytes (length xs) (le_word xs :: 'a word) ! i = xs ! i"
  proof (rule bit_word_eqI)
    fix j assume j: "j < LENGTH(8)"
    then have "(8 * i + j) div 8 = i" "(8 * i + j) mod 8 = j" by simp_all
    then show "bit (le_bytes (length xs) (le_word xs :: 'a word) ! i) j = bit (xs ! i) j"
      using i j assms by (simp add: bit_le_word bit_ucast_iff bit_drop_bit_eq)
  qed
qed simp

definition load64 :: "mem \<Rightarrow> u64 \<Rightarrow> u64" where
  "load64 m a = le_word (bytes m a 8)"

definition store64 :: "mem \<Rightarrow> u64 \<Rightarrow> u64 \<Rightarrow> mem" where
  "store64 m a v = (\<lambda>x. if in_range a 8 x then ucast (drop_bit (8 * unat (x - a)) v) else m x)"

lemma load64_store64_same [simp]: "load64 (store64 m a v) a = v"
proof -
  have "bytes (store64 m a v) a 8 = le_bytes 8 v"
    by (rule nth_equalityI) (auto simp: store64_def in_range_def)
  then show ?thesis by (simp add: load64_def le_word_le_bytes)
qed

lemma store64_other: "\<not> in_range a 8 x \<Longrightarrow> store64 m a v x = m x"
  by (simp add: store64_def)

lemma load64_cong: "(\<And>i. i < 8 \<Longrightarrow> m (a + of_nat i) = m' (a + of_nat i)) \<Longrightarrow> load64 m a = load64 m' a"
  unfolding load64_def by (metis bytes_cong)

text \<open>Naturally aligned accesses at different addresses do not overlap.\<close>

definition aligned8 :: "u64 \<Rightarrow> bool" where
  "aligned8 a \<longleftrightarrow> unat a mod 8 = 0"

lemma unat_add_sub_u64: 
  "unat (b + of_nat i - a :: u64) = (unat b + i + 18446744073709551616 - unat a) mod 18446744073709551616"
proof -
  have le: "unat a \<le> unat b + i + 18446744073709551616"
    using unat_less_2p64 [of a] by linarith
  have "b + of_nat i - a = of_nat (unat b + i + 18446744073709551616 - unat a)"
    by (simp add: of_nat_diff [OF le])
  then show ?thesis by (simp add: unat_of_nat)
qed

lemma aligned8_disjoint:
  assumes "aligned8 a" "aligned8 b" "a \<noteq> b" "i < 8"
  shows "\<not> in_range a 8 (b + of_nat i)"
proof
  assume "in_range a 8 (b + of_nat i)"
  then have lt: "(unat b + i + 18446744073709551616 - unat a) mod 18446744073709551616 < 8"
    unfolding in_range_def unat_add_sub_u64 .
  have ne: "unat a \<noteq> unat b" using assms(3) by (simp add: word_unat_eq_iff)
  obtain k l where k: "unat a = 8 * k" and l: "unat b = 8 * l"
    using assms(1,2) unfolding aligned8_def by (metis mod_eq_0_iff_dvd dvdE)
  have bd: "k < 2305843009213693952" "l < 2305843009213693952"
    using k l unat_less_2p64 [of a] unat_less_2p64 [of b] by simp_all
  consider "k < l" | "l < k" using ne k l by force
  then show False
  proof cases
    case 1
    then have "unat b + i + 18446744073709551616 - unat a = (8 * (l - k) + i) + 18446744073709551616"
      using k l by simp
    moreover have "8 * (l - k) + i < 18446744073709551616" using bd assms(4) by linarith
    ultimately show False using lt 1 by simp
  next
    case 2
    then have "unat b + i + 18446744073709551616 - unat a = 18446744073709551616 - 8 * (k - l) + i"
      using k l bd by simp
    moreover have "18446744073709551616 - 8 * (k - l) + i < 18446744073709551616"
      using 2 assms(4) by linarith
    ultimately show False using lt 2 bd by simp
  qed
qed

lemma load64_store64_other:
  "aligned8 a \<Longrightarrow> aligned8 b \<Longrightarrow> a \<noteq> b \<Longrightarrow> load64 (store64 m a v) b = load64 m b"
  by (rule load64_cong) (simp add: store64_other aligned8_disjoint)

end
