(* ===== verification/Riscv.thy ===== *)
theory Riscv
  imports Bytes
begin

text \<open>
  The macros of kernel/riscv.h and kernel/memlayout.h on addresses and page-table entries: page
  rounding, PTE flags and packing, page-table indices, the memory map.
\<close>

section \<open>Definitions\<close>

definition PGSIZE :: u64 where "PGSIZE = 4096"
definition PGROUNDUP :: "u64 \<Rightarrow> u64" where "PGROUNDUP sz = (sz + PGSIZE - 1) AND NOT (PGSIZE - 1)"
definition PGROUNDDOWN :: "u64 \<Rightarrow> u64" where "PGROUNDDOWN a = a AND NOT (PGSIZE - 1)"
definition PTE_V :: u64 where "PTE_V = push_bit 0 1"
definition PTE_R :: u64 where "PTE_R = push_bit 1 1"
definition PTE_W :: u64 where "PTE_W = push_bit 2 1"
definition PTE_X :: u64 where "PTE_X = push_bit 3 1"
definition PTE_U :: u64 where "PTE_U = push_bit 4 1"
definition PA2PTE :: "u64 \<Rightarrow> u64" where "PA2PTE pa = push_bit 10 (drop_bit 12 pa)"
definition PTE2PA :: "u64 \<Rightarrow> u64" where "PTE2PA pte = push_bit 12 (drop_bit 10 pte)"
definition PTE_FLAGS :: "u64 \<Rightarrow> u64" where "PTE_FLAGS pte = pte AND 0x3FF"
definition PXSHIFT :: "nat \<Rightarrow> nat" where "PXSHIFT level = 12 + 9 * level"
definition PX :: "nat \<Rightarrow> u64 \<Rightarrow> u64" where "PX level va = drop_bit (PXSHIFT level) va AND 0x1FF"
definition MAXVA :: u64 where "MAXVA = push_bit (9 + 9 + 9 + 12 - 1) 1"
definition KERNBASE :: u64 where "KERNBASE = 0x80000000"
definition PHYSTOP :: u64 where "PHYSTOP = KERNBASE + 128*1024*1024"
definition TRAMPOLINE :: u64 where "TRAMPOLINE = MAXVA - PGSIZE"
definition TRAPFRAME :: u64 where "TRAPFRAME = TRAMPOLINE - PGSIZE"
definition KSTACK :: "u64 \<Rightarrow> u64" where "KSTACK p = TRAMPOLINE - (p + 1) * 2 * PGSIZE"

section \<open>Facts\<close>

lemmas layout_defs = PGSIZE_def KERNBASE_def PHYSTOP_def MAXVA_def TRAMPOLINE_def TRAPFRAME_def KSTACK_def
lemmas pte_flag_defs = PTE_V_def PTE_R_def PTE_W_def PTE_X_def PTE_U_def

lemma mask12: "(4095 :: u64) = mask 12" by (simp add: mask_numeral)
lemma mask9: "(0x1FF :: u64) = mask 9" by (simp add: mask_numeral)
lemma mask10: "(0x3FF :: u64) = mask 10" by (simp add: mask_numeral)

lemma and_not_mask: "(a :: u64) AND NOT (mask n) = push_bit n (drop_bit n a)"
  by (rule bit_word_eqI) (auto simp: bit_simps)

lemma unat_push_drop: "unat (push_bit 12 (drop_bit 12 (a :: u64))) = unat a div 4096 * 4096"
proof -
  have "unat a div 4096 * 4096 \<le> unat a" by simp
  then have "unat a div 4096 * 4096 < 18446744073709551616" by (rule le_less_trans) simp
  then show ?thesis
    by (simp add: push_bit_eq_mult unat_word_ariths unat_drop_bit_eq drop_bit_eq_div unat_of_nat mult.commute)
qed

lemma PGROUNDDOWN_eq: "PGROUNDDOWN a = push_bit 12 (drop_bit 12 a)"
proof -
  have "PGSIZE - 1 = mask 12" by (simp add: PGSIZE_def mask12)
  then show ?thesis by (simp add: PGROUNDDOWN_def and_not_mask)
qed

lemma PGROUNDUP_eq: "PGROUNDUP a = PGROUNDDOWN (a + 4095)"
  by (simp add: PGROUNDUP_def PGROUNDDOWN_def PGSIZE_def add_diff_eq [symmetric])

lemma unat_PGROUNDDOWN: "unat (PGROUNDDOWN a) = unat a div 4096 * 4096"
  by (simp add: PGROUNDDOWN_eq unat_push_drop)

lemma unat_PGROUNDUP:
  assumes "unat a \<le> 18446744073709547520"
  shows "unat (PGROUNDUP a) = (unat a + 4095) div 4096 * 4096"
proof -
  have "unat (a + 4095) = unat a + 4095" using assms by (subst unat_add_u64) auto
  then show ?thesis by (simp add: PGROUNDUP_eq unat_PGROUNDDOWN)
qed

lemma bit_PTE2PA: "bit (PTE2PA pte) n \<longleftrightarrow> 12 \<le> n \<and> n < 64 \<and> bit pte (n - 2)"
  by (auto simp: PTE2PA_def bit_simps)

lemma flag_bits: "fl AND NOT (0x3FF :: u64) = 0 \<Longrightarrow> bit fl k \<Longrightarrow> k < 10"
proof (rule ccontr)
  assume "fl AND NOT (0x3FF :: u64) = 0" "bit fl k" "\<not> k < 10"
  then have "bit (fl AND NOT (mask 10)) k" using bit_imp_le_length [of fl k] by (simp add: bit_simps)
  with \<open>fl AND NOT (0x3FF :: u64) = 0\<close> show False unfolding mask10 by simp
qed

text \<open>A physical page number that fits a PTE.\<close>
lemma PTE2PA_PA2PTE:
  assumes "unat pa mod 4096 = 0" "unat pa < 2 ^ 56" "fl AND NOT 0x3FF = 0"
  shows "PTE2PA (PA2PTE pa OR fl) = pa"
proof (rule bit_word_eqI)
  fix n assume n: "n < LENGTH(64)"
  have lo: "\<not> bit pa n" if "n < 12"
  proof -
    have eq: "pa = push_bit 12 (drop_bit 12 pa)"
      using assms(1) by (simp only: word_unat_eq_iff unat_push_drop) (simp add: mult.commute minus_mod_eq_mult_div [symmetric])
    show ?thesis by (subst eq) (use that in \<open>simp add: bit_push_bit_iff\<close>)
  qed
  have hi: "\<not> bit pa n" if "56 \<le> n"
  proof -
    have eq: "pa = take_bit 56 pa"
      using assms(2) by (simp only: word_unat_eq_iff unsigned_take_bit_eq) (simp add: take_bit_nat_eq_self)
    show ?thesis by (subst eq) (use that in \<open>simp add: bit_take_bit_iff\<close>)
  qed
  note fl = flag_bits [OF assms(3)]
  show "bit (PTE2PA (PA2PTE pa OR fl)) n = bit pa n"
    using n lo hi fl [of "n - 2"] by (fastforce simp: bit_PTE2PA PA2PTE_def bit_simps not_le)
qed

lemma PTE_FLAGS_PA2PTE:
  assumes "fl AND NOT 0x3FF = 0"
  shows "PTE_FLAGS (PA2PTE pa OR fl) = fl"
proof (rule bit_word_eqI)
  fix n assume n: "n < LENGTH(64)"
  note fl = flag_bits [OF assms]
  show "bit (PTE_FLAGS (PA2PTE pa OR fl)) n = bit fl n"
    unfolding PTE_FLAGS_def mask10 using n fl [of n] by (auto simp: PA2PTE_def bit_simps)
qed

lemma unat_PX: "unat (PX l va) = unat va div 2 ^ PXSHIFT l mod 512"
  unfolding PX_def mask9 take_bit_eq_mask [symmetric]
  by (simp only: unsigned_take_bit_eq unat_drop_bit_eq) (simp add: take_bit_eq_mod drop_bit_eq_div)

lemma unat_PX_less [simp]: "unat (PX l va) < 512"
  by (simp add: unat_PX)

end
