(* ===== verification/Kstring.thy ===== *)
theory Kstring
  imports Xv6_Prelude
begin

text \<open>
  kernel/string.c. Every function works on byte-addressed memory; pointers are 64-bit addresses.
  Functions that return their destination pointer unchanged are modelled by the memory they leave.
  \<^verbatim>\<open>char\<close> and \<^verbatim>\<open>uchar\<close> are bytes; the differences that \<^verbatim>\<open>memcmp\<close> and
  \<^verbatim>\<open>strncmp\<close> return are taken on \<^verbatim>\<open>uchar\<close>, so they are differences of unsigned bytes.
\<close>

section \<open>Definitions\<close>

text \<open>\<^verbatim>\<open>for(i = 0; i < n; i++) cdst[i] = c;\<close> with \<open>k\<close> iterations left.\<close>

fun memset_loop :: "nat \<Rightarrow> mem \<Rightarrow> u64 \<Rightarrow> u8 \<Rightarrow> mem" where
  "memset_loop 0 m d c = m"
| "memset_loop (Suc k) m d c = memset_loop k (m(d := c)) (d + 1) c"

definition memset :: "mem \<Rightarrow> u64 \<Rightarrow> u32 \<Rightarrow> u32 \<Rightarrow> mem" where
  "memset m dst c n = memset_loop (unat n) m dst (ucast c)"

fun memcmp_loop :: "nat \<Rightarrow> mem \<Rightarrow> u64 \<Rightarrow> u64 \<Rightarrow> int" where
  "memcmp_loop 0 m s1 s2 = 0"
| "memcmp_loop (Suc n) m s1 s2 =
     (if m s1 \<noteq> m s2 then uint (m s1) - uint (m s2)
      else memcmp_loop n m (s1 + 1) (s2 + 1))"

definition memcmp :: "mem \<Rightarrow> u64 \<Rightarrow> u64 \<Rightarrow> u32 \<Rightarrow> int" where
  "memcmp m v1 v2 n = memcmp_loop (unat n) m v1 v2"

text \<open>The two loops of \<^verbatim>\<open>memmove\<close>: \<^verbatim>\<open>*d++ = *s++\<close> and \<^verbatim>\<open>*--d = *--s\<close>.\<close>

fun copy_up :: "nat \<Rightarrow> mem \<Rightarrow> u64 \<Rightarrow> u64 \<Rightarrow> mem" where
  "copy_up 0 m d s = m"
| "copy_up (Suc n) m d s = copy_up n (m(d := m s)) (d + 1) (s + 1)"

fun copy_down :: "nat \<Rightarrow> mem \<Rightarrow> u64 \<Rightarrow> u64 \<Rightarrow> mem" where
  "copy_down 0 m d s = m"
| "copy_down (Suc n) m d s = copy_down n (m(d - 1 := m (s - 1))) (d - 1) (s - 1)"

definition memmove :: "mem \<Rightarrow> u64 \<Rightarrow> u64 \<Rightarrow> u32 \<Rightarrow> mem" where
  "memmove m dst src n =
     (if n = 0 then m
      else if src < dst \<and> src + ucast n > dst
      then copy_down (unat n) m (dst + ucast n) (src + ucast n)
      else copy_up (unat n) m dst src)"

definition memcpy :: "mem \<Rightarrow> u64 \<Rightarrow> u64 \<Rightarrow> u32 \<Rightarrow> mem" where
  "memcpy m dst src n = memmove m dst src n"

fun strncmp_loop :: "nat \<Rightarrow> mem \<Rightarrow> u64 \<Rightarrow> u64 \<Rightarrow> int" where
  "strncmp_loop 0 m p q = 0"
| "strncmp_loop (Suc n) m p q =
     (if m p \<noteq> 0 \<and> m p = m q then strncmp_loop n m (p + 1) (q + 1)
      else uint (m p) - uint (m q))"

definition strncmp :: "mem \<Rightarrow> u64 \<Rightarrow> u64 \<Rightarrow> u32 \<Rightarrow> int" where
  "strncmp m p q n = strncmp_loop (unat n) m p q"

text \<open>
  \<^verbatim>\<open>while(n-- > 0 && (*s++ = *t++) != 0);\<close>: the memory, the advanced \<open>s\<close> and what is
  left of \<open>n\<close> (the failing test has decremented it too).
\<close>

function strncpy_copy :: "mem \<Rightarrow> u64 \<Rightarrow> u64 \<Rightarrow> int \<Rightarrow> mem \<times> u64 \<times> int" where
  "strncpy_copy m s t n =
     (if n > 0 then
        (if m t \<noteq> 0 then strncpy_copy (m(s := m t)) (s + 1) (t + 1) (n - 1)
         else (m(s := 0), s + 1, n - 1))
      else (m, s, n - 1))"
  by pat_completeness auto
termination
  by (relation "measure (\<lambda>(m, s, t, n). nat n)") auto

function strncpy_pad :: "mem \<Rightarrow> u64 \<Rightarrow> int \<Rightarrow> mem" where
  "strncpy_pad m s n = (if n > 0 then strncpy_pad (m(s := 0)) (s + 1) (n - 1) else m)"
  by pat_completeness auto
termination
  by (relation "measure (\<lambda>(m, s, n). nat n)") auto

definition strncpy :: "mem \<Rightarrow> u64 \<Rightarrow> u64 \<Rightarrow> int \<Rightarrow> mem" where
  "strncpy m s t n = (case strncpy_copy m s t n of (m', s', n') \<Rightarrow> strncpy_pad m' s' n')"

text \<open>
  \<^verbatim>\<open>while(--n > 0 && (*s++ = *t++) != 0); *s = 0;\<close>, where \<open>n\<close> is the value before
  the decrement of the loop test.
\<close>

function safestrcpy_loop :: "mem \<Rightarrow> u64 \<Rightarrow> u64 \<Rightarrow> int \<Rightarrow> mem" where
  "safestrcpy_loop m s t n =
     (if n - 1 > 0 then
        (if m t \<noteq> 0 then safestrcpy_loop (m(s := m t)) (s + 1) (t + 1) (n - 1)
         else m(s := 0, s + 1 := 0))
      else m(s := 0))"
  by pat_completeness auto
termination
  by (relation "measure (\<lambda>(m, s, t, n). nat n)") auto

definition safestrcpy :: "mem \<Rightarrow> u64 \<Rightarrow> u64 \<Rightarrow> int \<Rightarrow> mem" where
  "safestrcpy m s t n = (if n \<le> 0 then m else safestrcpy_loop m s t n)"

text \<open>
  \<^verbatim>\<open>for(n = 0; s[n]; n++);\<close> with the 32-bit signed \<open>n\<close>, whose sign-extended value indexes \<open>s\<close>. The loop does
  not return when no NUL follows; \<open>n\<close> wraps after 2147483647 steps, where C leaves the result undefined.
\<close>

partial_function (option) strlen_loop :: "mem \<Rightarrow> u64 \<Rightarrow> u32 \<Rightarrow> int option" where
  "strlen_loop m s n = (if m (s + of_int (sint n)) = 0 then Some (sint n) else strlen_loop m s (n + 1))"

definition strlen :: "mem \<Rightarrow> u64 \<Rightarrow> int option" where
  "strlen m s = strlen_loop m s 0"

declare strncpy_copy.simps [simp del] strncpy_pad.simps [simp del] safestrcpy_loop.simps [simp del]

section \<open>Filling and copying\<close>

lemma memset_loop_eq [mem_simps]:
  "n \<le> 2 ^ 64 \<Longrightarrow> memset_loop n m d c = (\<lambda>a. if in_range d n a then c else m a)"
  by (induction n m d c rule: memset_loop.induct) (auto simp: in_range_Suc fun_eq_iff)

lemma copy_up_eq:
  assumes "n \<le> 2 ^ 64" "d = s \<or> n \<le> unat (d - s)"
  shows "copy_up n m d s = (\<lambda>a. if in_range d n a then m (s + (a - d)) else m a)"
  using assms
proof (induction n m d s rule: copy_up.induct)
  case (2 n m d s)
  have dist: "d + 1 = s + 1 \<or> n \<le> unat ((d + 1) - (s + 1))"
    using 2(3) by auto
  have hit: "s + (a - d) \<noteq> d" if "in_range (d + 1) n a" for a
  proof
    assume eq: "s + (a - d) = d"
    then have ad: "a - d = d - s" by (simp add: algebra_simps)
    show False
    proof (cases "a = d")
      case True
      with that 2(2) show False by (simp add: in_range_def)
    next
      case False
      with ad have "d \<noteq> s" by auto
      with 2(3) have "Suc n \<le> unat (a - d)" using ad by simp
      moreover from that 2(2) False have "unat (a - d) < Suc n"
        using in_range_Suc [of n d a] by (simp add: in_range_def)
      ultimately show False by simp
    qed
  qed
  have sub: "s + 1 + (a - (d + 1)) = s + (a - d)" for a
    by (simp add: algebra_simps)
  have IH: "copy_up n (m(d := m s)) (d + 1) (s + 1) =
      (\<lambda>a. if in_range (d + 1) n a then (m(d := m s)) (s + (a - d)) else (m(d := m s)) a)"
    using 2(1) [OF _ dist] 2(2) by (simp only: sub)
  show ?case
    unfolding copy_up.simps IH using 2(2) hit by (auto simp: fun_eq_iff in_range_Suc)
qed (simp)

lemma copy_down_eq:
  assumes "n \<le> 2 ^ 64" "d = s \<or> n \<le> unat (s - d)"
  shows "copy_down n m d s =
    (\<lambda>a. if in_range (d - of_nat n) n a then m (s + (a - d)) else m a)"
  using assms
proof (induction n m d s rule: copy_down.induct)
  case (2 n m d s)
  let ?b = "d - 1 - of_nat n"
  have b: "d - of_nat (Suc n) = ?b" by (simp add: algebra_simps)
  have hit: "s + (a - d) \<noteq> d - 1" if "in_range ?b n a" for a
  proof
    assume eq: "s + (a - d) = d - 1"
    have "unat (a - ?b) < n" using that by (simp add: in_range_def)
    moreover have "a - ?b = of_nat n - (s - d)" using eq by (simp add: algebra_simps)
    ultimately have lt: "unat (of_nat n - (s - d)) < n" by simp
    show False
    proof (cases "d = s")
      case True
      with lt 2(2) show False by simp
    next
      case False
      with 2(3) have ge: "Suc n \<le> unat (s - d)" by simp
      then have "(of_nat n :: u64) < s - d"
        using 2(2) by (simp add: word_less_nat_alt)
      then have "unat (of_nat n - (s - d)) = 18446744073709551616 + n - unat (s - d)"
        using 2(2) unat_sub_wrap [of "of_nat n" "s - d"] by simp
      with lt unat_less_2p64 [of "s - d"] show False by linarith
    qed
  qed
  have top: "d - 1 = ?b + of_nat n" by simp
  have dist: "d - 1 = s - 1 \<or> n \<le> unat ((s - 1) - (d - 1))"
    using 2(3) by auto
  have sub: "s - 1 + (a - (d - 1)) = s + (a - d)" for a
    by (simp add: algebra_simps)
  have IH: "copy_down n (m(d - 1 := m (s - 1))) (d - 1) (s - 1) =
      (\<lambda>a. if in_range ?b n a then (m(d - 1 := m (s - 1))) (s + (a - d))
           else (m(d - 1 := m (s - 1))) a)"
    using 2(1) [OF _ dist] 2(2) by (simp only: sub)
  have snoc: "in_range ?b (Suc n) a \<longleftrightarrow> a = d - 1 \<or> in_range ?b n a" for a
    using 2(2) in_range_snoc [of n ?b a] by simp
  show ?case
    unfolding copy_down.simps IH b using hit by (auto simp: fun_eq_iff snoc)
qed simp

lemma memset_eq [mem_simps]:
  "memset m dst c n = (\<lambda>a. if in_range dst (unat n) a then ucast c else m a)"
  by (simp add: memset_def memset_loop_eq)

lemma memmove_eq:
  assumes "unat src + unat n < 2 ^ 64" "unat dst + unat n \<le> 2 ^ 64"
  shows "memmove m dst src n =
    (\<lambda>a. if in_range dst (unat n) a then m (src + (a - dst)) else m a)"
proof (cases "n = 0")
  case True
  then show ?thesis by (simp add: memmove_def)
next
  case n: False
  have sn: "unat (src + ucast n) = unat src + unat n"
    using assms(1) unat_add_u64 [of src "ucast n"] by simp
  show ?thesis
  proof (cases "src < dst \<and> src + ucast n > dst")
    case True
    have sub: "src + ucast n + (a - (dst + ucast n)) = src + (a - dst)" for a
      by (simp add: algebra_simps)
    from True have "unat n \<le> unat ((src + ucast n) - (dst + ucast n))"
      using assms(2) by (simp add: unat_sub_wrap word_less_nat_alt)
    then show ?thesis
      using n True copy_down_eq [of "unat n" "dst + ucast n" "src + ucast n" m]
      unfolding sub by (simp add: memmove_def)
  next
    case False
    have "dst = src \<or> unat n \<le> unat (dst - src)"
    proof (cases "src < dst")
      case True
      with False sn show ?thesis
        by (auto simp: word_less_nat_alt unat_sub word_le_nat_alt)
    next
      case ge: False
      then have "dst = src \<or> dst < src" by auto
      then show ?thesis
        using assms(1) by (auto simp: unat_sub_wrap)
    qed
    then show ?thesis
      using n False copy_up_eq [of "unat n" dst src m] by (auto simp: memmove_def)
  qed
qed

section \<open>Comparison\<close>

lemma memcmp_loop_zero: "memcmp_loop n m a b = 0 \<longleftrightarrow> bytes m a n = bytes m b n"
  by (induction n m a b rule: memcmp_loop.induct) (auto simp: bytes_Suc word_uint_eq_iff)

lemma memcmp_loop_first_diff:
  "i < n \<Longrightarrow> \<forall>j < i. m (a + of_nat j) = m (b + of_nat j) \<Longrightarrow> m (a + of_nat i) \<noteq> m (b + of_nat i)
   \<Longrightarrow> memcmp_loop n m a b = uint (m (a + of_nat i)) - uint (m (b + of_nat i))"
proof (induction n arbitrary: i a b)
  case (Suc n)
  show ?case
  proof (cases i)
    case (Suc k)
    have "\<forall>j < k. m (a + 1 + of_nat j) = m (b + 1 + of_nat j)"
      using Suc.prems(2) Suc by (auto simp: algebra_simps dest: spec [of _ "Suc _"])
    moreover have "m a = m b" using Suc.prems(2) Suc by (auto dest: spec [of _ 0])
    ultimately show ?thesis
      using Suc.IH [of k "a + 1" "b + 1"] Suc.prems Suc by (simp add: algebra_simps)
  qed (use Suc.prems in simp)
qed simp

lemma strncmp_loop_zero:
  "strncmp_loop n m p q = 0 \<longleftrightarrow> cstr (bytes m p n) = cstr (bytes m q n)"
  by (induction n m p q rule: strncmp_loop.induct) (auto simp: bytes_Suc word_uint_eq_iff)

lemma sint_of_nat_small: "n < 2 ^ 31 \<Longrightarrow> sint (of_nat n :: u32) = int n"
proof -
  assume n: "n < 2 ^ 31"
  then have "take_bit 32 n = n" by (simp add: take_bit_nat_eq_self_iff)
  then show ?thesis using n by (simp add: sint_uint unsigned_of_nat signed_take_bit_int_eq_self)
qed

lemma strlen_loop_Some:
  assumes "\<forall>i. n \<le> i \<and> i < k \<longrightarrow> m (s + of_nat i) \<noteq> 0" "m (s + of_nat k) = 0" "n \<le> k" "k < 2 ^ 31"
  shows "strlen_loop m s (of_nat n) = Some (int k)"
  using assms
proof (induction "k - n" arbitrary: n)
  case 0
  then have n: "n = k" "sint (of_nat n :: u32) = int n" by (simp_all add: sint_of_nat_small)
  show ?case using 0(3) n by (subst strlen_loop.simps) simp
next
  case (Suc d)
  then have n: "n < k" "sint (of_nat n :: u32) = int n" by (simp_all add: sint_of_nat_small)
  have "strlen_loop m s (of_nat (Suc n)) = Some (int k)" using Suc by (intro Suc.hyps(1)) auto
  moreover have "m (s + of_nat n) \<noteq> 0" using Suc.prems(1) n(1) by blast
  ultimately show ?case using n(2) by (subst strlen_loop.simps) (simp add: add.commute)
qed

section \<open>String copies\<close>

lemma strncpy_pad_eq:
  "n \<le> 18446744073709551616 \<Longrightarrow> strncpy_pad m s (int n) = memset_loop n m s 0"
  by (induction n arbitrary: m s) (simp_all add: strncpy_pad.simps)

lemma strncpy_Suc:
  "strncpy m s t (int (Suc n)) =
    (if m t \<noteq> 0 then strncpy (m(s := m t)) (s + 1) (t + 1) (int n)
     else strncpy_pad (m(s := 0)) (s + 1) (int n))"
  by (simp add: strncpy_def strncpy_copy.simps [of m s t])

lemma strncpy_0: "strncpy m s t 0 = m"
  by (simp add: strncpy_def strncpy_copy.simps strncpy_pad.simps)

lemma strncpy_frame:
  "n \<le> 18446744073709551616 \<Longrightarrow> \<not> in_range s n a \<Longrightarrow> strncpy m s t (int n) a = m a"
proof (induction n arbitrary: m s t)
  case (Suc n)
  then have "a \<noteq> s" "\<not> in_range (s + 1) n a" by (auto simp: in_range_Suc)
  with Suc show ?case
    by (auto simp: strncpy_Suc strncpy_pad_eq memset_loop_eq simp del: of_nat_Suc)
qed (simp add: strncpy_0)

text \<open>What \<open>strncpy\<close> leaves at the destination.\<close>

definition padded :: "nat \<Rightarrow> u8 list \<Rightarrow> u8 list" where
  "padded n xs = cstr xs @ replicate (n - length (cstr xs)) 0"

lemma strncpy_content:
  "n \<le> 18446744073709551616 \<Longrightarrow> disjoint_ranges s n t n \<Longrightarrow>
   bytes (strncpy m s t (int n)) s n = padded n (bytes m t n)"
proof (induction n arbitrary: m s t)
  case (Suc n)
  note dj = disjoint_ranges_Suc [OF Suc.prems(2)]
  have nin: "\<not> in_range (s + 1) n s"
    using Suc.prems(1) by (simp add: in_range_def)
  show ?case
  proof (cases "m t = 0")
    case True
    then show ?thesis using Suc.prems nin
      by (auto simp: strncpy_Suc strncpy_pad_eq memset_loop_eq bytes_Suc padded_def in_range_def
          intro!: bytes_all simp del: of_nat_Suc)
  next
    case False
    have "bytes (m(s := m t)) (t + 1) n = bytes m (t + 1) n"
      using dj(2) Suc.prems(1) by (intro bytes_upd_other) simp
    then show ?thesis using Suc False dj nin
      by (simp add: strncpy_Suc bytes_Suc padded_def strncpy_frame del: of_nat_Suc)
  qed
qed (simp add: padded_def)

lemma safestrcpy_loop_Suc:
  "0 < n \<Longrightarrow> safestrcpy_loop m s t (int (Suc n)) =
    (if m t \<noteq> 0 then safestrcpy_loop (m(s := m t)) (s + 1) (t + 1) (int n)
     else m(s := 0, s + 1 := 0))"
  by (simp add: safestrcpy_loop.simps [of m s t])

lemma safestrcpy_loop_1: "safestrcpy_loop m s t 1 = m(s := 0)"
  by (simp add: safestrcpy_loop.simps)

lemma safestrcpy_frame:
  "0 < n \<Longrightarrow> n \<le> 18446744073709551616 \<Longrightarrow> \<not> in_range s n a \<Longrightarrow> safestrcpy_loop m s t (int n) a = m a"
proof (induction n arbitrary: m s t)
  case (Suc n)
  show ?case
  proof (cases "n = 0")
    case True
    with Suc.prems show ?thesis by (auto simp: safestrcpy_loop_1 in_range_def)
  next
    case False
    then obtain k where k: "n = Suc k" by (cases n) auto
    have "a \<noteq> s" "\<not> in_range (s + 1) n a" "a \<noteq> s + 1"
      using Suc.prems k by (auto simp: in_range_Suc)
    with Suc False show ?thesis by (auto simp: safestrcpy_loop_Suc simp del: of_nat_Suc)
  qed
qed simp

lemma safestrcpy_content:
  "0 < n \<Longrightarrow> n \<le> 18446744073709551616 \<Longrightarrow> disjoint_ranges s n t n \<Longrightarrow>
   c = cstr (bytes m t (n - 1)) \<Longrightarrow>
   bytes (safestrcpy_loop m s t (int n)) s (Suc (length c)) = c @ [0]"
proof (induction n arbitrary: m s t c)
  case (Suc n)
  note dj = disjoint_ranges_Suc [OF Suc.prems(3)]
  have nin: "\<not> in_range (s + 1) n s"
    using Suc.prems(2) by (simp add: in_range_def)
  show ?case
  proof (cases n)
    case 0
    with Suc.prems show ?thesis by (simp add: safestrcpy_loop_1 bytes_Suc)
  next
    case (Suc k)
    show ?thesis
    proof (cases "m t = 0")
      case True
      then show ?thesis using Suc Suc.prems
        by (simp add: safestrcpy_loop_Suc bytes_Suc del: of_nat_Suc)
    next
      case False
      define m1 where "m1 = m(s := m t)"
      have m1: "bytes m1 (t + 1) k = bytes m (t + 1) k"
        unfolding m1_def using dj(2) Suc.prems(2) Suc by (intro bytes_upd_other) simp
      have "bytes (safestrcpy_loop m1 (s + 1) (t + 1) (int n)) (s + 1)
          (Suc (length (cstr (bytes m1 (t + 1) k)))) = cstr (bytes m1 (t + 1) k) @ [0]"
        using dj Suc.prems Suc by (intro Suc.IH) auto
      then have "bytes (safestrcpy_loop (m(s := m t)) (s + 1) (t + 1) (int n)) (s + 1)
          (Suc (length (cstr (bytes m (t + 1) k)))) = cstr (bytes m (t + 1) k) @ [0]"
        unfolding m1 by (simp only: m1_def)
      then show ?thesis using False Suc Suc.prems nin
        by (simp add: safestrcpy_loop_Suc bytes_Suc safestrcpy_frame del: of_nat_Suc)
    qed
  qed
qed simp

section \<open>Properties\<close>

text \<open>
  C31: \<^verbatim>\<open>memmove\<close> moves \<open>n\<close> bytes whether or not the two ranges overlap: every
  destination byte holds what the corresponding source byte held before the call, and no other
  byte of memory changes. The ranges must not wrap around the address space.
\<close>

theorem memmove_correct:
  assumes "unat src + unat n < 2 ^ 64" "unat dst + unat n \<le> 2 ^ 64"
  shows "memmove m dst src n =
    (\<lambda>a. if in_range dst (unat n) a then m (src + (a - dst)) else m a)"
  using assms by (rule memmove_eq)

theorem memmove_correct_witness:
  "map (memmove (\<lambda>a. ucast a) 2 0 4) [0, 1, 2, 3, 4, 5, 6] = [0, 1, 0, 1, 2, 3, 6]"
proof -
  have "unat (0 :: u64) + unat (4 :: u32) < 2 ^ 64" "unat (2 :: u64) + unat (4 :: u32) \<le> 2 ^ 64"
    by simp_all
  from memmove_correct [OF this, of "\<lambda>a. ucast a"] show ?thesis
    by (simp add: in_range_def)
qed

text \<open>
  C39: \<^verbatim>\<open>strncpy\<close> into a disjoint buffer of \<open>n\<close> bytes leaves the source string, cut at
  \<open>n\<close> characters, followed by NULs up to \<open>n\<close>, and writes nothing outside the buffer;
  \<^verbatim>\<open>safestrcpy\<close> leaves the string cut at \<open>n - 1\<close> characters and always a terminating NUL,
  and writes nothing outside the buffer.
\<close>

theorem string_copies_correct:
  assumes "0 < n" "n < 2147483648" "disjoint_ranges s n t n"
  shows "bytes (strncpy m s t (int n)) s n = padded n (bytes m t n) \<and>
    bytes (safestrcpy m s t (int n)) s (Suc (length (cstr (bytes m t (n - 1)))))
      = cstr (bytes m t (n - 1)) @ [0] \<and>
    (\<forall>a. \<not> in_range s n a \<longrightarrow>
      strncpy m s t (int n) a = m a \<and> safestrcpy m s t (int n) a = m a)"
  using assms
  by (auto simp: safestrcpy_def safestrcpy_content safestrcpy_frame strncpy_content strncpy_frame)

theorem string_copies_correct_witness:
  "bytes (strncpy (\<lambda>a. if a = 100 then 120 else 0) 200 100 3) 200 3 = [120, 0, 0] \<and>
   bytes (safestrcpy (\<lambda>a. if a = 100 then 120 else 0) 200 100 3) 200 2 = [120, 0]"
proof -
  let ?m = "\<lambda>a. if a = (100 :: u64) then 120 else 0 :: u8"
  have "0 < (3 :: nat)" "3 < (2147483648 :: nat)" "disjoint_ranges 200 3 100 3"
    by (auto simp: disjoint_ranges_def in_range_def less_Suc_eq numeral_3_eq_3)
  from string_copies_correct [OF this, of ?m]
  show ?thesis by (simp add: padded_def bytes_def upt_rec replicate_numeral)
qed

text \<open>
  C40: \<^verbatim>\<open>memcmp\<close> is zero exactly on equal byte ranges and otherwise the difference of the
  first two bytes that differ; \<^verbatim>\<open>strncmp\<close> is zero exactly when the two strings, cut at
  \<open>n\<close> characters, are equal.
\<close>

theorem compare_correct:
  "(memcmp m a b n = 0 \<longleftrightarrow> bytes m a (unat n) = bytes m b (unat n)) \<and>
   (\<forall>i < unat n. (\<forall>j < i. m (a + of_nat j) = m (b + of_nat j)) \<and> m (a + of_nat i) \<noteq> m (b + of_nat i) \<longrightarrow>
     memcmp m a b n = uint (m (a + of_nat i)) - uint (m (b + of_nat i))) \<and>
   (strncmp m a b n = 0 \<longleftrightarrow> cstr (bytes m a (unat n)) = cstr (bytes m b (unat n)))"
  by (simp add: memcmp_def strncmp_def memcmp_loop_zero memcmp_loop_first_diff strncmp_loop_zero)

theorem compare_correct_witness:
  "memcmp (\<lambda>a. if a = 11 then 7 else if a = 21 then 9 else 3) 10 20 2 = -2"
proof -
  let ?m = "\<lambda>a. if a = (11 :: u64) then 7 else if a = 21 then 9 else 3 :: u8"
  have "\<forall>j < (1 :: nat). ?m (10 + of_nat j) = ?m (20 + of_nat j)" by simp
  with compare_correct [of ?m 10 20 2] show ?thesis
    by (auto dest!: spec [of _ 1])
qed

text \<open>\<open>strlen\<close> returns the index of the first NUL, whenever there is one at an index that an int holds.\<close>

lemma strlen_correct:
  assumes "m (s + of_nat k) = 0" "\<forall>i < k. m (s + of_nat i) \<noteq> 0" "k < 2 ^ 31"
  shows "strlen m s = Some (int k)"
  using strlen_loop_Some [of 0 k m s] assms by (simp add: strlen_def)

end
