(* ===== verification/Kalloc.thy ===== *)
theory Kalloc
  imports Riscv Kstring
begin

text \<open>
  kernel/kalloc.c: the physical page allocator. The free list is a linked list threaded through the
  free pages themselves: the first eight bytes of a free page hold the address of the next one.
  The state is physical memory (mapped one to one in the kernel) with the list head
  \<^verbatim>\<open>kmem.freelist\<close>; \<open>kernel_end\<close> is the linker symbol \<^verbatim>\<open>end\<close>, the first
  address after the kernel image. The critical sections under \<^verbatim>\<open>kmem.lock\<close> are atomic here.
\<close>

section \<open>Definitions\<close>

record kst =
  kernel_end :: u64
  pmem :: mem
  freelist :: u64

definition kfree :: "u64 \<Rightarrow> kst \<Rightarrow> kst kres" where
  "kfree pa k =
     (if pa mod PGSIZE \<noteq> 0 \<or> pa < kernel_end k \<or> pa \<ge> PHYSTOP then Panic ''kfree''
      else
        let m = memset (pmem k) pa 1 (ucast PGSIZE);
            m = store64 m pa (freelist k)
        in Ok (k\<lparr>pmem := m, freelist := pa\<rparr>))"

definition kalloc :: "kst \<Rightarrow> u64 \<times> kst" where
  "kalloc k =
     (let r = freelist k;
          k = (if r \<noteq> 0 then k\<lparr>freelist := load64 (pmem k) r\<rparr> else k);
          k = (if r \<noteq> 0 then k\<lparr>pmem := memset (pmem k) r 5 (ucast PGSIZE)\<rparr> else k)
      in (r, k))"

text \<open>
  \<^verbatim>\<open>for(; p + PGSIZE <= pa_end; p += PGSIZE) kfree(p);\<close> The loop ends because \<open>kfree\<close>
  panics on an address at or above \<open>PHYSTOP\<close>, so \<open>p\<close> never wraps.
\<close>

function freerange_loop :: "u64 \<Rightarrow> u64 \<Rightarrow> kst \<Rightarrow> kst kres" where
  "freerange_loop p pa_end k =
     (if p + PGSIZE \<le> pa_end
      then kbind (kfree p k) (\<lambda>k. freerange_loop (p + PGSIZE) pa_end k)
      else Ok k)"
  by pat_completeness auto
termination
  by (relation "measure (\<lambda>(p, e, k). 2 ^ 64 - unat p)")
    (auto simp: kfree_def word_le_nat_alt layout_defs unat_word_ariths split: if_splits)

declare freerange_loop.simps [simp del]

definition freerange :: "u64 \<Rightarrow> u64 \<Rightarrow> kst \<Rightarrow> kst kres" where
  "freerange pa_start pa_end k = freerange_loop (PGROUNDUP pa_start) pa_end k"

text \<open>\<^verbatim>\<open>kmem\<close> is zero-initialised, so the list is empty before \<open>kinit\<close>.\<close>

definition kinit :: "kst \<Rightarrow> kst kres" where
  "kinit k = freerange (kernel_end k) PHYSTOP k"

section \<open>Free list invariant\<close>

text \<open>\<open>ps\<close> is the chain of next pointers from \<open>p\<close> to the null pointer.\<close>

fun chain :: "mem \<Rightarrow> u64 \<Rightarrow> u64 list \<Rightarrow> bool" where
  "chain m p [] \<longleftrightarrow> p = 0"
| "chain m p (x # xs) \<longleftrightarrow> p = x \<and> x \<noteq> 0 \<and> chain m (load64 m x) xs"

text \<open>A page the allocator may own.\<close>

definition good_page :: "u64 \<Rightarrow> u64 \<Rightarrow> bool" where
  "good_page ke pa \<longleftrightarrow> unat pa mod 4096 = 0 \<and> ke \<le> pa \<and> pa < PHYSTOP"

definition kinv :: "kst \<Rightarrow> u64 list \<Rightarrow> bool" where
  "kinv k ps \<longleftrightarrow> 0 < kernel_end k \<and> chain (pmem k) (freelist k) ps \<and> distinct ps \<and>
     (\<forall>p \<in> set ps. good_page (kernel_end k) p)"

text \<open>The \<open>4096\<close> addresses of the page at \<open>p\<close>.\<close>

abbreviation in_page :: "u64 \<Rightarrow> u64 \<Rightarrow> bool" where
  "in_page p a \<equiv> in_range p 4096 a"

lemma in_page_iff:
  assumes "unat p mod 4096 = 0"
  shows "in_page p a \<longleftrightarrow> unat a div 4096 = unat p div 4096"
proof -
  obtain k where k: "unat p = 4096 * k" using assms by (metis mod_eq_0_iff_dvd dvdE)
  have kb: "k < 4503599627370496" using k unat_less_2p64 [of p] by simp
  show ?thesis
  proof (cases "p \<le> a")
    case True
    then have "unat (a - p) = unat a - unat p" "unat p \<le> unat a"
      by (simp_all add: unat_sub word_le_nat_alt)
    then show ?thesis unfolding in_range_def k by auto
  next
    case False
    then have "unat (a - p) = 18446744073709551616 + unat a - unat p" "unat a < unat p"
      by (simp_all add: unat_sub_wrap word_less_nat_alt not_le)
    then show ?thesis unfolding in_range_def k using kb by auto
  qed
qed

lemma in_page_self [simp]: "in_page p p"
  by (simp add: in_range_def)

lemma in_page_add [simp]: "i < 4096 \<Longrightarrow> in_page p (p + of_nat i)"
  by (simp add: in_range_def)

lemma pages_disjoint:
  "unat p mod 4096 = 0 \<Longrightarrow> unat q mod 4096 = 0 \<Longrightarrow> p \<noteq> q \<Longrightarrow> in_page p a \<Longrightarrow> \<not> in_page q a"
  using mult_div_mod_eq [of 4096 "unat p"] mult_div_mod_eq [of 4096 "unat q"]
  by (auto simp: in_page_iff word_unat_eq_iff)

lemma load64_page_cong:
  "(\<And>a. in_page p a \<Longrightarrow> m a = m' a) \<Longrightarrow> load64 m p = load64 m' p"
  by (rule load64_cong) simp

lemma chain_cong: "(\<And>x. x \<in> set ps \<Longrightarrow> load64 m x = load64 m' x) \<Longrightarrow> chain m p ps = chain m' p ps"
  by (induction ps arbitrary: p) auto

lemma in_range_mono: "in_range d n a \<Longrightarrow> n \<le> k \<Longrightarrow> in_range d k a"
  by (simp add: in_range_def)

lemma unat_ucast_PGSIZE [simp]: "unat (ucast PGSIZE :: u32) = 4096"
  by (simp add: PGSIZE_def)

lemma aligned_mod_PGSIZE: "pa mod PGSIZE = 0 \<longleftrightarrow> unat pa mod 4096 = 0"
  by (simp add: PGSIZE_def word_unat_eq_iff unat_mod)

lemma kfree_memory:
  "kfree pa k = Ok k' \<Longrightarrow> \<not> in_page pa a \<Longrightarrow> pmem k' a = pmem k a"
  by (auto simp: kfree_def Let_def memset_eq store64_def in_range_def split: if_splits)

lemma kfree_panics_iff: "kfree pa k = Panic e \<longleftrightarrow> e = ''kfree'' \<and> \<not> good_page (kernel_end k) pa"
  by (auto simp: kfree_def Let_def good_page_def aligned_mod_PGSIZE not_le split: if_splits)

lemma kfree_kinv:
  assumes "kinv k ps" "good_page (kernel_end k) pa" "pa \<notin> set ps"
  shows "\<exists>k'. kfree pa k = Ok k' \<and> kinv k' (pa # ps) \<and> kernel_end k' = kernel_end k \<and>
    (\<forall>a. \<not> in_page pa a \<longrightarrow> pmem k' a = pmem k a)"
proof -
  obtain k' where k': "kfree pa k = Ok k'"
    using assms(2) kfree_panics_iff [of pa k] by (cases "kfree pa k") (auto simp: kfree_def Let_def split: if_splits)
  then have eqs: "freelist k' = pa" "kernel_end k' = kernel_end k"
      "load64 (pmem k') pa = freelist k"
    by (auto simp: kfree_def Let_def split: if_splits)
  have same: "load64 (pmem k') x = load64 (pmem k) x" if "x \<in> set ps" for x
  proof (rule load64_page_cong)
    fix a assume "in_page x a"
    then have "\<not> in_page pa a"
      using pages_disjoint [of x pa a] that assms by (auto simp: kinv_def good_page_def)
    with k' show "pmem k' a = pmem k a" by (rule kfree_memory)
  qed
  have "pa \<noteq> 0" using assms(1,2) by (auto simp: kinv_def good_page_def)
  moreover have "chain (pmem k') (freelist k) ps"
    using assms(1) same by (simp add: kinv_def chain_cong [of ps "pmem k'" "pmem k"])
  ultimately have "kinv k' (pa # ps)"
    using assms eqs by (simp add: kinv_def)
  with k' eqs show ?thesis by (auto intro: kfree_memory)
qed

lemma kalloc_memory: "kalloc k = (r, k') \<Longrightarrow> r = 0 \<or> \<not> in_page r a \<Longrightarrow> pmem k' a = pmem k a"
  by (auto simp: kalloc_def Let_def memset_eq split: if_splits)

lemma kalloc_nonzero_kinv:
  assumes "kinv k (p # ps)"
  shows "\<exists>k'. kalloc k = (p, k') \<and> kinv k' ps \<and> p \<noteq> 0 \<and> kernel_end k' = kernel_end k \<and>
    (\<forall>a. pmem k' a = (if in_page p a then 5 else pmem k a))"
proof -
  obtain r k' where k': "kalloc k = (r, k')" by fastforce
  have p: "freelist k = p" "p \<noteq> 0" using assms by (auto simp: kinv_def)
  then have eqs: "r = p" "freelist k' = load64 (pmem k) p" "kernel_end k' = kernel_end k"
      "pmem k' = (\<lambda>a. if in_page p a then 5 else pmem k a)"
    using k' by (auto simp: kalloc_def Let_def memset_eq)
  have same: "load64 (pmem k') x = load64 (pmem k) x" if "x \<in> set ps" for x
  proof (rule load64_page_cong)
    fix a assume "in_page x a"
    then have "\<not> in_page p a"
      using pages_disjoint [of x p a] that assms by (auto simp: kinv_def good_page_def)
    then show "pmem k' a = pmem k a" by (simp add: eqs)
  qed
  have "chain (pmem k') (load64 (pmem k) p) ps"
    using assms same by (simp add: kinv_def chain_cong [of ps "pmem k'" "pmem k"])
  then have "kinv k' ps" using assms eqs by (simp add: kinv_def)
  then show ?thesis using k' eqs p by auto
qed

lemma kalloc_empty_kinv: "kinv k [] \<Longrightarrow> kalloc k = (0, k)"
  by (simp add: kinv_def kalloc_def)

text \<open>The pages that \<open>freerange\<close> frees, in the order it frees them.\<close>
definition page_range :: "u64 \<Rightarrow> nat \<Rightarrow> u64 list" where
  "page_range p n = map (\<lambda>i. p + of_nat i * 4096) [0..<n]"

lemma page_range_Suc: "page_range p (Suc n) = p # page_range (p + 4096) n"
  by (simp add: page_range_def map_upt_Suc algebra_simps del: upt_Suc)

lemma freerange_loop_kinv:
  assumes "kinv k ps" "unat p mod 4096 = 0" "kernel_end k \<le> p" "unat p \<le> 2281701376"
    "unat pe \<le> 2281701376" "n = (unat pe - unat p) div 4096" "\<forall>q \<in> set ps. q < p"
  shows "\<exists>k'. freerange_loop p pe k = Ok k' \<and> kinv k' (rev (page_range p n) @ ps) \<and>
    kernel_end k' = kernel_end k"
  using assms
proof (induction n arbitrary: p k ps)
  case 0
  have up: "unat (p + PGSIZE) = unat p + 4096"
    using 0(4) by (simp add: PGSIZE_def unat_add_u64)
  have "unat pe < unat p + 4096" using 0(6) by (simp add: div_eq_0_iff)
  then have "\<not> p + PGSIZE \<le> pe" using up by (simp add: word_le_nat_alt)
  then show ?case using 0 by (simp add: freerange_loop.simps page_range_def)
next
  case (Suc n)
  have up: "unat (p + PGSIZE) = unat p + 4096"
    using Suc.prems(4) by (simp add: PGSIZE_def unat_add_u64)
  have le: "unat p + 4096 \<le> unat pe"
    using Suc.prems(6) div_less [of "unat pe - unat p" 4096] by (cases "unat pe - unat p < 4096") auto
  have n: "n = (unat pe - unat (p + PGSIZE)) div 4096"
    using Suc.prems(6) le le_div_geq [of 4096 "unat pe - unat p"] by (simp add: up)
  have good: "good_page (kernel_end k) p"
    using Suc.prems le by (simp add: good_page_def layout_defs word_less_nat_alt)
  have "p \<notin> set ps" using Suc.prems(7) by auto
  then obtain k1 where k1: "kfree p k = Ok k1" "kinv k1 (p # ps)" "kernel_end k1 = kernel_end k"
    using kfree_kinv [OF Suc.prems(1) good] by auto
  have lt: "p < p + PGSIZE" using up by (simp add: word_less_nat_alt)
  have "\<exists>k'. freerange_loop (p + PGSIZE) pe k1 = Ok k' \<and>
      kinv k' (rev (page_range (p + PGSIZE) n) @ p # ps) \<and> kernel_end k' = kernel_end k1"
  proof (rule Suc.IH [OF k1(2) _ _ _ _ n])
    show "unat (p + PGSIZE) mod 4096 = 0" using Suc.prems(2) by (simp add: up)
    show "kernel_end k1 \<le> p + PGSIZE" using k1(3) Suc.prems(3) lt by simp
    show "unat (p + PGSIZE) \<le> 2281701376" using le up Suc.prems(5) by simp
    show "\<forall>q\<in>set (p # ps). q < p + PGSIZE" using Suc.prems(7) lt by auto
  qed (fact Suc.prems(5))
  then show ?case
    using k1 le up by (simp add: freerange_loop.simps [of p] word_le_nat_alt page_range_Suc PGSIZE_def)
qed

lemma set_page_range:
  assumes "unat p mod 4096 = 0" "unat e mod 4096 = 0" "n = (unat e - unat p) div 4096" "unat p \<le> unat e"
  shows "set (page_range p n) = {q. unat q mod 4096 = 0 \<and> p \<le> q \<and> q < e}"
proof -
  obtain i j where ij: "unat p = 4096 * i" "unat e = 4096 * j"
    using assms(1,2) by (metis mod_eq_0_iff_dvd dvdE)
  then have n: "n = j - i" "i \<le> j" using assms by auto
  have el: "unat (p + of_nat l * 4096) = 4096 * (i + l)" if "l < j - i" for l
  proof -
    have b: "4096 * (i + l) < 18446744073709551616" using that unat_less_2p64 [of e] ij by simp
    have "p = of_nat (4096 * i)" using b ij(1) by (simp add: word_unat_eq_iff unat_of_nat_u64 del: of_nat_mult)
    then have "p + of_nat l * 4096 = of_nat (4096 * (i + l))" by (simp add: algebra_simps)
    then show ?thesis using b by (simp only: unat_of_nat_u64)
  qed
  show ?thesis
  proof (intro set_eqI iffI)
    fix q assume "q \<in> set (page_range p n)"
    then obtain l where "l < j - i" "q = p + of_nat l * 4096" by (auto simp: page_range_def n)
    then show "q \<in> {q. unat q mod 4096 = 0 \<and> p \<le> q \<and> q < e}"
      using el [of l] ij by (simp add: word_le_nat_alt word_less_nat_alt)
  next
    fix q assume q: "q \<in> {q. unat q mod 4096 = 0 \<and> p \<le> q \<and> q < e}"
    then have "4096 dvd unat q" by (simp add: mod_eq_0_iff_dvd)
    then obtain l where l: "unat q = 4096 * l" by (rule dvdE)
    with q ij have "i \<le> l" "l < j" by (simp_all add: word_le_nat_alt word_less_nat_alt)
    then have "l - i < j - i" "unat (p + of_nat (l - i) * 4096) = unat q" using el [of "l - i"] l by simp_all
    then show "q \<in> set (page_range p n)"
      by (auto simp: page_range_def n word_unat_eq_iff intro!: image_eqI [of _ _ "l - i"])
  qed
qed

text \<open>A client of the allocator: it allocates pages and frees pages it holds.\<close>

datatype page_op = Alloc | Free nat

fun client_run ::
  "('s \<Rightarrow> u64 \<times> 's) \<Rightarrow> (u64 \<Rightarrow> 's \<Rightarrow> 's kres) \<Rightarrow> page_op list \<Rightarrow> 's \<times> u64 list \<Rightarrow> ('s \<times> u64 list) kres"
where
  "client_run al fr [] (s, held) = Ok (s, held)"
| "client_run al fr (Alloc # ops) (s, held) =
     (case al s of (p, s) \<Rightarrow> client_run al fr ops (s, if p = 0 then held else p # held))"
| "client_run al fr (Free i # ops) (s, held) =
     (if i < length held
      then kbind (fr (held ! i) s) (\<lambda>s. client_run al fr ops (s, take i held @ drop (Suc i) held))
      else client_run al fr ops (s, held))"

locale page_allocator =
  fixes alloc :: "'s \<Rightarrow> u64 \<times> 's"
    and free :: "u64 \<Rightarrow> 's \<Rightarrow> 's kres"
    and inv :: "'s \<Rightarrow> u64 list \<Rightarrow> bool"
    and owns :: "'s \<Rightarrow> u64 \<Rightarrow> bool"
    and contents :: "'s \<Rightarrow> mem"
  assumes alloc_empty: "inv s [] \<Longrightarrow> alloc s = (0, s)"
    and alloc_some: "inv s (p # ps) \<Longrightarrow> \<exists>s'. alloc s = (p, s') \<and> inv s' ps \<and> p \<noteq> 0 \<and> owns s p \<and>
      owns s' = owns s \<and> (\<forall>a. \<not> in_page p a \<longrightarrow> contents s' a = contents s a)"
    and free_ok: "inv s ps \<Longrightarrow> owns s p \<Longrightarrow> p \<notin> set ps \<Longrightarrow>
      \<exists>s'. free p s = Ok s' \<and> inv s' (p # ps) \<and> owns s' = owns s \<and>
        (\<forall>a. \<not> in_page p a \<longrightarrow> contents s' a = contents s a)"
    and inv_distinct: "inv s ps \<Longrightarrow> distinct ps \<and> 0 \<notin> set ps"
begin

lemma client_step_alloc:
  assumes "inv s ps" "distinct (held @ ps)" "\<forall>p \<in> set held. owns s p"
  obtains p s' ps' where "alloc s = (p, s')" "inv s' ps'" "owns s' = owns s"
    "distinct ((if p = 0 then held else p # held) @ ps')"
    "set (if p = 0 then held else p # held) \<union> set ps' = set held \<union> set ps"
    "\<forall>q \<in> set (if p = 0 then held else p # held). owns s' q"
proof (cases ps)
  case Nil
  then show ?thesis using assms alloc_empty that [of 0 s "[]"] by simp
next
  case (Cons p qs)
  then obtain s' where s': "alloc s = (p, s')" "inv s' qs" "p \<noteq> 0" "owns s p" "owns s' = owns s"
    using alloc_some assms(1) by blast
  then show ?thesis using assms Cons that [of p s' qs] by auto
qed

lemma client_safe:
  assumes "inv s ps" "distinct (held @ ps)" "\<forall>p \<in> set held. owns s p"
  shows "\<exists>s' held' ps'. client_run alloc free ops (s, held) = Ok (s', held') \<and> inv s' ps' \<and>
    distinct (held' @ ps') \<and> set held' \<union> set ps' = set held \<union> set ps"
  using assms
proof (induction ops arbitrary: s held ps)
  case Nil
  then show ?case by auto
next
  case (Cons op ops)
  show ?case
  proof (cases op)
    case Alloc
    obtain p s' ps' where al: "alloc s = (p, s')" "inv s' ps'"
      "distinct ((if p = 0 then held else p # held) @ ps')"
      "set (if p = 0 then held else p # held) \<union> set ps' = set held \<union> set ps"
      "\<forall>q \<in> set (if p = 0 then held else p # held). owns s' q"
      using client_step_alloc [OF Cons.prems] by metis
    show ?thesis using Cons.IH [OF al(2,3,5)] al(1,4) Alloc by (auto simp del: set_simps)
  next
    case (Free i)
    show ?thesis
    proof (cases "i < length held")
      case True
      define rest where "rest = take i held @ drop (Suc i) held"
      have h: "held = take i held @ held ! i # drop (Suc i) held"
        using True by (simp add: id_take_nth_drop)
      have hs: "set held = insert (held ! i) (set rest)"
        unfolding rest_def by (subst h) auto
      have hd: "distinct (rest @ held ! i # ps)"
      proof -
        have "distinct ((take i held @ held ! i # drop (Suc i) held) @ ps)" using Cons.prems(2) h by simp
        then show ?thesis by (auto simp: rest_def)
      qed
      have "owns s (held ! i)" "held ! i \<notin> set ps" using Cons.prems(3) True hd by auto
      then obtain s' where s': "free (held ! i) s = Ok s'" "inv s' (held ! i # ps)" "owns s' = owns s"
        using free_ok [OF Cons.prems(1)] by blast
      have "\<forall>p \<in> set rest. owns s' p" using Cons.prems(3) hs s'(3) by auto
      from Cons.IH [OF s'(2) hd this] show ?thesis
        using Free True s' hs by (auto simp: rest_def)
    next
      case False
      then show ?thesis using Cons Free by simp
    qed
  qed
qed

end

interpretation kmem: page_allocator kalloc kfree kinv "\<lambda>k. good_page (kernel_end k)" pmem
proof unfold_locales
  fix s p ps assume inv: "kinv s (p # ps)"
  then have "good_page (kernel_end s) p" by (simp add: kinv_def)
  with kalloc_nonzero_kinv [OF inv]
  show "\<exists>s'. kalloc s = (p, s') \<and> kinv s' ps \<and> p \<noteq> 0 \<and> good_page (kernel_end s) p \<and>
      good_page (kernel_end s') = good_page (kernel_end s) \<and>
      (\<forall>a. \<not> in_page p a \<longrightarrow> pmem s' a = pmem s a)" by auto
next
  fix s ps p assume "kinv s ps" "good_page (kernel_end s) p" "p \<notin> set ps"
  from kfree_kinv [OF this]
  show "\<exists>s'. kfree p s = Ok s' \<and> kinv s' (p # ps) \<and> good_page (kernel_end s') = good_page (kernel_end s) \<and>
      (\<forall>a. \<not> in_page p a \<longrightarrow> pmem s' a = pmem s a)" by auto
qed (auto simp: kalloc_empty_kinv kinv_def good_page_def)

section \<open>Properties\<close>

text \<open>
  C36: \<open>kalloc\<close> returns 0 and changes nothing when the free list is empty, and otherwise returns
  its first page, takes exactly that page off the list, fills it with the byte 5 and leaves
  every other byte of memory alone.
\<close>
theorem kalloc_correct:
  assumes "kinv k ps"
  shows "case ps of [] \<Rightarrow> kalloc k = (0, k)
    | p # ps' \<Rightarrow> \<exists>k'. kalloc k = (p, k') \<and> kinv k' ps' \<and> p \<noteq> 0 \<and> kernel_end k' = kernel_end k \<and>
        (\<forall>a. pmem k' a = (if in_page p a then 5 else pmem k a))"
  using assms kalloc_empty_kinv kalloc_nonzero_kinv by (cases ps) auto

definition demo_kst :: kst where
  "demo_kst = \<lparr>kernel_end = 0x80021000, pmem = (\<lambda>_. 0), freelist = 0x80022000\<rparr>"

lemma kinv_demo_kst: "kinv demo_kst [0x80022000]"
  by (simp add: kinv_def demo_kst_def good_page_def layout_defs load64_def bytes_all replicate_numeral)

theorem kalloc_correct_witness:
  "\<exists>k'. kalloc demo_kst = (0x80022000, k') \<and> kinv k' [] \<and> pmem k' 0x80022fff = 5"
  using kalloc_correct [OF kinv_demo_kst] by (auto simp: in_range_def)

text \<open>
  C37: \<open>kfree\<close> panics exactly on an address that is not page aligned or lies outside
  \<open>[end, PHYSTOP)\<close>. A page that is not on the free list becomes its first element, the rest of
  the list keeps its order, and no byte outside the page changes.
\<close>
theorem kfree_correct:
  assumes "kinv k ps" "pa \<notin> set ps"
  shows "if good_page (kernel_end k) pa
    then \<exists>k'. kfree pa k = Ok k' \<and> kinv k' (pa # ps) \<and> kernel_end k' = kernel_end k \<and>
      (\<forall>a. \<not> in_page pa a \<longrightarrow> pmem k' a = pmem k a)
    else kfree pa k = Panic ''kfree''"
  using kfree_kinv [OF assms(1) _ assms(2)] by (simp add: kfree_panics_iff)

theorem kfree_correct_witness:
  "(\<exists>k'. kfree 0x80023000 demo_kst = Ok k' \<and> kinv k' [0x80023000, 0x80022000]) \<and>
   kfree 0x80020000 demo_kst = Panic ''kfree''"
  using kfree_correct [OF kinv_demo_kst, of "0x80023000"] kfree_correct [OF kinv_demo_kst, of "0x80020000"]
  by (auto simp: good_page_def demo_kst_def layout_defs)

text \<open>
  C38: at boot \<open>kinit\<close> does not panic and puts every page between the end of the kernel image
  and \<open>PHYSTOP\<close> on the free list, each once.
\<close>
theorem kinit_frees_all:
  assumes "freelist k = 0" "0 < kernel_end k" "kernel_end k \<le> PHYSTOP"
  shows "\<exists>k' ps. kinit k = Ok k' \<and> kinv k' ps \<and> set ps = {p. good_page (kernel_end k) p}"
proof -
  define p where "p = PGROUNDUP (kernel_end k)"
  define n where "n = (unat PHYSTOP - unat p) div 4096"
  have ke: "unat (kernel_end k) \<le> 2281701376"
    using assms(3) by (simp add: layout_defs word_le_nat_alt)
  then have up: "unat p = (unat (kernel_end k) + 4095) div 4096 * 4096"
    by (simp add: p_def unat_PGROUNDUP)
  have "(unat (kernel_end k) + 4095) div 4096 \<le> 557056"
    using div_le_mono [of "unat (kernel_end k) + 4095" 2281705471 4096] ke by simp
  moreover have "(unat (kernel_end k) + 4095) div 4096 * 4096 + (unat (kernel_end k) + 4095) mod 4096 =
      unat (kernel_end k) + 4095" "(unat (kernel_end k) + 4095) mod 4096 < 4096" by simp_all
  ultimately have p: "unat p mod 4096 = 0" "unat p \<le> 2281701376" "unat (kernel_end k) \<le> unat p"
      "unat p < unat (kernel_end k) + 4096"
    unfolding up by simp_all
  have "kinv k []" using assms by (simp add: kinv_def)
  then obtain k' where k': "kinit k = Ok k'" "kinv k' (rev (page_range p n))"
    using freerange_loop_kinv [of k "[]" p PHYSTOP n] p n_def
    by (auto simp: kinit_def freerange_def p_def [symmetric] word_le_nat_alt layout_defs)
  have "set (rev (page_range p n)) = {q. unat q mod 4096 = 0 \<and> p \<le> q \<and> q < PHYSTOP}"
    using set_page_range [of p PHYSTOP n] p n_def by (simp add: layout_defs)
  also have "\<dots> = {q. good_page (kernel_end k) q}"
  proof (intro Collect_cong)
    fix q :: u64
    have "unat q mod 4096 = 0 \<Longrightarrow> unat (kernel_end k) \<le> unat q \<Longrightarrow> unat p \<le> unat q"
      using p(1,4) by (auto simp: mod_eq_0_iff_dvd elim!: dvdE)
    then show "(unat q mod 4096 = 0 \<and> p \<le> q \<and> q < PHYSTOP) = good_page (kernel_end k) q"
      using p(3) by (auto simp: good_page_def word_le_nat_alt)
  qed
  finally show ?thesis using k' by blast
qed

theorem kinit_frees_all_witness:
  "\<exists>k' ps. kinit (demo_kst\<lparr>freelist := 0\<rparr>) = Ok k' \<and> kinv k' ps \<and> 0x87fff000 \<in> set ps"
  using kinit_frees_all [of "demo_kst\<lparr>freelist := 0\<rparr>"]
  by (force simp: demo_kst_def layout_defs good_page_def)

text \<open>
  C17: for every sequence of allocations and frees in which a client frees only pages it holds,
  no call panics, a page is never handed out while it is held or on the free list, and no page
  is lost: held and free pages together stay the same set.
\<close>
theorem kalloc_client_safe:
  assumes "kinv k ps" "distinct (held @ ps)" "\<forall>p \<in> set held. good_page (kernel_end k) p"
  shows "\<exists>k' held' ps'. client_run kalloc kfree ops (k, held) = Ok (k', held') \<and> kinv k' ps' \<and>
    distinct (held' @ ps') \<and> set held' \<union> set ps' = set held \<union> set ps"
  using assms by (rule kmem.client_safe)

theorem kalloc_client_safe_witness:
  "\<exists>k' held' ps'. client_run kalloc kfree [Alloc, Alloc, Free 1, Free 0] (demo_kst, [0x80023000]) = Ok (k', held') \<and>
     kinv k' ps' \<and> distinct (held' @ ps') \<and> set held' \<union> set ps' = {0x80022000, 0x80023000}"
  using kalloc_client_safe [OF kinv_demo_kst, of "[0x80023000]" "[Alloc, Alloc, Free 1, Free 0]"]
  by (simp add: good_page_def demo_kst_def layout_defs insert_commute)

end
