(* ===== verification/Vm.thy ===== *)
theory Vm
  imports Kalloc
begin

text \<open>
  Virtual memory, src/kernel/vm.c: the Sv39 page tables in physical memory and every operation
  on them, translated over the allocator state \<open>kst\<close>. A page table is the address of its root
  page; a null pointer is the address 0; an int result is \<open>0\<close> or \<open>-1\<close>. The linker symbols
  \<open>etext\<close> and \<open>trampoline\<close> are arguments of \<open>kvmmake\<close>.
\<close>

unbundle bit_operations_syntax

section \<open>Device addresses\<close>

definition UART0 :: u64 where "UART0 = 0x10000000"
definition VIRTIO0 :: u64 where "VIRTIO0 = 0x10001000"
definition PLIC :: u64 where "PLIC = 0x0c000000"
definition NPROC :: nat where "NPROC = 64"

section \<open>Page-table entries\<close>

text \<open>\<open>*pte = v\<close> in physical memory, and \<open>memset(pa, 0, PGSIZE)\<close>.\<close>

definition set_pte :: "u64 \<Rightarrow> u64 \<Rightarrow> kst \<Rightarrow> kst" where
  "set_pte pte v k = k\<lparr>pmem := store64 (pmem k) pte v\<rparr>"

definition zero_page :: "u64 \<Rightarrow> kst \<Rightarrow> kst" where
  "zero_page pa k = k\<lparr>pmem := memset (pmem k) pa 0 (ucast PGSIZE)\<rparr>"

definition pte_valid :: "u64 \<Rightarrow> bool" where
  "pte_valid pte \<longleftrightarrow> pte AND PTE_V \<noteq> 0"

section \<open>Walking and mapping\<close>

fun walk_loop :: "nat \<Rightarrow> u64 \<Rightarrow> u64 \<Rightarrow> bool \<Rightarrow> kst \<Rightarrow> u64 \<times> kst" where
  "walk_loop 0 pagetable va al k = (pagetable + 8 * PX 0 va, k)"
| "walk_loop (Suc l) pagetable va al k =
     (let pte = pagetable + 8 * PX (Suc l) va in
      if pte_valid (load64 (pmem k) pte)
      then walk_loop l (PTE2PA (load64 (pmem k) pte)) va al k
      else if \<not> al then (0, k)
      else case kalloc k of (pagetable, k) \<Rightarrow>
        if pagetable = 0 then (0, k)
        else walk_loop l pagetable va al
               (set_pte pte (PA2PTE pagetable OR PTE_V) (zero_page pagetable k)))"

definition walk :: "u64 \<Rightarrow> u64 \<Rightarrow> bool \<Rightarrow> kst \<Rightarrow> (u64 \<times> kst) kres" where
  "walk pagetable va al k =
     (if va \<ge> MAXVA then Panic ''walk'' else Ok (walk_loop 2 pagetable va al k))"

definition walkaddr :: "u64 \<Rightarrow> u64 \<Rightarrow> kst \<Rightarrow> u64 kres" where
  "walkaddr pagetable va k =
     (if va \<ge> MAXVA then Ok 0
      else kbind (walk pagetable va False k) (\<lambda>(pte, k).
        if pte = 0 then Ok 0
        else if \<not> pte_valid (load64 (pmem k) pte) then Ok 0
        else if load64 (pmem k) pte AND PTE_U = 0 then Ok 0
        else Ok (PTE2PA (load64 (pmem k) pte))))"

text \<open>
  \<^verbatim>\<open>for(;;)\<close> of \<open>mappages\<close>: it ends because \<open>walk\<close> panics at \<open>MAXVA\<close>. The int \<open>perm\<close> is
  sign-extended by the OR with a \<^verbatim>\<open>uint64\<close>.
\<close>

function mappages_loop :: "u64 \<Rightarrow> u64 \<Rightarrow> u64 \<Rightarrow> u64 \<Rightarrow> u32 \<Rightarrow> kst \<Rightarrow> (int \<times> kst) kres" where
  "mappages_loop pagetable a last_a pa perm k =
     kbind (walk pagetable a True k) (\<lambda>(pte, k).
       if pte = 0 then Ok (- 1, k)
       else if pte_valid (load64 (pmem k) pte) then Panic ''mappages: remap''
       else let k = set_pte pte (PA2PTE pa OR scast perm OR PTE_V) k in
         if a = last_a then Ok (0, k)
         else mappages_loop pagetable (a + PGSIZE) last_a (pa + PGSIZE) perm k)"
  by pat_completeness auto
termination
  by (relation "measure (\<lambda>(pt, a, l, pa, perm, k). 18446744073709551616 - unat a)")
    (auto simp: walk_def word_le_nat_alt not_le layout_defs unat_add_u64 PGSIZE_def split: if_splits)

definition mappages :: "u64 \<Rightarrow> u64 \<Rightarrow> u64 \<Rightarrow> u64 \<Rightarrow> u32 \<Rightarrow> kst \<Rightarrow> (int \<times> kst) kres" where
  "mappages pagetable va sz pa perm k =
     (if sz = 0 then Panic ''mappages: size''
      else mappages_loop pagetable (PGROUNDDOWN va) (PGROUNDDOWN (va + sz - 1)) pa perm k)"

function uvmunmap_loop :: "u64 \<Rightarrow> u64 \<Rightarrow> u64 \<Rightarrow> bool \<Rightarrow> kst \<Rightarrow> kst kres" where
  "uvmunmap_loop pagetable a end_a do_free k =
     (if a < end_a then
        kbind (walk pagetable a False k) (\<lambda>(pte, k).
          if pte = 0 then Panic ''uvmunmap: walk''
          else if \<not> pte_valid (load64 (pmem k) pte) then Panic ''uvmunmap: not mapped''
          else if PTE_FLAGS (load64 (pmem k) pte) = PTE_V then Panic ''uvmunmap: not a leaf''
          else kbind (if do_free then kfree (PTE2PA (load64 (pmem k) pte)) k else Ok k) (\<lambda>k.
            uvmunmap_loop pagetable (a + PGSIZE) end_a do_free (set_pte pte 0 k)))
      else Ok k)"
  by pat_completeness auto
termination
  by (relation "measure (\<lambda>(pt, a, e, f, k). 18446744073709551616 - unat a)")
    (auto simp: walk_def word_le_nat_alt not_le layout_defs unat_add_u64 PGSIZE_def split: if_splits)

declare mappages_loop.simps [simp del] uvmunmap_loop.simps [simp del]

definition uvmunmap :: "u64 \<Rightarrow> u64 \<Rightarrow> u64 \<Rightarrow> bool \<Rightarrow> kst \<Rightarrow> kst kres" where
  "uvmunmap pagetable va npages do_free k =
     (if va mod PGSIZE \<noteq> 0 then Panic ''uvmunmap: not aligned''
      else uvmunmap_loop pagetable va (va + npages * PGSIZE) do_free k)"

section \<open>User address spaces\<close>

definition uvmcreate :: "kst \<Rightarrow> u64 \<times> kst" where
  "uvmcreate k = (case kalloc k of (pagetable, k) \<Rightarrow>
     if pagetable = 0 then (0, k) else (pagetable, zero_page pagetable k))"

definition uvmfirst :: "u64 \<Rightarrow> u64 \<Rightarrow> u32 \<Rightarrow> kst \<Rightarrow> kst kres" where
  "uvmfirst pagetable src sz k =
     (if ucast sz \<ge> PGSIZE then Panic ''uvmfirst: more than a page''
      else case kalloc k of (mem, k) \<Rightarrow>
        kbind (mappages pagetable 0 PGSIZE mem (ucast (PTE_W OR PTE_R OR PTE_X OR PTE_U))
                 (zero_page mem k)) (\<lambda>(_, k).
          Ok (k\<lparr>pmem := memmove (pmem k) mem src sz\<rparr>)))"

definition uvmdealloc :: "u64 \<Rightarrow> u64 \<Rightarrow> u64 \<Rightarrow> kst \<Rightarrow> (u64 \<times> kst) kres" where
  "uvmdealloc pagetable oldsz newsz k =
     (if newsz \<ge> oldsz then Ok (oldsz, k)
      else kbind
        (if PGROUNDUP newsz < PGROUNDUP oldsz
         then let npages = ucast ((PGROUNDUP oldsz - PGROUNDUP newsz) div PGSIZE) :: u32
              in uvmunmap pagetable (PGROUNDUP newsz) (scast npages) True k
         else Ok k) (\<lambda>k. Ok (newsz, k)))"

lemma mappages_Ok_bound:
  assumes "mappages pagetable va sz pa perm k = Ok x"
  shows "unat va < 18446744073709551616 - 4096"
proof -
  have "PGROUNDDOWN va < MAXVA"
    using assms by (subst (asm) mappages_def, subst (asm) mappages_loop.simps)
      (auto simp: walk_def not_le split: if_splits)
  then have "unat va div 4096 * 4096 < 274877906944"
    by (simp add: word_less_nat_alt unat_PGROUNDDOWN layout_defs)
  then show ?thesis by simp
qed

function uvmalloc_loop :: "u64 \<Rightarrow> u64 \<Rightarrow> u64 \<Rightarrow> u64 \<Rightarrow> u32 \<Rightarrow> kst \<Rightarrow> (u64 \<times> kst) kres" where
  "uvmalloc_loop pagetable a oldsz newsz xperm k =
     (if a < newsz then
        case kalloc k of (mem, k) \<Rightarrow>
        if mem = 0 then kbind (uvmdealloc pagetable a oldsz k) (\<lambda>(_, k). Ok (0, k))
        else kbind (mappages pagetable a PGSIZE mem (ucast (PTE_R OR PTE_U) OR xperm)
                     (zero_page mem k)) (\<lambda>(r, k).
          if r \<noteq> 0 then kbind (kfree mem k) (\<lambda>k.
              kbind (uvmdealloc pagetable a oldsz k) (\<lambda>(_, k). Ok (0, k)))
          else uvmalloc_loop pagetable (a + PGSIZE) oldsz newsz xperm k)
      else Ok (newsz, k))"
  by pat_completeness auto
termination
  by (relation "measure (\<lambda>(pt, a, oldsz, newsz, xperm, k). 18446744073709551616 - unat a)")
    (auto dest!: mappages_Ok_bound simp: unat_add_u64 PGSIZE_def)

declare uvmalloc_loop.simps [simp del]

definition uvmalloc :: "u64 \<Rightarrow> u64 \<Rightarrow> u64 \<Rightarrow> u32 \<Rightarrow> kst \<Rightarrow> (u64 \<times> kst) kres" where
  "uvmalloc pagetable oldsz newsz xperm k =
     (if newsz < oldsz then Ok (oldsz, k)
      else uvmalloc_loop pagetable (PGROUNDUP oldsz) (PGROUNDUP oldsz) newsz xperm k)"

text \<open>
  \<open>freewalk\<close> recurses through whatever the entries point to; nothing in the code bounds the
  depth, so the model is a partial function and \<open>None\<close> is a recursion that does not return.
  \<open>i\<close> is the loop counter.
\<close>

partial_function (option) freewalk_loop :: "nat \<Rightarrow> u64 \<Rightarrow> kst \<Rightarrow> kst kres option" where
  "freewalk_loop i pagetable k =
     (if i < 512 then
        let pte = load64 (pmem k) (pagetable + 8 * of_nat i) in
        if pte_valid pte \<and> pte AND (PTE_R OR PTE_W OR PTE_X) = 0
        then Option.bind (freewalk_loop 0 (PTE2PA pte) k) (\<lambda>r.
          case r of Panic e \<Rightarrow> Some (Panic e)
          | Ok k \<Rightarrow> freewalk_loop (Suc i) pagetable (set_pte (pagetable + 8 * of_nat i) 0 k))
        else if pte_valid pte then Some (Panic ''freewalk: leaf'')
        else freewalk_loop (Suc i) pagetable k
      else Some (kfree pagetable k))"

definition freewalk :: "u64 \<Rightarrow> kst \<Rightarrow> kst kres option" where
  "freewalk pagetable k = freewalk_loop 0 pagetable k"

definition uvmfree :: "u64 \<Rightarrow> u64 \<Rightarrow> kst \<Rightarrow> kst kres option" where
  "uvmfree pagetable sz k =
     (case (if sz > 0 then uvmunmap pagetable 0 (PGROUNDUP sz div PGSIZE) True k else Ok k) of
        Panic e \<Rightarrow> Some (Panic e)
      | Ok k \<Rightarrow> freewalk pagetable k)"

definition uvmcopy_err :: "u64 \<Rightarrow> u64 \<Rightarrow> kst \<Rightarrow> (int \<times> kst) kres" where
  "uvmcopy_err new i k = kbind (uvmunmap new 0 (i div PGSIZE) True k) (\<lambda>k. Ok (- 1, k))"

function uvmcopy_loop :: "u64 \<Rightarrow> u64 \<Rightarrow> u64 \<Rightarrow> u64 \<Rightarrow> kst \<Rightarrow> (int \<times> kst) kres" where
  "uvmcopy_loop i old new sz k =
     (if i < sz then
        kbind (walk old i False k) (\<lambda>(pte, k).
          if pte = 0 then Panic ''uvmcopy: pte should exist''
          else if \<not> pte_valid (load64 (pmem k) pte) then Panic ''uvmcopy: page not present''
          else
            let pa = PTE2PA (load64 (pmem k) pte);
                flags = ucast (PTE_FLAGS (load64 (pmem k) pte)) :: u32
            in case kalloc k of (mem, k) \<Rightarrow>
              if mem = 0 then uvmcopy_err new i k
              else kbind (mappages new i PGSIZE mem flags
                     (k\<lparr>pmem := memmove (pmem k) mem pa (ucast PGSIZE)\<rparr>)) (\<lambda>(r, k).
                if r \<noteq> 0 then kbind (kfree mem k) (uvmcopy_err new i)
                else uvmcopy_loop (i + PGSIZE) old new sz k))
      else Ok (0, k))"
  by pat_completeness auto
termination
  by (relation "measure (\<lambda>(i, old, new, sz, k). 18446744073709551616 - unat i)")
    (auto dest!: mappages_Ok_bound simp: unat_add_u64 PGSIZE_def)

declare uvmcopy_loop.simps [simp del]

definition uvmcopy :: "u64 \<Rightarrow> u64 \<Rightarrow> u64 \<Rightarrow> kst \<Rightarrow> (int \<times> kst) kres" where
  "uvmcopy old new sz k = uvmcopy_loop 0 old new sz k"

definition uvmclear :: "u64 \<Rightarrow> u64 \<Rightarrow> kst \<Rightarrow> kst kres" where
  "uvmclear pagetable va k =
     kbind (walk pagetable va False k) (\<lambda>(pte, k).
       if pte = 0 then Panic ''uvmclear''
       else Ok (set_pte pte (load64 (pmem k) pte AND NOT PTE_U) k))"

section \<open>Copying between kernel and user memory\<close>

text \<open>Bytes from \<open>va\<close> to the end of its page, at most \<open>len\<close>: the \<open>n\<close> of the three copy loops.\<close>

definition chunk :: "u64 \<Rightarrow> u64 \<Rightarrow> u64" where
  "chunk va len = (let n = PGSIZE - (va - PGROUNDDOWN va) in if n > len then len else n)"

lemma unat_chunk: "unat (chunk va len) = min (4096 - unat va mod 4096) (unat len)"
proof -
  have u: "unat (va - PGROUNDDOWN va) = unat va mod 4096"
    by (subst unat_sub) (simp_all add: word_le_nat_alt unat_PGROUNDDOWN minus_div_mult_eq_mod)
  moreover have "unat va mod 4096 < 4096" by simp
  ultimately have "unat (PGSIZE - (va - PGROUNDDOWN va)) = 4096 - unat va mod 4096"
    by (subst unat_sub) (simp_all add: PGSIZE_def word_le_nat_alt)
  then show ?thesis by (simp add: chunk_def Let_def word_less_nat_alt min_def)
qed

function copyout :: "u64 \<Rightarrow> u64 \<Rightarrow> u64 \<Rightarrow> u64 \<Rightarrow> kst \<Rightarrow> (int \<times> kst) kres" where
  "copyout pagetable dstva src len k =
     (if len > 0 then
        let va0 = PGROUNDDOWN dstva in
        kbind (walkaddr pagetable va0 k) (\<lambda>pa0.
          if pa0 = 0 then Ok (- 1, k)
          else let n = chunk dstva len;
                   k = k\<lparr>pmem := memmove (pmem k) (pa0 + (dstva - va0)) src (ucast n)\<rparr>
               in copyout pagetable (va0 + PGSIZE) (src + n) (len - n) k)
      else Ok (0, k))"
  by pat_completeness auto
termination
  by (relation "measure (\<lambda>(pt, va, s, len, k). unat len)")
    (auto simp: unat_sub word_le_nat_alt word_less_nat_alt unat_chunk)

function copyin :: "u64 \<Rightarrow> u64 \<Rightarrow> u64 \<Rightarrow> u64 \<Rightarrow> kst \<Rightarrow> (int \<times> kst) kres" where
  "copyin pagetable dst srcva len k =
     (if len > 0 then
        let va0 = PGROUNDDOWN srcva in
        kbind (walkaddr pagetable va0 k) (\<lambda>pa0.
          if pa0 = 0 then Ok (- 1, k)
          else let n = chunk srcva len;
                   k = k\<lparr>pmem := memmove (pmem k) dst (pa0 + (srcva - va0)) (ucast n)\<rparr>
               in copyin pagetable (dst + n) (va0 + PGSIZE) (len - n) k)
      else Ok (0, k))"
  by pat_completeness auto
termination
  by (relation "measure (\<lambda>(pt, d, va, len, k). unat len)")
    (auto simp: unat_sub word_le_nat_alt word_less_nat_alt unat_chunk)

text \<open>The inner loop of \<open>copyinstr\<close>: it returns \<open>got_null\<close>, \<open>dst\<close>, \<open>max\<close> and the memory.\<close>

fun copyinstr_chunk :: "nat \<Rightarrow> u64 \<Rightarrow> u64 \<Rightarrow> u64 \<Rightarrow> mem \<Rightarrow> bool \<times> u64 \<times> u64 \<times> mem" where
  "copyinstr_chunk 0 p dst mx m = (False, dst, mx, m)"
| "copyinstr_chunk (Suc n) p dst mx m =
     (if m p = 0 then (True, dst, mx, m(dst := 0))
      else copyinstr_chunk n (p + 1) (dst + 1) (mx - 1) (m(dst := m p)))"

lemma copyinstr_chunk_max:
  "copyinstr_chunk n p dst mx m = (False, dst', mx', m') \<Longrightarrow> n \<le> unat mx \<Longrightarrow> mx' = mx - of_nat n"
  by (induction n p dst mx m rule: copyinstr_chunk.induct)
    (auto simp: unat_sub word_le_nat_alt split: if_splits)

function copyinstr :: "u64 \<Rightarrow> u64 \<Rightarrow> u64 \<Rightarrow> u64 \<Rightarrow> kst \<Rightarrow> (int \<times> kst) kres" where
  "copyinstr pagetable dst srcva mx k =
     (if mx > 0 then
        let va0 = PGROUNDDOWN srcva in
        kbind (walkaddr pagetable va0 k) (\<lambda>pa0.
          if pa0 = 0 then Ok (- 1, k)
          else case copyinstr_chunk (unat (chunk srcva mx)) (pa0 + (srcva - va0)) dst mx (pmem k) of
            (got_null, dst, mx, m) \<Rightarrow>
              if got_null then Ok (0, k\<lparr>pmem := m\<rparr>)
              else copyinstr pagetable dst (va0 + PGSIZE) mx (k\<lparr>pmem := m\<rparr>))
      else Ok (- 1, k))"
  by pat_completeness auto
termination
proof (relation "measure (\<lambda>(pt, d, va, mx, k). unat mx)")
  fix pagetable dst srcva mx :: u64 and k :: kst and va0 pa0 x xa y xb ya xc yb
  assume a: "0 < mx" "(xa, y) = copyinstr_chunk (unat (chunk srcva mx)) (pa0 + (srcva - va0)) dst mx (pmem k)"
    "\<not> xa" "(xb, ya) = y" "(xc, yb) = ya"
  from a(2-5) have "copyinstr_chunk (unat (chunk srcva mx)) (pa0 + (srcva - va0)) dst mx (pmem k) =
    (False, xb, xc, yb)" by auto
  moreover have "unat (chunk srcva mx) \<le> unat mx" by (simp add: unat_chunk)
  ultimately have "xc = mx - chunk srcva mx" using copyinstr_chunk_max by fastforce
  then show "((pagetable, xb, va0 + PGSIZE, xc, k\<lparr>pmem := yb\<rparr>), pagetable, dst, srcva, mx, k)
     \<in> measure (\<lambda>(pt, d, va, mx, k). unat mx)"
    using a(1) by (auto simp: unat_sub word_le_nat_alt word_less_nat_alt unat_chunk)
qed simp

declare copyout.simps [simp del] copyin.simps [simp del] copyinstr.simps [simp del]

section \<open>The kernel page table\<close>

definition kvmmap :: "u64 \<Rightarrow> u64 \<Rightarrow> u64 \<Rightarrow> u64 \<Rightarrow> u32 \<Rightarrow> kst \<Rightarrow> kst kres" where
  "kvmmap kpgtbl va pa sz perm k =
     kbind (mappages kpgtbl va sz pa perm k) (\<lambda>(r, k).
       if r \<noteq> 0 then Panic ''kvmmap'' else Ok k)"

text \<open>\<open>proc_mapstacks\<close> of src/kernel/proc.c; the argument counts the processes still to do.\<close>

fun proc_mapstacks_loop :: "nat \<Rightarrow> u64 \<Rightarrow> kst \<Rightarrow> kst kres" where
  "proc_mapstacks_loop 0 kpgtbl k = Ok k"
| "proc_mapstacks_loop (Suc n) kpgtbl k =
     (case kalloc k of (pa, k) \<Rightarrow>
      if pa = 0 then Panic ''kalloc''
      else kbind (kvmmap kpgtbl (KSTACK (of_nat (NPROC - Suc n))) pa PGSIZE (ucast (PTE_R OR PTE_W)) k)
             (proc_mapstacks_loop n kpgtbl))"

definition proc_mapstacks :: "u64 \<Rightarrow> kst \<Rightarrow> kst kres" where
  "proc_mapstacks kpgtbl k = proc_mapstacks_loop NPROC kpgtbl k"

definition kvmmake :: "u64 \<Rightarrow> u64 \<Rightarrow> kst \<Rightarrow> (u64 \<times> kst) kres" where
  "kvmmake etext trampoline k =
     (case kalloc k of (kpgtbl, k) \<Rightarrow>
      let rw = ucast (PTE_R OR PTE_W); rx = ucast (PTE_R OR PTE_X) in
      kbind (kvmmap kpgtbl UART0 UART0 PGSIZE rw (zero_page kpgtbl k)) (\<lambda>k.
      kbind (kvmmap kpgtbl VIRTIO0 VIRTIO0 PGSIZE rw k) (\<lambda>k.
      kbind (kvmmap kpgtbl PLIC PLIC 0x400000 rw k) (\<lambda>k.
      kbind (kvmmap kpgtbl KERNBASE KERNBASE (etext - KERNBASE) rx k) (\<lambda>k.
      kbind (kvmmap kpgtbl etext etext (PHYSTOP - etext) rw k) (\<lambda>k.
      kbind (kvmmap kpgtbl TRAMPOLINE trampoline PGSIZE rx k) (\<lambda>k.
      kbind (proc_mapstacks kpgtbl k) (\<lambda>k.
      Ok (kpgtbl, k)))))))))"

end
