(* ===== verification/Vm_Tree.thy ===== *)
theory Vm_Tree
  imports Vm "HOL-Library.Multiset"
begin

text \<open>
  Page tables as trees: the pages of a table, the entry each virtual address reaches, and the
  invariant \<open>pt_inv\<close> (the table pages and the free list are disjoint, each page appears once,
  interior entries carry only the valid bit). The theory shows what \<open>walk\<close> of
  src/kernel/vm.c does to that tree: allocating tables changes no mapping, and writing the entry
  that a walk returned changes the mapping of exactly one virtual page.
\<close>

unbundle bit_operations_syntax

section \<open>Changes to memory, by page\<close>

definition changes :: "mem \<Rightarrow> mem \<Rightarrow> u64 set \<Rightarrow> bool" where
  "changes m m' S \<longleftrightarrow> (\<forall>a. m' a \<noteq> m a \<longrightarrow> (\<exists>p\<in>S. in_page p a))"

lemma changes_refl [simp]: "changes m m S"
  by (simp add: changes_def)

lemma changes_trans: "changes m m' S \<Longrightarrow> changes m' m'' T \<Longrightarrow> changes m m'' (S \<union> T)"
  unfolding changes_def by (metis UnI1 UnI2)

lemma changes_mono: "changes m m' S \<Longrightarrow> S \<subseteq> T \<Longrightarrow> changes m m' T"
  unfolding changes_def by blast

definition page_aligned :: "u64 \<Rightarrow> bool" where
  "page_aligned p \<longleftrightarrow> unat p mod 4096 = 0"

lemma changesD:
  assumes "changes m m' S" "\<forall>p\<in>S. page_aligned p" "page_aligned q" "q \<notin> S" "in_page q a"
  shows "m' a = m a"
  using assms pages_disjoint [of q _ a] unfolding changes_def page_aligned_def by metis

section \<open>Entries of a page-table page\<close>

definition ent :: "mem \<Rightarrow> u64 \<Rightarrow> nat \<Rightarrow> u64" where
  "ent m pt i = load64 m (pt + 8 * of_nat i)"

lemma ent_byte_in_page:
  assumes "i < 512" "j < 8"
  shows "in_page pt (pt + 8 * of_nat i + of_nat j)"
  using assms in_page_add [of "8 * i + j" pt] by (simp add: add.assoc)

lemma ent_in_page: "i < 512 \<Longrightarrow> in_range (pt + 8 * of_nat i) 8 a \<Longrightarrow> in_page pt a"
  using ent_byte_in_page by (auto simp: in_range_iff_ex)

lemma ent_cong: "(\<And>a. in_page pt a \<Longrightarrow> m' a = m a) \<Longrightarrow> i < 512 \<Longrightarrow> ent m' pt i = ent m pt i"
  unfolding ent_def by (rule load64_cong) (simp add: ent_byte_in_page)

lemma ent_changes:
  "changes m m' S \<Longrightarrow> \<forall>p\<in>S. page_aligned p \<Longrightarrow> page_aligned pt \<Longrightarrow> pt \<notin> S \<Longrightarrow> i < 512 \<Longrightarrow>
   ent m' pt i = ent m pt i"
  by (rule ent_cong) (blast intro: changesD)+

lemma unat_ent_addr:
  assumes "page_aligned pt" "i < 512"
  shows "unat (pt + 8 * of_nat i) = unat pt + 8 * i"
proof -
  obtain c where c: "unat pt = 4096 * c"
    using assms(1) by (auto simp: page_aligned_def mod_eq_0_iff_dvd elim: dvdE)
  then have "c < 4503599627370496" using unat_less_2p64 [of pt] by simp
  then have "unat pt + 8 * i < 18446744073709551616" using c assms(2) by simp
  moreover have "unat (8 * of_nat i :: u64) = 8 * i"
    using assms(2) unat_of_nat_u64 [of "8 * i"] by simp
  ultimately show ?thesis by (simp add: unat_add_u64)
qed

lemma ent_store_same: "ent (store64 m (pt + 8 * of_nat i) v) pt i = v"
  by (simp add: ent_def)

lemma ent_store_other:
  assumes "page_aligned pt" "i < 512" "j < 512" "i \<noteq> j"
  shows "ent (store64 m (pt + 8 * of_nat i) v) pt j = ent m pt j"
  unfolding ent_def
proof (rule load64_store64_other)
  show "aligned8 (pt + 8 * of_nat i)" "aligned8 (pt + 8 * of_nat j)"
    using assms by (auto simp: aligned8_def unat_ent_addr page_aligned_def)
  show "pt + 8 * of_nat i \<noteq> pt + 8 * of_nat j"
    using assms unat_ent_addr [of pt i] unat_ent_addr [of pt j] by (simp add: word_unat_eq_iff)
qed

lemma changes_store: "i < 512 \<Longrightarrow> changes m (store64 m (pt + 8 * of_nat i) v) {pt}"
  unfolding changes_def by (metis ent_in_page insertI1 store64_other)

section \<open>Page tables as trees\<close>

abbreviation subpages :: "(nat \<Rightarrow> mem \<Rightarrow> u64 \<Rightarrow> u64 list) \<Rightarrow> nat \<Rightarrow> mem \<Rightarrow> u64 \<Rightarrow> u64 list" where
  "subpages f l m e \<equiv> (if pte_valid e then f l m (PTE2PA e) else [])"

fun pt_pages :: "nat \<Rightarrow> mem \<Rightarrow> u64 \<Rightarrow> u64 list" where
  "pt_pages 0 m pt = [pt]"
| "pt_pages (Suc l) m pt = pt # concat (map (\<lambda>i. subpages pt_pages l m (ent m pt i)) [0..<512])"

fun pte_at :: "nat \<Rightarrow> mem \<Rightarrow> u64 \<Rightarrow> u64 \<Rightarrow> u64" where
  "pte_at 0 m pt va = ent m pt (unat (PX 0 va))"
| "pte_at (Suc l) m pt va =
     (let e = ent m pt (unat (PX (Suc l) va)) in if pte_valid e then pte_at l m (PTE2PA e) va else 0)"

fun pt_wf :: "nat \<Rightarrow> mem \<Rightarrow> u64 \<Rightarrow> bool" where
  "pt_wf 0 m pt = True"
| "pt_wf (Suc l) m pt = (\<forall>i<512. pte_valid (ent m pt i) \<longrightarrow>
     PTE_FLAGS (ent m pt i) = PTE_V \<and> pt_wf l m (PTE2PA (ent m pt i)))"

lemma pt_in_pt_pages [simp]: "pt \<in> set (pt_pages l m pt)"
  by (cases l) auto

lemma subpages_subset:
  "i < 512 \<Longrightarrow> pte_valid (ent m pt i) \<Longrightarrow> set (pt_pages l m (PTE2PA (ent m pt i))) \<subseteq> set (pt_pages (Suc l) m pt)"
  by (auto intro!: bexI [of _ i])

lemma pt_local:
  assumes "\<And>p a. p \<in> set (pt_pages l m pt) \<Longrightarrow> in_page p a \<Longrightarrow> m' a = m a"
  shows "pt_pages l m' pt = pt_pages l m pt \<and> pte_at l m' pt va = pte_at l m pt va \<and> pt_wf l m' pt = pt_wf l m pt"
  using assms
proof (induction l arbitrary: pt)
  case 0
  then show ?case by (simp add: ent_cong [of pt m' m] unat_PX_less)
next
  case (Suc l)
  have e: "ent m' pt i = ent m pt i" if "i < 512" for i
    using Suc.prems [of pt] that by (intro ent_cong) auto
  have sub: "pt_pages l m' q = pt_pages l m q \<and> pte_at l m' q va = pte_at l m q va \<and> pt_wf l m' q = pt_wf l m q"
    if "i < 512" "pte_valid (ent m pt i)" "q = PTE2PA (ent m pt i)" for i q
    using that subpages_subset [of i m pt l] by (intro Suc.IH) (blast intro: Suc.prems)
  have "concat (map (\<lambda>i. subpages pt_pages l m' (ent m' pt i)) [0..<512]) =
        concat (map (\<lambda>i. subpages pt_pages l m (ent m pt i)) [0..<512])"
    using e sub by (intro arg_cong [of _ _ concat] map_cong) auto
  moreover have "pt_wf (Suc l) m' pt = pt_wf (Suc l) m pt" using e sub by auto
  moreover have "pte_at (Suc l) m' pt va = pte_at (Suc l) m pt va"
    using e sub unat_PX_less [of "Suc l" va] by (auto simp: Let_def)
  ultimately show ?case by simp
qed

lemma pt_changes:
  assumes "changes m m' S" "\<forall>p\<in>S. page_aligned p" "\<forall>p\<in>set (pt_pages l m pt). page_aligned p"
    "set (pt_pages l m pt) \<inter> S = {}"
  shows "pt_pages l m' pt = pt_pages l m pt" "pte_at l m' pt va = pte_at l m pt va"
    "pt_wf l m' pt = pt_wf l m pt"
  using pt_local [of l m pt m'] changesD [OF assms(1,2)] assms(3,4) by blast+


section \<open>Replacing one subtree\<close>

lemma distinct_concat_map:
  assumes "distinct (concat (map f [0..<n]))" "i < n" "j < n" "i \<noteq> j"
  shows "set (f i) \<inter> set (f j) = {}"
  using assms
proof (induction n)
  case (Suc n)
  have "set (f a) \<inter> set (f n) = {}" if "a < n" for a
    using Suc.prems(1) that by (fastforce simp: disjoint_iff)
  then show ?case using Suc by (auto simp: less_Suc_eq)
qed simp

lemma distinct_concat_nth: "distinct (concat (map f [0..<n])) \<Longrightarrow> i < n \<Longrightarrow> distinct (f i)"
  by (induction n) (auto simp: less_Suc_eq)

lemma mset_concat_replace:
  assumes "\<And>j. j < n \<Longrightarrow> j \<noteq> i \<Longrightarrow> g j = f j" "i < n"
  shows "mset (concat (map g [0..<n])) + mset (f i) = mset (concat (map f [0..<n])) + mset (g i)"
  using assms
proof (induction n)
  case (Suc n)
  show ?case
  proof (cases "i = n")
    case True
    then have "concat (map g [0..<n]) = concat (map f [0..<n])"
      using Suc.prems(1) by (intro arg_cong [of _ _ concat] map_cong) auto
    then show ?thesis using True by simp
  next
    case False
    then show ?thesis using Suc by (simp add: less_Suc_eq)
  qed
qed simp

lemma mset_swap:
  fixes A :: "'a multiset"
  assumes "A' + B = A + B'" "B' + P' = B + P"
  shows "A' + P' = A + P"
proof -
  have "A' + P' + B = (A' + B) + P'" by (simp only: ac_simps)
  also have "\<dots> = A + (B' + P')" by (simp only: assms(1) ac_simps)
  also have "\<dots> = A + P + B" by (simp only: assms(2) ac_simps)
  finally have "A' + P' + B = A + P + B" .
  then show ?thesis by simp
qed

text \<open>
  A change of memory that leaves alone every entry of \<open>pt\<close> but the \<open>i\<close>-th and every subtree but
  the \<open>i\<close>-th replaces that subtree's pages and keeps all other mappings.
\<close>

lemma entry_update:
  assumes ch: "changes m m' S" "\<forall>p\<in>S. page_aligned p" and i: "i < 512"
    and al: "\<forall>p \<in> set (pt_pages (Suc l) m pt). page_aligned p"
    and e: "\<And>j. j < 512 \<Longrightarrow> j \<noteq> i \<Longrightarrow> ent m' pt j = ent m pt j"
    and disj: "\<And>j. j < 512 \<Longrightarrow> j \<noteq> i \<Longrightarrow> set (subpages pt_pages l m (ent m pt j)) \<inter> S = {}"
  shows "mset (pt_pages (Suc l) m' pt) + mset (subpages pt_pages l m (ent m pt i)) =
      mset (pt_pages (Suc l) m pt) + mset (subpages pt_pages l m' (ent m' pt i))"
    "\<And>va. unat (PX (Suc l) va) \<noteq> i \<Longrightarrow> pte_at (Suc l) m' pt va = pte_at (Suc l) m pt va"
    "pt_wf (Suc l) m pt \<Longrightarrow>
      (pte_valid (ent m' pt i) \<Longrightarrow> PTE_FLAGS (ent m' pt i) = PTE_V \<and> pt_wf l m' (PTE2PA (ent m' pt i))) \<Longrightarrow>
      pt_wf (Suc l) m' pt"
proof -
  let ?f = "\<lambda>m i. subpages pt_pages l m (ent m pt i)"
  have other: "pt_pages l m' (PTE2PA (ent m pt j)) = pt_pages l m (PTE2PA (ent m pt j)) \<and>
      pte_at l m' (PTE2PA (ent m pt j)) va = pte_at l m (PTE2PA (ent m pt j)) va \<and>
      pt_wf l m' (PTE2PA (ent m pt j)) = pt_wf l m (PTE2PA (ent m pt j))"
    if "j < 512" "j \<noteq> i" "pte_valid (ent m pt j)" for j va
  proof -
    have "set (pt_pages l m (PTE2PA (ent m pt j))) \<inter> S = {}" using disj [OF that(1,2)] that(3) by simp
    moreover have "\<forall>p\<in>set (pt_pages l m (PTE2PA (ent m pt j))). page_aligned p"
      using al subpages_subset [OF that(1,3)] by blast
    ultimately show ?thesis using pt_changes [OF ch] by blast
  qed
  have "mset (concat (map (?f m') [0..<512])) + mset (?f m i) =
        mset (concat (map (?f m) [0..<512])) + mset (?f m' i)"
    using other e i by (intro mset_concat_replace) auto
  then show "mset (pt_pages (Suc l) m' pt) + mset (?f m i) = mset (pt_pages (Suc l) m pt) + mset (?f m' i)"
    by simp
  show "pte_at (Suc l) m' pt va = pte_at (Suc l) m pt va" if "unat (PX (Suc l) va) \<noteq> i" for va
    using that e [of "unat (PX (Suc l) va)"] other [of "unat (PX (Suc l) va)"] by (simp add: Let_def)
  show "pt_wf (Suc l) m' pt" if "pt_wf (Suc l) m pt"
      "pte_valid (ent m' pt i) \<Longrightarrow> PTE_FLAGS (ent m' pt i) = PTE_V \<and> pt_wf l m' (PTE2PA (ent m' pt i))"
    unfolding pt_wf.simps
  proof (intro allI impI)
    fix j assume j: "j < (512 :: nat)" "pte_valid (ent m' pt j)"
    show "PTE_FLAGS (ent m' pt j) = PTE_V \<and> pt_wf l m' (PTE2PA (ent m' pt j))"
      using j that e [OF j(1)] other [OF j(1)] by (cases "j = i") auto
  qed
qed

lemma tree_distinct:
  assumes "distinct (pt_pages (Suc l) m pt @ ps)" "i < 512" "pte_valid (ent m pt i)" "q = PTE2PA (ent m pt i)"
  shows "pt \<notin> set (pt_pages l m q @ ps)" "distinct (pt_pages l m q @ ps)"
    "\<And>j. j < 512 \<Longrightarrow> j \<noteq> i \<Longrightarrow> set (subpages pt_pages l m (ent m pt j)) \<inter> set (pt_pages l m q @ ps) = {}"
proof -
  let ?f = "\<lambda>i. subpages pt_pages l m (ent m pt i)"
  have fi: "?f i = pt_pages l m q" using assms(3,4) by simp
  have d: "distinct (concat (map ?f [0..<512]))" "pt \<notin> set (concat (map ?f [0..<512]))"
    "set (concat (map ?f [0..<512])) \<inter> set ps = {}" "pt \<notin> set ps" "distinct ps"
    using assms(1) by auto
  have sub: "set (?f j) \<subseteq> set (concat (map ?f [0..<512]))" if "j < 512" for j
    using that by auto
  show "pt \<notin> set (pt_pages l m q @ ps)" using d sub [OF assms(2)] fi by auto
  show "distinct (pt_pages l m q @ ps)"
    using d(3,5) sub [OF assms(2)] distinct_concat_nth [OF d(1) assms(2)] unfolding fi by auto
  show "set (?f j) \<inter> set (pt_pages l m q @ ps) = {}" if "j < 512" "j \<noteq> i" for j
    using distinct_concat_map [OF d(1) that(1) assms(2) that(2)] d(3) sub [OF that(1)] fi by auto
qed

text \<open>A change confined to one subtree and to pages outside the tree.\<close>

lemma child_update:
  assumes d: "distinct (pt_pages (Suc l) m pt @ ps)"
    and al: "\<forall>p \<in> set (pt_pages (Suc l) m pt @ ps). page_aligned p"
    and i: "i < 512" "pte_valid (ent m pt i)" "q = PTE2PA (ent m pt i)"
    and ch: "changes m m' (set (pt_pages l m q @ ps))"
    and ms: "mset (pt_pages l m' q @ ps') = mset (pt_pages l m q @ ps)"
  shows "\<And>j. j < 512 \<Longrightarrow> ent m' pt j = ent m pt j"
    "mset (pt_pages (Suc l) m' pt @ ps') = mset (pt_pages (Suc l) m pt @ ps)"
    "\<And>va. unat (PX (Suc l) va) = i \<Longrightarrow> pte_at (Suc l) m' pt va = pte_at l m' q va"
    "\<And>va. unat (PX (Suc l) va) \<noteq> i \<Longrightarrow> pte_at (Suc l) m' pt va = pte_at (Suc l) m pt va"
    "pt_wf (Suc l) m pt \<Longrightarrow> pt_wf l m' q \<Longrightarrow> pt_wf (Suc l) m' pt"
proof -
  let ?S = "set (pt_pages l m q @ ps)"
  note td = tree_distinct [OF d i]
  have alS: "\<forall>p\<in>?S. page_aligned p" "page_aligned pt"
    using al subpages_subset [OF i(1,2), of l] i(3) by (auto simp del: pt_pages.simps intro: pt_in_pt_pages)
  show e: "\<And>j. j < 512 \<Longrightarrow> ent m' pt j = ent m pt j"
    using ent_changes [OF ch alS td(1)] .
  have al': "\<forall>p\<in>set (pt_pages (Suc l) m pt). page_aligned p" using al by auto
  note eu = entry_update [OF ch alS(1) i(1) al' e td(3)]
  have "mset (pt_pages (Suc l) m' pt) + mset (pt_pages l m q) = mset (pt_pages (Suc l) m pt) + mset (pt_pages l m' q)"
    using eu(1) e [OF i(1)] i(2,3) by simp
  from mset_swap [OF this, of "mset ps'" "mset ps"] ms
  show "mset (pt_pages (Suc l) m' pt @ ps') = mset (pt_pages (Suc l) m pt @ ps)"
    by (simp only: mset_append)
  show "pte_at (Suc l) m' pt va = pte_at l m' q va" if "unat (PX (Suc l) va) = i" for va
    using that e [OF i(1)] i by simp
  show "\<And>va. unat (PX (Suc l) va) \<noteq> i \<Longrightarrow> pte_at (Suc l) m' pt va = pte_at (Suc l) m pt va"
    by (rule eu(2))
  show "pt_wf (Suc l) m' pt" if "pt_wf (Suc l) m pt" "pt_wf l m' q"
    using that e [OF i(1)] i by (intro eu(3)) auto
qed

lemma pte_valid_bit: "pte_valid e \<longleftrightarrow> bit e 0"
proof -
  have "e AND 1 \<noteq> 0 \<longleftrightarrow> bit e 0" by (simp add: and_one_eq odd_iff_mod_2_eq_one bit_0 even_iff_mod_2_eq_zero)
  then show ?thesis by (simp add: pte_valid_def PTE_V_def)
qed

lemma pte_valid_0 [simp]: "\<not> pte_valid 0"
  by (simp add: pte_valid_def)

lemma pte_valid_PTE_V [simp]: "pte_valid (e OR PTE_V)"
  by (simp add: pte_valid_bit bit_simps PTE_V_def)

lemma good_page_props:
  "good_page ke p \<Longrightarrow> page_aligned p" "good_page ke p \<Longrightarrow> unat p < 2281701376"
  by (auto simp: good_page_def page_aligned_def layout_defs word_less_nat_alt)

lemma table_pte:
  assumes "good_page ke p"
  shows "PTE2PA (PA2PTE p OR PTE_V) = p" "PTE_FLAGS (PA2PTE p OR PTE_V) = PTE_V"
  using assms good_page_props [OF assms]
  by (auto intro!: PTE2PA_PA2PTE PTE_FLAGS_PA2PTE simp: good_page_def PTE_V_def)

text \<open>A zeroed page is an empty table.\<close>

lemma zero_table:
  assumes "\<And>i. i < 512 \<Longrightarrow> ent m q i = 0"
  shows "pt_pages l m q = [q]" "pte_at l m q va = 0" "pt_wf l m q"
  using assms by (cases l; simp)+

lemma ent_zero_page:
  assumes "i < 512"
  shows "ent (memset m q 0 (ucast PGSIZE)) q i = 0"
proof -
  have "bytes (memset m q 0 (ucast PGSIZE)) (q + 8 * of_nat i) 8 = replicate 8 0"
    using ent_byte_in_page [OF assms] by (intro nth_equalityI) (simp_all add: memset_eq)
  then show ?thesis by (simp add: ent_def load64_def replicate_numeral)
qed

definition pt_inv :: "nat \<Rightarrow> kst \<Rightarrow> u64 \<Rightarrow> u64 list \<Rightarrow> bool" where
  "pt_inv l k pt ps \<longleftrightarrow> kinv k ps \<and> distinct (pt_pages l (pmem k) pt @ ps) \<and>
     (\<forall>p \<in> set (pt_pages l (pmem k) pt). good_page (kernel_end k) p) \<and> pt_wf l (pmem k) pt"

lemma kinv_good: "kinv k ps \<Longrightarrow> p \<in> set ps \<Longrightarrow> good_page (kernel_end k) p"
  by (simp add: kinv_def)

lemma pt_inv_aligned: "pt_inv l k pt ps \<Longrightarrow> p \<in> set (pt_pages l (pmem k) pt @ ps) \<Longrightarrow> page_aligned p"
  by (auto simp: pt_inv_def dest: kinv_good good_page_props(1))

lemma kinv_changes:
  assumes "kinv k ps" "changes (pmem k) m' S" "\<forall>p\<in>S. page_aligned p" "S \<inter> set ps = {}"
  shows "kinv (k\<lparr>pmem := m'\<rparr>) ps"
proof -
  have "load64 m' x = load64 (pmem k) x" if "x \<in> set ps" for x
    using that assms by (intro load64_page_cong changesD [OF assms(2,3)]) (auto dest: kinv_good good_page_props(1))
  then show ?thesis using assms(1) chain_cong [of ps m' "pmem k"] by (simp add: kinv_def)
qed

lemma kalloc_changes:
  assumes "kinv k (p # ps)" "kalloc k = (r, k')"
  shows "r = p" "p \<noteq> 0" "kinv k' ps" "kernel_end k' = kernel_end k" "changes (pmem k) (pmem k') {p}"
  using kalloc_nonzero_kinv [OF assms(1)] assms(2) by (auto simp: changes_def)

lemma changes_zero_page: "changes (pmem k) (pmem (zero_page q k)) {q}"
  by (auto simp: changes_def zero_page_def memset_eq)

lemma distinct_pages_mset:
  assumes "distinct xs" "mset ys = mset xs"
  shows "distinct ys" "set ys = set xs"
  using assms mset_eq_imp_distinct_iff mset_eq_setD by blast+

lemma pt_inv_intro:
  assumes "pt_inv l k pt ps" "kinv k' ps'" "kernel_end k' = kernel_end k" "pt_wf l (pmem k') pt"
    "mset (pt_pages l (pmem k') pt @ ps') = mset (pt_pages l (pmem k) pt @ ps)"
  shows "pt_inv l k' pt ps'"
proof -
  note d = distinct_pages_mset [OF _ assms(5)]
  have "\<forall>q\<in>set (pt_pages l (pmem k) pt @ ps). good_page (kernel_end k) q"
    using assms(1) kinv_good by (auto simp: pt_inv_def)
  then show ?thesis using assms d unfolding pt_inv_def by fastforce
qed

text \<open>Hanging a fresh zeroed page into an invalid entry changes no mapping.\<close>

lemma fresh_memory:
  assumes kv: "kinv k (p # ps)" and i: "i < 512"
    and k2: "kalloc k = (r, k1)" "k2 = set_pte (pt + 8 * of_nat i) v (zero_page p k1)"
    and pt: "page_aligned pt" "pt \<noteq> p" "pt \<notin> set ps"
  shows "changes (pmem k) (pmem k2) {pt, p}" "kinv k2 ps" "kernel_end k2 = kernel_end k"
    "ent (pmem k2) pt i = v"
    "\<And>j. j < 512 \<Longrightarrow> j \<noteq> i \<Longrightarrow> ent (pmem k2) pt j = ent (pmem k) pt j"
    "\<And>j. j < 512 \<Longrightarrow> ent (pmem k2) p j = 0"
proof -
  let ?m1 = "pmem (zero_page p k1)"
  note ka = kalloc_changes [OF kv k2(1)]
  have al: "page_aligned p" and pps: "p \<notin> set ps" using kv by (auto simp: kinv_def good_page_props)
  have c1: "changes (pmem k) ?m1 {p}"
    using changes_trans [OF ka(5) changes_zero_page [of k1 p]] by simp
  have m2: "pmem k2 = store64 ?m1 (pt + 8 * of_nat i) v" by (simp add: k2 set_pte_def)
  have c2: "changes ?m1 (pmem k2) {pt}" unfolding m2 by (rule changes_store [OF i])
  show "changes (pmem k) (pmem k2) {pt, p}"
    using changes_trans [OF c1 c2] by (rule changes_mono) auto
  show "ent (pmem k2) pt i = v" unfolding m2 by (rule ent_store_same)
  show "ent (pmem k2) pt j = ent (pmem k) pt j" if "j < 512" "j \<noteq> i" for j
    using ent_store_other [OF pt(1) i that(1)] that(2) ent_changes [OF c1 _ pt(1) _ that(1)] al pt(2)
    unfolding m2 by auto
  show "ent (pmem k2) p j = 0" if "j < 512" for j
    using ent_changes [OF c2, of p j] al pt that by (auto simp: zero_page_def ent_zero_page)
  show "kernel_end k2 = kernel_end k" using ka(4) by (simp add: k2 set_pte_def zero_page_def)
  have "kinv (k1\<lparr>pmem := pmem k2\<rparr>) ps"
    using al pt pps changes_trans [OF changes_zero_page c2]
    by (intro kinv_changes [OF ka(3), of _ "{p} \<union> {pt}"]) auto
  then show "kinv k2 ps" by (simp add: k2 set_pte_def zero_page_def)
qed

lemma fresh_child:
  assumes inv: "pt_inv (Suc l) k pt (p # ps)" and i: "i < 512" "\<not> pte_valid (ent (pmem k) pt i)"
    and k2: "kalloc k = (r, k1)" "k2 = set_pte (pt + 8 * of_nat i) (PA2PTE p OR PTE_V) (zero_page p k1)"
  shows "pt_inv (Suc l) k2 pt ps"
    "mset (pt_pages (Suc l) (pmem k2) pt @ ps) = mset (pt_pages (Suc l) (pmem k) pt @ p # ps)"
    "pte_at (Suc l) (pmem k2) pt va = pte_at (Suc l) (pmem k) pt va"
proof -
  let ?m = "pmem k" and ?m2 = "pmem k2"
  have kv: "kinv k (p # ps)" and gp: "good_page (kernel_end k) p"
    and dist: "distinct (pt_pages (Suc l) ?m pt @ p # ps)"
    using inv by (auto simp: pt_inv_def kinv_def simp del: pt_pages.simps)
  have al: "page_aligned pt" "page_aligned p" using pt_inv_aligned [OF inv] by auto
  have ptp: "pt \<noteq> p" "pt \<notin> set ps" using dist by auto
  note fm = fresh_memory [OF kv i(1) k2 al(1) ptp]
  note zt = zero_table [of ?m2 p, OF fm(6)]
  note tp = table_pte [OF gp]
  have alt: "\<forall>p\<in>set (pt_pages (Suc l) ?m pt). page_aligned p" using pt_inv_aligned [OF inv] by auto
  have disj: "set (subpages pt_pages l ?m (ent ?m pt j)) \<inter> {pt, p} = {}" if "j < 512" for j
    using dist that by auto
  have alS: "\<forall>q\<in>{pt, p}. page_aligned q" using al by simp
  note eu = entry_update [OF fm(1) alS i(1) alt fm(5) disj]
  show ms: "mset (pt_pages (Suc l) ?m2 pt @ ps) = mset (pt_pages (Suc l) ?m pt @ p # ps)"
    using eu(1) i(2) fm(4) tp zt by (simp del: pt_pages.simps)
  show "pte_at (Suc l) ?m2 pt va = pte_at (Suc l) ?m pt va"
    using eu(2) fm(4) tp zt i by (cases "unat (PX (Suc l) va) = i") (simp_all add: Let_def)
  have "pt_wf (Suc l) ?m2 pt"
    using inv fm(4) tp zt by (intro eu(3)) (auto simp: pt_inv_def)
  then show "pt_inv (Suc l) k2 pt ps" using pt_inv_intro [OF inv fm(2,3) _ ms] by blast
qed

text \<open>
  The effect of allocating tables: pages move from the free list to the tree, nothing else
  changes hands, and every address keeps its entry.
\<close>

definition grows :: "nat \<Rightarrow> u64 \<Rightarrow> kst \<Rightarrow> u64 list \<Rightarrow> kst \<Rightarrow> u64 list \<Rightarrow> bool" where
  "grows l pt k ps k' ps' \<longleftrightarrow> pt_inv l k' pt ps' \<and> kernel_end k' = kernel_end k \<and>
     mset (pt_pages l (pmem k') pt @ ps') = mset (pt_pages l (pmem k) pt @ ps) \<and>
     changes (pmem k) (pmem k') (set (pt_pages l (pmem k) pt @ ps)) \<and>
     (\<forall>va. pte_at l (pmem k') pt va = pte_at l (pmem k) pt va)"

lemma grows_refl: "pt_inv l k pt ps \<Longrightarrow> grows l pt k ps k ps"
  by (simp add: grows_def)

lemma grows_trans:
  assumes "grows l pt k ps k1 ps1" "grows l pt k1 ps1 k2 ps2"
  shows "grows l pt k ps k2 ps2"
proof -
  have "set (pt_pages l (pmem k1) pt @ ps1) = set (pt_pages l (pmem k) pt @ ps)"
    using assms(1) mset_eq_setD unfolding grows_def by blast
  then show ?thesis
    using assms changes_trans [of "pmem k" "pmem k1" _ "pmem k2"] unfolding grows_def
    by (metis sup_idem)
qed

lemma pt_inv_child:
  assumes inv: "pt_inv (Suc l) k pt ps" and i: "i < 512" "pte_valid (ent (pmem k) pt i)"
  shows "pt_inv l k (PTE2PA (ent (pmem k) pt i)) ps"
proof -
  have "distinct (pt_pages (Suc l) (pmem k) pt @ ps)" using inv by (simp only: pt_inv_def)
  from tree_distinct(2) [OF this i refl] show ?thesis
    using inv i subpages_subset [OF i] unfolding pt_inv_def pt_wf.simps by blast
qed

lemma child_grows:
  assumes inv: "pt_inv (Suc l) k pt ps" and i: "i < 512" "pte_valid (ent (pmem k) pt i)"
    and g: "grows l (PTE2PA (ent (pmem k) pt i)) k ps k' ps'"
  shows "grows (Suc l) pt k ps k' ps'" "ent (pmem k') pt i = ent (pmem k) pt i"
proof -
  let ?q = "PTE2PA (ent (pmem k) pt i)"
  have d: "distinct (pt_pages (Suc l) (pmem k) pt @ ps)" using inv by (simp only: pt_inv_def)
  have al: "\<forall>p \<in> set (pt_pages (Suc l) (pmem k) pt @ ps). page_aligned p"
    using pt_inv_aligned [OF inv] by blast
  have ch: "changes (pmem k) (pmem k') (set (pt_pages l (pmem k) ?q @ ps))"
    and ms: "mset (pt_pages l (pmem k') ?q @ ps') = mset (pt_pages l (pmem k) ?q @ ps)"
    and wf: "pt_wf l (pmem k') ?q" and ki: "kinv k' ps'" "kernel_end k' = kernel_end k"
    and same: "\<And>va. pte_at l (pmem k') ?q va = pte_at l (pmem k) ?q va"
    using g unfolding grows_def pt_inv_def by blast+
  note cu = child_update [OF d al i refl ch ms]
  show "ent (pmem k') pt i = ent (pmem k) pt i" by (rule cu(1) [OF i(1)])
  have "pt_wf (Suc l) (pmem k) pt" using inv by (simp only: pt_inv_def)
  from pt_inv_intro [OF inv ki cu(5) [OF this wf] cu(2)] have "pt_inv (Suc l) k' pt ps'" .
  moreover have "pte_at (Suc l) (pmem k') pt va = pte_at (Suc l) (pmem k) pt va" for va
    using cu(3,4) [of va] same i by (cases "unat (PX (Suc l) va) = i") simp_all
  moreover have "changes (pmem k) (pmem k') (set (pt_pages (Suc l) (pmem k) pt @ ps))"
    using ch by (rule changes_mono) (use subpages_subset [OF i] in auto)
  ultimately show "grows (Suc l) pt k ps k' ps'"
    using cu(2) ki(2) unfolding grows_def by blast
qed

lemma ent_PX: "load64 m (pt + 8 * PX l va) = ent m pt (unat (PX l va))"
  by (simp add: ent_def)

lemma pt_inv_nonzero:
  assumes "pt_inv l k pt ps" "p \<in> set (pt_pages l (pmem k) pt)" "i < 512"
  shows "p + 8 * of_nat i \<noteq> 0"
proof -
  have "0 < unat p" using assms(1,2) by (auto simp: pt_inv_def kinv_def good_page_def word_less_nat_alt word_le_nat_alt)
  moreover have "page_aligned p" using pt_inv_aligned [OF assms(1)] assms(2) by simp
  ultimately have "unat (p + 8 * of_nat i) \<noteq> 0" using assms(3) by (simp add: unat_ent_addr)
  then show ?thesis by auto
qed

lemma fresh_grows:
  assumes inv: "pt_inv (Suc l) k pt (p # ps)" and i: "i < 512" "\<not> pte_valid (ent (pmem k) pt i)"
    and k2: "kalloc k = (r, k1)" "k2 = set_pte (pt + 8 * of_nat i) (PA2PTE p OR PTE_V) (zero_page p k1)"
  shows "grows (Suc l) pt k (p # ps) k2 ps" "ent (pmem k2) pt i = PA2PTE p OR PTE_V"
    "PTE2PA (PA2PTE p OR PTE_V) = p" "r = p" "p \<noteq> 0"
proof -
  have kv: "kinv k (p # ps)" and gp: "good_page (kernel_end k) p"
    and dist: "distinct (pt_pages (Suc l) (pmem k) pt @ p # ps)"
    using inv by (auto simp: pt_inv_def kinv_def simp del: pt_pages.simps)
  have "page_aligned pt" "pt \<noteq> p" "pt \<notin> set ps" using pt_inv_aligned [OF inv] dist by auto
  note fm = fresh_memory [OF kv i(1) k2 this]
  note fc = fresh_child [OF inv i k2]
  have "changes (pmem k) (pmem k2) (set (pt_pages (Suc l) (pmem k) pt @ p # ps))"
    using fm(1) by (rule changes_mono) auto
  with fm(3) fc show "grows (Suc l) pt k (p # ps) k2 ps" unfolding grows_def by blast
  show "ent (pmem k2) pt i = PA2PTE p OR PTE_V" by (rule fm(4))
  show "PTE2PA (PA2PTE p OR PTE_V) = p" by (rule table_pte(1) [OF gp])
  show "r = p" "p \<noteq> 0" using kalloc_changes [OF kv k2(1)] by auto
qed

lemma walk_alloc:
  assumes "pt_inv l k pt ps" "walk_loop l pt va True k = (r, k')"
  shows "\<exists>ps'. grows l pt k ps k' ps' \<and> (r = 0 \<longrightarrow> ps' = []) \<and>
    (r \<noteq> 0 \<longrightarrow> walk_loop l pt va False k' = (r, k'))"
  using assms
proof (induction l arbitrary: pt k ps)
  case 0
  have "r \<noteq> 0" using 0(2) pt_inv_nonzero [OF 0(1), of pt "unat (PX 0 va)"] by auto
  then show ?case using grows_refl [OF 0(1)] 0(2) by auto
next
  case (Suc l)
  define i where "i = unat (PX (Suc l) va)"
  have i: "i < 512" "PX (Suc l) va = of_nat i" by (simp_all add: i_def)
  have step: ?case
    if inv: "pt_inv (Suc l) k1 pt ps1" and g1: "grows (Suc l) pt k ps k1 ps1"
      and v: "pte_valid (ent (pmem k1) pt i)"
      and w: "walk_loop l (PTE2PA (ent (pmem k1) pt i)) va True k1 = (r, k')" for k1 ps1
  proof -
    let ?q = "PTE2PA (ent (pmem k1) pt i)"
    obtain ps' where ps': "grows l ?q k1 ps1 k' ps'" "r = 0 \<longrightarrow> ps' = []"
      "r \<noteq> 0 \<longrightarrow> walk_loop l ?q va False k' = (r, k')"
      using Suc.IH [OF pt_inv_child [OF inv i(1) v] w] by blast
    note cg = child_grows [OF inv i(1) v ps'(1)]
    have "r \<noteq> 0 \<longrightarrow> walk_loop (Suc l) pt va False k' = (r, k')"
      using ps'(3) cg(2) v by (simp add: Let_def ent_PX i_def [symmetric])
    then show ?thesis using grows_trans [OF g1 cg(1)] ps'(2) by blast
  qed
  show ?case
  proof (cases "pte_valid (ent (pmem k) pt i)")
    case True
    then show ?thesis
      using Suc.prems(2) by (intro step [OF Suc.prems(1) grows_refl [OF Suc.prems(1)]])
        (simp_all add: Let_def ent_PX i_def [symmetric])
  next
    case False
    show ?thesis
    proof (cases ps)
      case Nil
      then have "kalloc k = (0, k)" using Suc.prems(1) kalloc_empty_kinv by (simp add: pt_inv_def)
      then have "r = 0" "k' = k"
        using Suc.prems(2) False by (simp_all add: Let_def ent_PX i_def [symmetric])
      then show ?thesis using grows_refl [OF Suc.prems(1)] Nil by blast
    next
      case (Cons p ps1)
      obtain r1 k1 where k1: "kalloc k = (r1, k1)" by fastforce
      note inv = Suc.prems(1) [unfolded Cons]
      note fg = fresh_grows [OF inv i(1) False k1 refl]
      show ?thesis
      proof (rule step)
        show "walk_loop l (PTE2PA (ent (pmem (set_pte (pt + 8 * of_nat i) (PA2PTE p OR PTE_V) (zero_page p k1))) pt i)) va True
          (set_pte (pt + 8 * of_nat i) (PA2PTE p OR PTE_V) (zero_page p k1)) = (r, k')"
          using Suc.prems(2) False k1 fg by (simp add: Let_def ent_PX i_def [symmetric]) (simp add: i(2))
      qed (use fg Cons in \<open>auto simp: grows_def\<close>)
    qed
  qed
qed

lemma walk_lookup_state: "walk_loop l pt va False k = (r, k') \<Longrightarrow> k' = k"
  by (induction l arbitrary: pt) (auto simp: Let_def split: if_splits)

lemma walk_lookup_pte:
  assumes "pt_inv l k pt ps" "walk_loop l pt va False k = (r, k)"
  shows "pte_at l (pmem k) pt va = (if r = 0 then 0 else load64 (pmem k) r)"
  using assms
proof (induction l arbitrary: pt)
  case 0
  then show ?case using pt_inv_nonzero [OF 0(1), of pt "unat (PX 0 va)"] by (auto simp: ent_def)
next
  case (Suc l)
  then show ?case
    using pt_inv_child [OF Suc.prems(1)] by (auto simp: Let_def ent_PX split: if_splits)
qed

lemma walk_lookup_in_tree:
  assumes "walk_loop l pt va False k = (r, k)" "r \<noteq> 0"
  shows "\<exists>p \<in> set (pt_pages l (pmem k) pt). r = p + 8 * of_nat (unat (PX 0 va))"
  using assms
proof (induction l arbitrary: pt)
  case (Suc l)
  let ?e = "ent (pmem k) pt (unat (PX (Suc l) va))"
  have "pte_valid ?e" "walk_loop l (PTE2PA ?e) va False k = (r, k)"
    using Suc.prems by (auto simp: Let_def ent_PX split: if_splits)
  then show ?case using Suc.IH Suc.prems(2) subpages_subset [of "unat (PX (Suc l) va)" "pmem k" pt l] by (meson subset_iff unat_PX_less)
qed auto

text \<open>Overwriting the entry that a walk found changes the mapping of that page and no other.\<close>

lemma set_leaf:
  assumes "pt_inv l k pt ps" "walk_loop l pt va False k = (r, k)" "r \<noteq> 0"
  shows "pt_wf l (store64 (pmem k) r v) pt \<and>
    mset (pt_pages l (store64 (pmem k) r v) pt) = mset (pt_pages l (pmem k) pt) \<and>
    changes (pmem k) (store64 (pmem k) r v) (set (pt_pages l (pmem k) pt)) \<and>
    (\<forall>va'. pte_at l (store64 (pmem k) r v) pt va' =
       (if \<forall>j \<le> l. PX j va' = PX j va then v else pte_at l (pmem k) pt va'))"
  using assms
proof (induction l arbitrary: pt)
  case 0
  have al: "page_aligned pt" using pt_inv_aligned [OF 0(1)] by simp
  have r: "r = pt + 8 * of_nat (unat (PX 0 va))" using 0(2) by simp
  have "ent (store64 (pmem k) r v) pt (unat (PX 0 va')) =
      (if PX 0 va' = PX 0 va then v else ent (pmem k) pt (unat (PX 0 va')))" for va'
  proof (cases "unat (PX 0 va') = unat (PX 0 va)")
    case True
    then show ?thesis unfolding r by (simp only: ent_store_same word_unat_eq_iff simp_thms if_True)
  next
    case False
    then have "PX 0 va' \<noteq> PX 0 va" by auto
    then show ?thesis unfolding r using False by (simp only: ent_store_other [OF al] unat_PX_less if_False)
  qed
  then show ?case unfolding r using changes_store [of "unat (PX 0 va)" "pmem k" pt v] by simp
next
  case (Suc l)
  let ?m' = "store64 (pmem k) r v" and ?i = "unat (PX (Suc l) va)"
  define q where "q = PTE2PA (ent (pmem k) pt ?i)"
  have v: "pte_valid (ent (pmem k) pt ?i)" and w: "walk_loop l q va False k = (r, k)"
    using Suc.prems(2,3) by (auto simp: Let_def ent_PX q_def split: if_splits)
  note IH = Suc.IH [OF pt_inv_child [OF Suc.prems(1) unat_PX_less v, folded q_def] w Suc.prems(3)]
  have d: "distinct (pt_pages (Suc l) (pmem k) pt @ [])"
    using Suc.prems(1) unfolding pt_inv_def by auto
  have al: "\<forall>p \<in> set (pt_pages (Suc l) (pmem k) pt @ []). page_aligned p"
    using pt_inv_aligned [OF Suc.prems(1)] by auto
  have ch: "changes (pmem k) ?m' (set (pt_pages l (pmem k) q @ []))"
    and ms: "mset (pt_pages l ?m' q @ []) = mset (pt_pages l (pmem k) q @ [])"
    using IH by simp_all
  note cu = child_update [OF d al unat_PX_less v q_def ch ms]
  have "pt_wf (Suc l) (pmem k) pt" using Suc.prems(1) unfolding pt_inv_def by blast
  then have "pt_wf (Suc l) ?m' pt" using cu(5) IH by blast
  moreover have "mset (pt_pages (Suc l) ?m' pt) = mset (pt_pages (Suc l) (pmem k) pt)"
    using cu(2) by (simp only: append_Nil2)
  moreover have "changes (pmem k) ?m' (set (pt_pages (Suc l) (pmem k) pt))"
    using ch subpages_subset [OF unat_PX_less v, of l] unfolding q_def append_Nil2
    by (rule changes_mono)
  moreover have "pte_at (Suc l) ?m' pt va' =
       (if \<forall>j \<le> Suc l. PX j va' = PX j va then v else pte_at (Suc l) (pmem k) pt va')" for va'
  proof (cases "PX (Suc l) va' = PX (Suc l) va")
    case True
    then have "pte_at (Suc l) ?m' pt va' = pte_at l ?m' q va'" "pte_at (Suc l) (pmem k) pt va' = pte_at l (pmem k) q va'"
      using cu(3) [of va'] v by (simp_all add: q_def)
    moreover have "(\<forall>j \<le> Suc l. PX j va' = PX j va) \<longleftrightarrow> (\<forall>j \<le> l. PX j va' = PX j va)"
      using True by (auto simp: le_Suc_eq)
    ultimately show ?thesis using IH by (simp only:)
  next
    case False
    then show ?thesis using cu(4) [of va'] by (auto simp: word_unat_eq_iff)
  qed
  ultimately show ?case by blast
qed

section \<open>The mapping of a page table\<close>

text \<open>
  The entry of each of the \<open>512 ^ 3\<close> virtual page numbers a table can hold; 0 where there is no
  table. The page numbers below \<open>NVPN = MAXVA / PGSIZE\<close> are the ones \<open>walk\<close> accepts.
\<close>

definition NVPN :: nat where "NVPN = 67108864"

definition NPTE :: nat where "NPTE = 134217728"

definition vmap :: "kst \<Rightarrow> u64 \<Rightarrow> nat \<Rightarrow> u64" where
  "vmap k root n = (if n < NPTE then pte_at 2 (pmem k) root (of_nat (4096 * n)) else 0)"

abbreviation vpn :: "u64 \<Rightarrow> nat" where
  "vpn va \<equiv> unat va div 4096"

lemma MAXVA_vpn: "va < MAXVA \<longleftrightarrow> vpn va < NVPN"
  by (auto simp: layout_defs word_less_nat_alt NVPN_def)

lemma NVPN_NPTE: "n < NVPN \<Longrightarrow> n < NPTE"
  by (simp add: NVPN_def NPTE_def)

lemma PX_vpn: "unat (PX l va) = vpn va div 512 ^ l mod 512"
proof -
  have "(2 :: nat) ^ PXSHIFT l = 4096 * 512 ^ l"
    by (simp add: PXSHIFT_def power_add power_mult)
  then show ?thesis by (simp add: unat_PX div_mult2_eq)
qed

lemma unat_page_addr: "n < NPTE \<Longrightarrow> unat (of_nat (4096 * n) :: u64) = 4096 * n"
  by (rule unat_of_nat_u64) (simp add: NPTE_def)

lemma PX_page_addr: "vpn va < NPTE \<Longrightarrow> PX l (of_nat (4096 * vpn va)) = PX l va"
  by (simp only: word_unat_eq_iff PX_vpn unat_page_addr) simp

lemma pte_at_PX_cong: "(\<And>j. PX j va = PX j va') \<Longrightarrow> pte_at l m pt va = pte_at l m pt va'"
  by (induction l arbitrary: pt) (simp_all add: Let_def)

lemma pte_at_vpn: "vpn va < NPTE \<Longrightarrow> pte_at 2 (pmem k) root va = vmap k root (vpn va)"
  using pte_at_PX_cong [of va "of_nat (4096 * vpn va)"] PX_page_addr [of va]
  by (simp add: vmap_def del: of_nat_mult)

lemma pte_at_vmap: "va < MAXVA \<Longrightarrow> pte_at 2 (pmem k) root va = vmap k root (vpn va)"
  by (simp add: pte_at_vpn MAXVA_vpn NVPN_NPTE)

lemma vpn_PX_eq:
  assumes "n < NPTE" "n' < NPTE"
  shows "(\<forall>j\<le>2. PX j (of_nat (4096 * n')) = PX j (of_nat (4096 * n))) \<longleftrightarrow> n' = n"
proof
  assume a: "\<forall>j\<le>2. PX j (of_nat (4096 * n')) = PX j (of_nat (4096 * n))"
  have px: "n' div 512 ^ j mod 512 = n div 512 ^ j mod 512" if "j \<le> 2" for j
    using a that assms unat_page_addr PX_vpn [of j "of_nat (4096 * n)"] PX_vpn [of j "of_nat (4096 * n')"] by simp
  have "x = x div 512 ^ 2 mod 512 * 512 ^ 2 + x div 512 ^ 1 mod 512 * 512 + x div 512 ^ 0 mod 512"
    if "x < NPTE" for x :: nat
  proof -
    define c where "c = x div 512"
    have x: "x = c * 512 + x mod 512" by (simp add: c_def)
    have c: "c * 512 = c div 512 * 262144 + c mod 512 * 512"
      using div_mult_mod_eq [of c 512] by linarith
    have "x div 262144 = c div 512" by (simp add: c_def div_mult2_eq [symmetric])
    moreover have "c div 512 < 512" using that by (simp add: c_def NPTE_def)
    ultimately show ?thesis using x c by (simp add: c_def [symmetric] algebra_simps)
  qed
  from this [OF assms(1)] this [OF assms(2)] px [of 2] px [of 1] px [of 0]
  show "n' = n" by (simp only: order_refl one_le_numeral zero_le)
qed simp

end
