(* ===== verification/Vm_User.thy ===== *)
theory Vm_User
  imports Vm_Tree
begin

text \<open>
  User address spaces. \<open>vmap\<close> abstracts a page table to a function from virtual page numbers to
  entries; \<open>uvm_inv\<close> says that the first \<open>n\<close> pages are mapped to distinct physical pages that are
  neither table pages nor free. The lemmas show what \<open>mappages\<close>, \<open>uvmunmap\<close>, \<open>uvmalloc\<close> and
  \<open>uvmdealloc\<close> do to that function, to the bytes the user sees and to the multiset of pages owned.
\<close>

unbundle bit_operations_syntax

section \<open>Walks and entry updates on the mapping\<close>

definition evolves :: "u64 \<Rightarrow> kst \<Rightarrow> u64 list \<Rightarrow> kst \<Rightarrow> u64 list \<Rightarrow> bool" where
  "evolves root k ps k' ps' \<longleftrightarrow> pt_inv 2 k' root ps' \<and> kernel_end k' = kernel_end k \<and>
     mset (pt_pages 2 (pmem k') root @ ps') = mset (pt_pages 2 (pmem k) root @ ps) \<and>
     changes (pmem k) (pmem k') (set (pt_pages 2 (pmem k) root @ ps))"

lemma evolves_refl: "pt_inv 2 k root ps \<Longrightarrow> evolves root k ps k ps"
  by (simp add: evolves_def)

lemma evolves_trans:
  assumes "evolves root k ps k1 ps1" "evolves root k1 ps1 k2 ps2"
  shows "evolves root k ps k2 ps2"
proof -
  have "set (pt_pages 2 (pmem k1) root @ ps1) = set (pt_pages 2 (pmem k) root @ ps)"
    using assms(1) mset_eq_setD unfolding evolves_def by blast
  then show ?thesis
    using assms changes_trans [of "pmem k" "pmem k1" _ "pmem k2"] unfolding evolves_def
    by (metis sup_idem)
qed

lemma evolves_inv: "evolves root k ps k' ps' \<Longrightarrow> pt_inv 2 k' root ps'"
  by (simp add: evolves_def)

lemma vmap_cong: "(\<And>va. pte_at 2 (pmem k') root va = pte_at 2 (pmem k) root va) \<Longrightarrow> vmap k' root = vmap k root"
  by (rule ext) (simp add: vmap_def)

lemma walk_alloc_vmap:
  assumes inv: "pt_inv 2 k root ps" and va: "va < MAXVA"
  obtains r k' ps' where "walk root va True k = Ok (r, k')" "evolves root k ps k' ps'"
    "vmap k' root = vmap k root" "r = 0 \<Longrightarrow> ps' = []"
    "r \<noteq> 0 \<Longrightarrow> walk_loop 2 root va False k' = (r, k')"
    "r \<noteq> 0 \<Longrightarrow> load64 (pmem k') r = vmap k root (vpn va)"
proof -
  obtain r k' where w: "walk_loop 2 root va True k = (r, k')" by fastforce
  obtain ps' where ps': "grows 2 root k ps k' ps'" "r = 0 \<longrightarrow> ps' = []"
    "r \<noteq> 0 \<longrightarrow> walk_loop 2 root va False k' = (r, k')"
    using walk_alloc [OF inv w] by blast
  have ev: "evolves root k ps k' ps'" using ps'(1) unfolding grows_def evolves_def by blast
  have vm: "vmap k' root = vmap k root" using ps'(1) unfolding grows_def by (blast intro: vmap_cong)
  have "load64 (pmem k') r = vmap k root (vpn va)" if "r \<noteq> 0"
    using walk_lookup_pte [OF evolves_inv [OF ev]] ps'(3) that pte_at_vmap [OF va, of k' root] vm by auto
  then show ?thesis using that [of r k' ps'] w va ev vm ps'(2,3) by (simp add: walk_def)
qed

lemma walk_lookup_vmap:
  assumes inv: "pt_inv 2 k root ps" and va: "va < MAXVA"
  obtains r where "walk root va False k = Ok (r, k)" "walk_loop 2 root va False k = (r, k)"
    "r = 0 \<Longrightarrow> vmap k root (vpn va) = 0" "r \<noteq> 0 \<Longrightarrow> load64 (pmem k) r = vmap k root (vpn va)"
proof -
  obtain r k' where w: "walk_loop 2 root va False k = (r, k')" by fastforce
  moreover have "k' = k" using walk_lookup_state [OF w] .
  ultimately show ?thesis
    using that [of r] walk_lookup_pte [OF inv, of va r] pte_at_vmap [OF va, of k root] va by (simp add: walk_def)
qed

lemma set_pte_vmap:
  assumes inv: "pt_inv 2 k root ps" and va: "va < MAXVA"
    and w: "walk_loop 2 root va False k = (r, k)" "r \<noteq> 0"
  shows "evolves root k ps (set_pte r v k) ps"
    "vmap (set_pte r v k) root = (vmap k root)(vpn va := v)"
    "changes (pmem k) (pmem (set_pte r v k)) (set (pt_pages 2 (pmem k) root))"
    "mset (pt_pages 2 (pmem (set_pte r v k)) root) = mset (pt_pages 2 (pmem k) root)"
proof -
  let ?k = "set_pte r v k"
  note sl = set_leaf [OF inv w, of v]
  have m: "pmem ?k = store64 (pmem k) r v" by (simp add: set_pte_def)
  have al: "\<forall>p\<in>set (pt_pages 2 (pmem k) root). page_aligned p"
    and dj: "set (pt_pages 2 (pmem k) root) \<inter> set ps = {}" and ki: "kinv k ps"
    using pt_inv_aligned [OF inv] inv by (auto simp: pt_inv_def)
  have ki': "kinv ?k ps"
    using kinv_changes [OF ki _ al dj, of "pmem ?k"] sl by (simp add: set_pte_def)
  show c: "changes (pmem k) (pmem ?k) (set (pt_pages 2 (pmem k) root))" using sl m by metis
  show ms: "mset (pt_pages 2 (pmem ?k) root) = mset (pt_pages 2 (pmem k) root)" using sl m by metis
  have "pt_wf 2 (pmem ?k) root" using sl m by metis
  then have "pt_inv 2 ?k root ps" using pt_inv_intro [OF inv ki'] ms by (simp add: set_pte_def)
  then show "evolves root k ps ?k ps"
    using ms changes_mono [OF c, of "set (pt_pages 2 (pmem k) root @ ps)"]
    by (simp add: evolves_def set_pte_def)
  have vn: "vpn va < NPTE" using va by (simp add: MAXVA_vpn NVPN_NPTE)
  show "vmap ?k root = (vmap k root)(vpn va := v)"
  proof (rule ext)
    fix n
    show "vmap ?k root n = ((vmap k root)(vpn va := v)) n"
    proof (cases "n < NPTE")
      case True
      have "(\<forall>j\<le>2. PX j (of_nat (4096 * n)) = PX j va) \<longleftrightarrow> n = vpn va"
        using vpn_PX_eq [OF vn True] by (simp only: PX_page_addr [OF vn])
      then show ?thesis using sl True by (simp add: vmap_def m del: of_nat_mult)
    qed (use vn in \<open>simp add: vmap_def\<close>)
  qed
qed

section \<open>Mapping a range of pages\<close>

definition map_range :: "nat \<Rightarrow> nat \<Rightarrow> u64 \<Rightarrow> u32 \<Rightarrow> (nat \<Rightarrow> u64) \<Rightarrow> nat \<Rightarrow> u64" where
  "map_range n c pa perm f = (\<lambda>j. if n \<le> j \<and> j < n + c
     then PA2PTE (pa + of_nat (j - n) * PGSIZE) OR scast perm OR PTE_V else f j)"

lemma map_range_0 [simp]: "map_range n 0 pa perm f = f"
  by (rule ext) (auto simp: map_range_def)

lemma map_range_Suc:
  "map_range n (Suc c) pa perm f =
   map_range (Suc n) c (pa + PGSIZE) perm (f(n := PA2PTE pa OR scast perm OR PTE_V))"
proof (rule ext)
  fix j
  consider "j < n" | "j = n" | "Suc n \<le> j" by linarith
  then show "map_range n (Suc c) pa perm f j =
    map_range (Suc n) c (pa + PGSIZE) perm (f(n := PA2PTE pa OR scast perm OR PTE_V)) j"
  proof cases
    case 3
    then have "of_nat (j - n) = (of_nat (j - Suc n) + 1 :: u64)"
      by (metis Suc_diff_Suc Suc_le_eq add.commute of_nat_Suc)
    then show ?thesis using 3 by (auto simp: map_range_def algebra_simps)
  qed (auto simp: map_range_def)
qed

lemma map_range_1: "map_range n 1 pa perm f = f(n := PA2PTE pa OR scast perm OR PTE_V)"
  using map_range_Suc [of n 0] by simp

definition mapped_or_oom ::
  "u64 \<Rightarrow> kst \<Rightarrow> u64 list \<Rightarrow> nat \<Rightarrow> nat \<Rightarrow> u64 \<Rightarrow> u32 \<Rightarrow> (int \<times> kst) kres \<Rightarrow> bool" where
  "mapped_or_oom root k ps n c pa perm res \<longleftrightarrow>
     (\<exists>r k' ps' d. res = Ok (r, k') \<and> evolves root k ps k' ps' \<and>
        vmap k' root = map_range n d pa perm (vmap k root) \<and>
        (r = 0 \<and> d = c \<or> r = - 1 \<and> d < c \<and> ps' = []))"

lemma mappages_step:
  assumes inv: "pt_inv 2 k root ps" and va: "a < MAXVA" and nv: "\<not> pte_valid (vmap k root (vpn a))"
  obtains (oom) k' where "mappages_loop root a e pa perm k = Ok (- 1, k')"
      "evolves root k ps k' []" "vmap k' root = vmap k root"
  | (mapped) k' ps' where "mappages_loop root a e pa perm k =
        (if a = e then Ok (0, k') else mappages_loop root (a + PGSIZE) e (pa + PGSIZE) perm k')"
      "evolves root k ps k' ps'"
      "vmap k' root = (vmap k root)(vpn a := PA2PTE pa OR scast perm OR PTE_V)"
proof -
  obtain r k1 ps1 where w: "walk root a True k = Ok (r, k1)" "evolves root k ps k1 ps1"
    "vmap k1 root = vmap k root" "r = 0 \<Longrightarrow> ps1 = []"
    "r \<noteq> 0 \<Longrightarrow> walk_loop 2 root a False k1 = (r, k1)"
    "r \<noteq> 0 \<Longrightarrow> load64 (pmem k1) r = vmap k root (vpn a)"
    using walk_alloc_vmap [OF inv va] by metis
  show ?thesis
  proof (cases "r = 0")
    case True
    then show ?thesis using w oom [of k1] by (simp add: mappages_loop.simps)
  next
    case False
    note sp = set_pte_vmap [OF evolves_inv [OF w(2)] va w(5) [OF False] False, of "PA2PTE pa OR scast perm OR PTE_V"]
    show ?thesis
    proof (rule mapped)
      show "evolves root k ps (set_pte r (PA2PTE pa OR scast perm OR PTE_V) k1) ps1"
        using w(2) sp(1) by (rule evolves_trans)
      show "vmap (set_pte r (PA2PTE pa OR scast perm OR PTE_V) k1) root =
          (vmap k root)(vpn a := PA2PTE pa OR scast perm OR PTE_V)" using sp(2) w(3) by simp
    qed (use w(1) w(6) [OF False] False nv in \<open>simp add: mappages_loop.simps [of root a] Let_def\<close>)
  qed
qed

lemma mappages_loop_spec:
  assumes "pt_inv 2 k root ps" "unat a = 4096 * n" "unat e = 4096 * (n + c)" "n + c < NVPN"
    "\<forall>j. n \<le> j \<and> j \<le> n + c \<longrightarrow> \<not> pte_valid (vmap k root j)"
  shows "mapped_or_oom root k ps n (Suc c) pa perm (mappages_loop root a e pa perm k)"
  using assms
proof (induction c arbitrary: k ps n a pa)
  case 0
  have va: "a < MAXVA" "vpn a = n" "a = e"
    using 0(2,3,4) by (simp_all add: MAXVA_vpn word_unat_eq_iff)
  then have "\<not> pte_valid (vmap k root (vpn a))" using 0(5) by simp
  with 0(1) va(1) show ?case
  proof (cases rule: mappages_step [where e = e and pa = pa and perm = perm])
    case (oom k')
    then show ?thesis unfolding mapped_or_oom_def by (intro exI [of _ "-1"] exI [of _ k'] exI [of _ "[]"] exI [of _ 0]) simp
  next
    case (mapped k' ps')
    then show ?thesis unfolding mapped_or_oom_def
      by (intro exI [of _ 0] exI [of _ k'] exI [of _ ps'] exI [of _ "Suc 0"]) (simp add: va(2) map_range_Suc flip: va(3))
  qed
next
  case (Suc c)
  have va: "a < MAXVA" "vpn a = n" "a \<noteq> e"
    using Suc.prems(2,3,4) by (auto simp: MAXVA_vpn)
  then have nv: "\<not> pte_valid (vmap k root (vpn a))" using Suc.prems(5) by simp
  have up: "unat (a + PGSIZE) = 4096 * Suc n"
    using Suc.prems(2,4) by (simp add: PGSIZE_def unat_add_u64 NVPN_def)
  from Suc.prems(1) va(1) nv show ?case
  proof (cases rule: mappages_step [where e = e and pa = pa and perm = perm])
    case (oom k')
    then show ?thesis unfolding mapped_or_oom_def by (intro exI [of _ "-1"] exI [of _ k'] exI [of _ "[]"] exI [of _ 0]) simp
  next
    case (mapped k1 ps1)
    have "mapped_or_oom root k1 ps1 (Suc n) (Suc c) (pa + PGSIZE) perm
        (mappages_loop root (a + PGSIZE) e (pa + PGSIZE) perm k1)"
      using Suc.prems mapped(2,3) va(2) by (intro Suc.IH) (auto simp: up evolves_inv)
    then obtain r k' ps' d where r: "mappages_loop root (a + PGSIZE) e (pa + PGSIZE) perm k1 = Ok (r, k')"
      "evolves root k1 ps1 k' ps'" "vmap k' root = map_range (Suc n) d (pa + PGSIZE) perm (vmap k1 root)"
      "r = 0 \<and> d = Suc c \<or> r = - 1 \<and> d < Suc c \<and> ps' = []"
      unfolding mapped_or_oom_def by blast
    have "vmap k' root = map_range n (Suc d) pa perm (vmap k root)"
      using r(3) mapped(3) va(2) by (simp add: map_range_Suc)
    then show ?thesis using r(1,4) mapped(1) va(3) evolves_trans [OF mapped(2) r(2)]
      unfolding mapped_or_oom_def
      by (intro exI [of _ r] exI [of _ k'] exI [of _ ps'] exI [of _ "Suc d"]) auto
  qed
qed

lemma mappages_spec:
  assumes "pt_inv 2 k root ps" "sz \<noteq> 0" "unat va + unat sz \<le> 274877906944"
    "\<forall>j. vpn va \<le> j \<and> j \<le> vpn (va + sz - 1) \<longrightarrow> \<not> pte_valid (vmap k root j)"
  shows "mapped_or_oom root k ps (vpn va) (Suc (vpn (va + sz - 1) - vpn va)) pa perm (mappages root va sz pa perm k)"
proof -
  have sz: "0 < unat sz" using assms(2) by (simp add: unat_gt_0)
  have "unat (va + sz - 1) = unat va + unat sz - 1"
    using assms(3) sz by (subst unat_sub) (auto simp: word_le_nat_alt unat_add_u64)
  then have "vpn va \<le> vpn (va + sz - 1)" "vpn (va + sz - 1) < NVPN"
    using sz assms(3) by (auto simp: NVPN_def div_le_mono)
  then show ?thesis
    using assms unfolding mappages_def
    by (auto intro!: mappages_loop_spec simp: unat_PGROUNDDOWN)
qed

section \<open>Address spaces\<close>

lemma walk_local:
  assumes "\<And>p a. p \<in> set (pt_pages l (pmem k) pt) \<Longrightarrow> in_page p a \<Longrightarrow> pmem k' a = pmem k a"
    "walk_loop l pt va False k = (r, k)"
  shows "walk_loop l pt va False k' = (r, k')"
  using assms
proof (induction l arbitrary: pt)
  case (Suc l)
  let ?i = "unat (PX (Suc l) va)"
  have e: "ent (pmem k') pt ?i = ent (pmem k) pt ?i"
    using Suc.prems(1) [of pt] by (intro ent_cong) auto
  show ?case
  proof (cases "pte_valid (ent (pmem k) pt ?i)")
    case True
    then have "walk_loop l (PTE2PA (ent (pmem k) pt ?i)) va False k' = (r, k')"
      using Suc.prems subpages_subset [OF unat_PX_less True, of l]
      by (intro Suc.IH) (auto simp: Let_def ent_PX simp del: pt_pages.simps)
    then show ?thesis using True e by (simp add: Let_def ent_PX)
  next
    case False
    then show ?thesis using Suc.prems(2) e by (simp add: Let_def ent_PX)
  qed
qed simp

lemma tree_frame:
  assumes inv: "pt_inv 2 k root ps" and ch: "changes (pmem k) (pmem k') S"
    and S: "\<forall>p\<in>S. page_aligned p" "set (pt_pages 2 (pmem k) root) \<inter> S = {}"
    and k': "kinv k' ps'" "kernel_end k' = kernel_end k" "set (pt_pages 2 (pmem k) root) \<inter> set ps' = {}"
  shows "pt_inv 2 k' root ps'" "pt_pages 2 (pmem k') root = pt_pages 2 (pmem k) root"
    "vmap k' root = vmap k root" "walk_loop 2 root va False k = (r, k) \<Longrightarrow> walk_loop 2 root va False k' = (r, k')"
proof -
  have al: "\<forall>p\<in>set (pt_pages 2 (pmem k) root). page_aligned p" using pt_inv_aligned [OF inv] by simp
  note pc = pt_changes [OF ch S(1) al S(2)]
  show "pt_pages 2 (pmem k') root = pt_pages 2 (pmem k) root" by (rule pc(1))
  show "vmap k' root = vmap k root" by (rule vmap_cong) (rule pc(2))
  show "pt_inv 2 k' root ps'" using inv k' pc by (auto simp: pt_inv_def kinv_def)
  show "walk_loop 2 root va False k' = (r, k')" if "walk_loop 2 root va False k = (r, k)"
    using that changesD [OF ch S(1)] al S(2) by (intro walk_local [of 2 k root k' va r]) blast+
qed

abbreviation data_pages :: "kst \<Rightarrow> u64 \<Rightarrow> nat list \<Rightarrow> u64 list" where
  "data_pages k root js \<equiv> map (\<lambda>j. PTE2PA (vmap k root j)) js"

definition as_inv :: "kst \<Rightarrow> u64 \<Rightarrow> nat list \<Rightarrow> u64 list \<Rightarrow> bool" where
  "as_inv k root js ps \<longleftrightarrow> pt_inv 2 k root ps \<and>
     distinct (pt_pages 2 (pmem k) root @ data_pages k root js @ ps) \<and>
     (\<forall>p \<in> set (data_pages k root js). good_page (kernel_end k) p) \<and>
     (\<forall>j \<in> set js. j < NVPN \<and> pte_valid (vmap k root j) \<and> PTE_FLAGS (vmap k root j) \<noteq> PTE_V)"

lemma as_inv_pt: "as_inv k root js ps \<Longrightarrow> pt_inv 2 k root ps"
  by (simp add: as_inv_def)

lemma as_inv_perm:
  assumes "as_inv k root js ps" "mset js' = mset js"
  shows "as_inv k root js' ps"
proof -
  have "mset (data_pages k root js') = mset (data_pages k root js)" using assms(2) by simp
  then have "mset (pt_pages 2 (pmem k) root @ data_pages k root js' @ ps) =
      mset (pt_pages 2 (pmem k) root @ data_pages k root js @ ps)"
    by (simp only: mset_append)
  then have "distinct (pt_pages 2 (pmem k) root @ data_pages k root js' @ ps)"
    using assms(1) distinct_pages_mset(1) unfolding as_inv_def by blast
  moreover have "set js' = set js" using assms(2) by (rule mset_eq_setD)
  ultimately show ?thesis using assms(1) unfolding as_inv_def by simp
qed

lemma as_inv_distinct_js: "as_inv k root js ps \<Longrightarrow> distinct js"
  by (auto simp: as_inv_def distinct_map)

lemma kfree_changes:
  assumes "kinv k ps" "good_page (kernel_end k) p" "p \<notin> set ps"
  obtains k' where "kfree p k = Ok k'" "kinv k' (p # ps)" "kernel_end k' = kernel_end k"
    "changes (pmem k) (pmem k') {p}"
proof -
  obtain k' where k': "kfree p k = Ok k'" "kinv k' (p # ps)" "kernel_end k' = kernel_end k"
    "\<forall>a. \<not> in_page p a \<longrightarrow> pmem k' a = pmem k a" using kfree_kinv [OF assms] by blast
  from k'(4) have "changes (pmem k) (pmem k') {p}" by (auto simp: changes_def)
  with k' show ?thesis using that by blast
qed

section \<open>Unmapping\<close>

lemma uvmunmap_step:
  assumes inv: "as_inv k root (j # js) ps" and a: "unat a = 4096 * j" "a < e"
  obtains k' where "uvmunmap_loop root a e True k = uvmunmap_loop root (a + PGSIZE) e True k'"
    "as_inv k' root js (PTE2PA (vmap k root j) # ps)" "vmap k' root = (vmap k root)(j := 0)"
    "kernel_end k' = kernel_end k"
    "mset (pt_pages 2 (pmem k') root) = mset (pt_pages 2 (pmem k) root)"
    "changes (pmem k) (pmem k') (insert (PTE2PA (vmap k root j)) (set (pt_pages 2 (pmem k) root)))"
proof -
  let ?p = "PTE2PA (vmap k root j)" and ?T = "pt_pages 2 (pmem k) root"
  note pinv = as_inv_pt [OF inv]
  have j: "j < NVPN" "pte_valid (vmap k root j)" "PTE_FLAGS (vmap k root j) \<noteq> PTE_V"
    and gp: "good_page (kernel_end k) ?p" and p: "?p \<notin> set ?T" "?p \<notin> set ps" "?p \<notin> set (data_pages k root js)"
    and jd: "j \<notin> set js"
    using inv unfolding as_inv_def by auto
  have va: "a < MAXVA" "vpn a = j" using a(1) j(1) by (simp_all add: MAXVA_vpn)
  obtain r where r: "walk root a False k = Ok (r, k)" "walk_loop 2 root a False k = (r, k)"
    "r = 0 \<Longrightarrow> vmap k root j = 0" "r \<noteq> 0 \<Longrightarrow> load64 (pmem k) r = vmap k root j"
    using walk_lookup_vmap [OF pinv va(1)] va(2) by metis
  have r0: "r \<noteq> 0" using r(3) j(2) by auto
  have ki: "kinv k ps" using pinv by (simp add: pt_inv_def)
  obtain k1 where k1: "kfree ?p k = Ok k1" "kinv k1 (?p # ps)" "kernel_end k1 = kernel_end k"
    "changes (pmem k) (pmem k1) {?p}" using kfree_changes [OF ki gp p(2)] .
  have al: "\<forall>q\<in>{?p}. page_aligned q" using good_page_props(1) [OF gp] by simp
  have dj: "set ?T \<inter> {?p} = {}" "set ?T \<inter> set (?p # ps) = {}" using p(1) inv unfolding as_inv_def by auto
  note tf = tree_frame [OF pinv k1(4) al dj(1) k1(2,3) dj(2)]
  note sp = set_pte_vmap [OF tf(1) va(1) tf(4) [OF r(2)] r0, of 0]
  show ?thesis
  proof (rule that [of "set_pte r 0 k1"])
    show "uvmunmap_loop root a e True k = uvmunmap_loop root (a + PGSIZE) e True (set_pte r 0 k1)"
      using r r0 j a(2) k1(1) by (simp add: uvmunmap_loop.simps [of root a])
    show vm: "vmap (set_pte r 0 k1) root = (vmap k root)(j := 0)" using sp(2) tf(3) va(2) by simp
    show ke: "kernel_end (set_pte r 0 k1) = kernel_end k" using k1(3) by (simp add: set_pte_def)
    show ms: "mset (pt_pages 2 (pmem (set_pte r 0 k1)) root) = mset ?T" using sp(4) tf(2) by simp
    show "changes (pmem k) (pmem (set_pte r 0 k1)) (insert ?p (set ?T))"
      using changes_trans [OF k1(4) sp(3)] tf(2) by simp
    have dp: "data_pages (set_pte r 0 k1) root js = data_pages k root js" using vm jd by auto
    have "distinct (?T @ data_pages k root js @ ?p # ps)"
      using inv p unfolding as_inv_def by auto
    then have "distinct (pt_pages 2 (pmem (set_pte r 0 k1)) root @ data_pages k root js @ ?p # ps)"
      by (rule distinct_pages_mset(1)) (simp add: ms)
    then show "as_inv (set_pte r 0 k1) root js (?p # ps)"
      using evolves_inv [OF sp(1)] inv vm ke jd unfolding as_inv_def dp by auto
  qed
qed

definition clear_range :: "nat \<Rightarrow> nat \<Rightarrow> (nat \<Rightarrow> u64) \<Rightarrow> nat \<Rightarrow> u64" where
  "clear_range n c f = (\<lambda>j. if n \<le> j \<and> j < n + c then 0 else f j)"

lemma clear_range_Suc: "clear_range n (Suc c) f = clear_range (Suc n) c (f(n := 0))"
  by (rule ext) (auto simp: clear_range_def)

lemma uvmunmap_loop_spec:
  assumes "as_inv k root ([n..<n + c] @ js) ps" "unat a = 4096 * n" "unat e = 4096 * (n + c)"
  shows "\<exists>k'. uvmunmap_loop root a e True k = Ok k' \<and>
    as_inv k' root js (rev (data_pages k root [n..<n + c]) @ ps) \<and>
    vmap k' root = clear_range n c (vmap k root) \<and> kernel_end k' = kernel_end k \<and>
    mset (pt_pages 2 (pmem k') root) = mset (pt_pages 2 (pmem k) root) \<and>
    changes (pmem k) (pmem k') (set (data_pages k root [n..<n + c]) \<union> set (pt_pages 2 (pmem k) root))"
  using assms
proof (induction c arbitrary: k n ps a)
  case 0
  then have "\<not> a < e" by (simp add: word_less_nat_alt)
  moreover have "clear_range n 0 (vmap k root) = vmap k root" by (rule ext) (auto simp: clear_range_def)
  ultimately show ?case using 0 by (simp add: uvmunmap_loop.simps)
next
  case (Suc c)
  have upt: "[n..<n + Suc c] = n # [Suc n..<Suc n + c]" by (simp add: upt_conv_Cons del: upt_Suc)
  have lt: "a < e" using Suc.prems(2,3) by (simp add: word_less_nat_alt)
  have inv: "as_inv k root (n # ([Suc n..<Suc n + c] @ js)) ps" using Suc.prems(1) by (simp only: upt append_Cons)
  obtain k1 where k1: "uvmunmap_loop root a e True k = uvmunmap_loop root (a + PGSIZE) e True k1"
    "as_inv k1 root ([Suc n..<Suc n + c] @ js) (PTE2PA (vmap k root n) # ps)" "vmap k1 root = (vmap k root)(n := 0)"
    "kernel_end k1 = kernel_end k"
    "mset (pt_pages 2 (pmem k1) root) = mset (pt_pages 2 (pmem k) root)"
    "changes (pmem k) (pmem k1) (insert (PTE2PA (vmap k root n)) (set (pt_pages 2 (pmem k) root)))"
    using uvmunmap_step [OF inv Suc.prems(2) lt] .
  have "n < NVPN" using inv by (simp add: as_inv_def)
  then have up: "unat (a + PGSIZE) = 4096 * Suc n"
    using Suc.prems(2) by (simp add: PGSIZE_def unat_add_u64 NVPN_def)
  have dp: "data_pages k1 root [Suc n..<Suc n + c] = data_pages k root [Suc n..<Suc n + c]"
    by (rule map_cong) (auto simp: k1(3) simp del: upt_Suc)
  have "unat e = 4096 * (Suc n + c)" using Suc.prems(3) by simp
  from Suc.IH [OF k1(2) up this] obtain k' where k': "uvmunmap_loop root (a + PGSIZE) e True k1 = Ok k'"
    "as_inv k' root js (rev (data_pages k root [Suc n..<Suc n + c]) @ PTE2PA (vmap k root n) # ps)"
    "vmap k' root = clear_range (Suc n) c (vmap k1 root)" "kernel_end k' = kernel_end k1"
    "mset (pt_pages 2 (pmem k') root) = mset (pt_pages 2 (pmem k1) root)"
    "changes (pmem k1) (pmem k') (set (data_pages k root [Suc n..<Suc n + c]) \<union> set (pt_pages 2 (pmem k1) root))"
    unfolding dp by blast
  have T: "set (pt_pages 2 (pmem k1) root) = set (pt_pages 2 (pmem k) root)" using k1(5) by (rule mset_eq_setD)
  have "changes (pmem k) (pmem k') (set (data_pages k root [n..<n + Suc c]) \<union> set (pt_pages 2 (pmem k) root))"
    using changes_trans [OF k1(6) k'(6)] by (rule changes_mono) (auto simp: T upt simp del: upt_Suc)
  moreover have "rev (data_pages k root [n..<n + Suc c]) @ ps =
      rev (data_pages k root [Suc n..<Suc n + c]) @ PTE2PA (vmap k root n) # ps"
    by (simp only: upt list.map rev.simps append_assoc append_Cons append_Nil)
  ultimately show ?case
    using k1 k' by (simp add: clear_range_Suc del: upt_Suc)
qed

section \<open>User memory\<close>

definition pages_of :: "u64 \<Rightarrow> nat" where
  "pages_of sz = (unat sz + 4095) div 4096"

text \<open>User pages stay below the trapframe page.\<close>

definition uvm_inv :: "kst \<Rightarrow> u64 \<Rightarrow> nat \<Rightarrow> u64 list \<Rightarrow> bool" where
  "uvm_inv k root n ps \<longleftrightarrow> as_inv k root [0..<n] ps \<and> n \<le> NVPN - 2 \<and>
     (\<forall>j. n \<le> j \<and> j < NVPN - 2 \<or> NVPN \<le> j \<longrightarrow> \<not> pte_valid (vmap k root j))"

text \<open>All pages of an address space of \<open>n\<close> user pages, with the free list.\<close>

definition own :: "kst \<Rightarrow> u64 \<Rightarrow> nat \<Rightarrow> u64 list \<Rightarrow> u64 multiset" where
  "own k root n ps = mset (pt_pages 2 (pmem k) root @ data_pages k root [0..<n] @ ps)"

text \<open>The user's view of memory.\<close>

definition umem :: "kst \<Rightarrow> u64 \<Rightarrow> u64 \<Rightarrow> u8" where
  "umem k root va = pmem k (PTE2PA (vmap k root (vpn va)) + of_nat (unat va mod 4096))"

definition good_perm :: "u32 \<Rightarrow> bool" where
  "good_perm perm \<longleftrightarrow> (scast perm :: u64) AND NOT 0x3FF = 0 \<and> (scast perm :: u64) OR PTE_V \<noteq> PTE_V"

lemma pte_valid_leaf [simp]: "pte_valid (e OR f OR PTE_V)"
  using pte_valid_PTE_V [of "e OR f"] by (simp add: or.assoc)

lemma good_perm_pte:
  assumes "good_perm perm" "good_page ke p"
  shows "PTE2PA (PA2PTE p OR scast perm OR PTE_V) = p"
    "PTE_FLAGS (PA2PTE p OR scast perm OR PTE_V) = scast perm OR PTE_V"
    "PTE_FLAGS (PA2PTE p OR scast perm OR PTE_V) \<noteq> PTE_V"
proof -
  have f: "(scast perm OR PTE_V) AND NOT 0x3FF = (0 :: u64)"
    using assms(1) by (simp add: good_perm_def bit.conj_disj_distrib2 PTE_V_def)
  show "PTE2PA (PA2PTE p OR scast perm OR PTE_V) = p"
    using PTE2PA_PA2PTE [OF _ _ f, of p] good_page_props [OF assms(2)] by (simp add: page_aligned_def or.assoc)
  show "PTE_FLAGS (PA2PTE p OR scast perm OR PTE_V) = scast perm OR PTE_V"
    using PTE_FLAGS_PA2PTE [OF f, of p] by (simp add: or.assoc)
  then show "PTE_FLAGS (PA2PTE p OR scast perm OR PTE_V) \<noteq> PTE_V"
    using assms(1) by (simp add: good_perm_def)
qed

lemma as_inv_add:
  assumes inv: "as_inv k root js (p # ps)" and inv': "pt_inv 2 k' root ps'"
    and ke: "kernel_end k' = kernel_end k"
    and ms: "mset (pt_pages 2 (pmem k') root @ ps') = mset (pt_pages 2 (pmem k) root @ ps)"
    and vm: "vmap k' root = (vmap k root)(n := v)"
    and n: "n \<notin> set js" "n < NVPN" "pte_valid v" "PTE_FLAGS v \<noteq> PTE_V" "PTE2PA v = p"
  shows "as_inv k' root (n # js) ps'"
proof -
  have dp: "data_pages k' root (n # js) = p # data_pages k root js" using vm n(1,5) by auto
  have "distinct (pt_pages 2 (pmem k) root @ data_pages k root js @ p # ps)" using inv by (simp add: as_inv_def)
  moreover have "mset (pt_pages 2 (pmem k') root @ (p # data_pages k root js) @ ps') =
      mset (pt_pages 2 (pmem k) root @ data_pages k root js @ p # ps)"
    using ms by (simp add: ac_simps)
  ultimately have d: "distinct (pt_pages 2 (pmem k') root @ data_pages k' root (n # js) @ ps')"
    unfolding dp by (rule distinct_pages_mset(1))
  have "good_page (kernel_end k) p"
    using inv kinv_good [of k "p # ps" p] by (simp add: as_inv_def pt_inv_def)
  then have "\<forall>q\<in>set (data_pages k' root (n # js)). good_page (kernel_end k') q"
    using inv unfolding dp ke as_inv_def by auto
  then show ?thesis
    using inv inv' d n vm unfolding as_inv_def by auto
qed

lemma mapped_or_oom_one:
  assumes "mapped_or_oom root k ps n 1 pa perm res"
  obtains (mapped) k' ps' where "res = Ok (0, k')" "evolves root k ps k' ps'"
      "vmap k' root = (vmap k root)(n := PA2PTE pa OR scast perm OR PTE_V)"
  | (oom) k' where "res = Ok (- 1, k')" "evolves root k ps k' []" "vmap k' root = vmap k root"
  using assms map_range_1 [of n] unfolding mapped_or_oom_def by auto

lemma mappages_page:
  assumes "pt_inv 2 k root ps" "n < NVPN" "\<not> pte_valid (vmap k root n)" "unat a = 4096 * n"
  shows "mapped_or_oom root k ps n 1 pa perm (mappages root a PGSIZE pa perm k)"
proof -
  have "a + PGSIZE - 1 = a + 4095" by (simp add: PGSIZE_def)
  moreover have "unat (a + 4095) = 4096 * n + 4095"
    using assms(2,4) by (simp add: NVPN_def unat_add_u64 [of a 4095])
  ultimately have "unat (a + PGSIZE - 1) = 4096 * n + 4095" by (simp only:)
  then have v: "vpn (a + PGSIZE - 1) = n" "vpn a = n" using assms(4) by auto
  have "mapped_or_oom root k ps (vpn a) (Suc (vpn (a + PGSIZE - 1) - vpn a)) pa perm (mappages root a PGSIZE pa perm k)"
  proof (rule mappages_spec [OF assms(1)])
    show "\<forall>j. vpn a \<le> j \<and> j \<le> vpn (a + PGSIZE - 1) \<longrightarrow> \<not> pte_valid (vmap k root j)"
      unfolding v using assms(3) le_antisym by blast
  qed (use assms(2,4) in \<open>simp_all add: PGSIZE_def NVPN_def\<close>)
  then show ?thesis unfolding v by simp
qed

lemma mset_move: "mset (A @ ps') = mset (T @ ps) \<Longrightarrow> mset (A @ (D @ [p]) @ ps') = mset (T @ D @ p # ps)"
  by (simp add: ac_simps)

lemma map_fresh_prepared:
  assumes inv: "as_inv k root js (p # ps)" and k2: "kinv k2 ps" "kernel_end k2 = kernel_end k"
    "changes (pmem k) (pmem k2) {p}"
  shows "pt_inv 2 k2 root ps" "pt_pages 2 (pmem k2) root = pt_pages 2 (pmem k) root"
    "vmap k2 root = vmap k root"
proof -
  have "\<forall>q\<in>{p}. page_aligned q" using pt_inv_aligned [OF as_inv_pt [OF inv], of p] by simp
  moreover have "set (pt_pages 2 (pmem k) root) \<inter> {p} = {}" "set (pt_pages 2 (pmem k) root) \<inter> set ps = {}"
    using inv by (auto simp: as_inv_def)
  ultimately show "pt_inv 2 k2 root ps" "pt_pages 2 (pmem k2) root = pt_pages 2 (pmem k) root"
    "vmap k2 root = vmap k root"
    using tree_frame [OF as_inv_pt [OF inv] k2(3) _ _ k2(1,2)] by blast+
qed

lemma uvm_inv_upd:
  assumes "uvm_inv k root n ps" "as_inv k' root (n # [0..<n]) ps'" "vmap k' root = (vmap k root)(n := v)" "n < NVPN - 2"
  shows "uvm_inv k' root (Suc n) ps'"
  using assms as_inv_perm [OF assms(2), of "[0..<Suc n]"] unfolding uvm_inv_def by auto

text \<open>
  One page of growth: a page \<open>p\<close> taken from the free list and filled is mapped at the next user
  page. If no table page is left the page goes back and the address space is as before.
\<close>

lemma map_fresh:
  assumes inv: "uvm_inv k root n (p # ps)" and n: "n < NVPN - 2" "unat a = 4096 * n" and perm: "good_perm perm"
    and k2: "kinv k2 ps" "kernel_end k2 = kernel_end k" "changes (pmem k) (pmem k2) {p}"
  obtains (mapped) k3 ps3 where "mappages root a PGSIZE p perm k2 = Ok (0, k3)"
      "uvm_inv k3 root (Suc n) ps3" "kernel_end k3 = kernel_end k" "own k3 root (Suc n) ps3 = own k root n (p # ps)"
      "vmap k3 root = (vmap k root)(n := PA2PTE p OR scast perm OR PTE_V)"
      "changes (pmem k2) (pmem k3) (set (pt_pages 2 (pmem k) root @ ps))"
  | (oom) k3 k4 ps4 where "mappages root a PGSIZE p perm k2 = Ok (- 1, k3)" "kfree p k3 = Ok k4"
      "uvm_inv k4 root n ps4" "kernel_end k4 = kernel_end k" "own k4 root n ps4 = own k root n (p # ps)"
      "vmap k4 root = vmap k root"
      "changes (pmem k) (pmem k4) (set (pt_pages 2 (pmem k) root @ p # ps))"
proof -
  let ?T = "pt_pages 2 (pmem k) root" and ?js = "[0..<n]"
  have as: "as_inv k root ?js (p # ps)" using inv by (simp add: uvm_inv_def)
  note prep = map_fresh_prepared [OF as k2]
  have gp: "good_page (kernel_end k) p"
    using as kinv_good [of k "p # ps" p] by (simp add: as_inv_def pt_inv_def)
  have pf: "p \<notin> set ?T" "p \<notin> set (data_pages k root ?js)" "p \<notin> set ps" using as by (auto simp: as_inv_def)
  have nv: "\<not> pte_valid (vmap k2 root n)" using inv n(1) by (simp add: uvm_inv_def prep(3))
  have nn: "n < NVPN" using n(1) by simp
  note gpp = good_perm_pte [OF perm gp]
  from mappages_page [OF prep(1) nn nv n(2), of p perm] show ?thesis
  proof (cases rule: mapped_or_oom_one)
    case (mapped k3 ps3)
    have vm: "vmap k3 root = (vmap k root)(n := PA2PTE p OR scast perm OR PTE_V)" using mapped(3) prep(3) by simp
    have ms: "mset (pt_pages 2 (pmem k3) root @ ps3) = mset (?T @ ps)"
      and ke: "kernel_end k3 = kernel_end k"
      and ch: "changes (pmem k2) (pmem k3) (set (?T @ ps))"
      using mapped(2) k2(2) unfolding evolves_def prep(2) by auto
    have "as_inv k3 root (n # ?js) ps3"
      using as evolves_inv [OF mapped(2)] ke ms vm by (rule as_inv_add) (use nn gpp in auto)
    then have "uvm_inv k3 root (Suc n) ps3" using uvm_inv_upd [OF inv _ vm n(1)] by blast
    moreover have "data_pages k3 root [0..<Suc n] = data_pages k root ?js @ [p]" using vm gpp(1) by simp
    then have "own k3 root (Suc n) ps3 = own k root n (p # ps)"
      unfolding own_def using mset_move [OF ms] by (simp only:)
    ultimately show ?thesis using that(1) mapped(1) ke vm ch by blast
  next
    case (oom k3)
    have ms: "mset (pt_pages 2 (pmem k3) root) = mset (?T @ ps)"
      and ke: "kernel_end k3 = kernel_end k"
      and ch: "changes (pmem k2) (pmem k3) (set (?T @ ps))" and ki: "kinv k3 []" and pi: "pt_inv 2 k3 root []"
      using oom(2) k2(2) unfolding evolves_def prep(2) pt_inv_def by auto
    have sT: "set (pt_pages 2 (pmem k3) root) = set (?T @ ps)" using ms by (rule mset_eq_setD)
    obtain k4 where k4: "kfree p k3 = Ok k4" "kinv k4 [p]" "kernel_end k4 = kernel_end k3"
      "changes (pmem k3) (pmem k4) {p}" using kfree_changes [OF ki, of p] gp ke by auto
    have tf: "pt_inv 2 k4 root [p]" "pt_pages 2 (pmem k4) root = pt_pages 2 (pmem k3) root"
      "vmap k4 root = vmap k3 root"
      using tree_frame [OF pi k4(4) _ _ k4(2,3)] pf sT good_page_props(1) [OF gp] by auto
    have vm: "vmap k4 root = vmap k root" using tf(3) oom(3) prep(3) by simp
    have own: "own k4 root n [p] = own k root n (p # ps)"
      unfolding own_def using ms vm tf(2) by (simp add: ac_simps)
    then have "distinct (pt_pages 2 (pmem k4) root @ data_pages k4 root ?js @ [p])"
      using as distinct_pages_mset(1) unfolding own_def as_inv_def by metis
    then have "as_inv k4 root ?js [p]"
      using as tf(1) vm k4(3) ke unfolding as_inv_def by auto
    then have "uvm_inv k4 root n [p]" using inv vm by (simp add: uvm_inv_def)
    moreover have "changes (pmem k) (pmem k4) (set (?T @ p # ps))"
      using changes_trans [OF changes_trans [OF k2(3) ch] k4(4)] by (rule changes_mono) auto
    ultimately show ?thesis using that(2) oom(1) k4 ke own vm by auto
  qed
qed

lemma unat_PGROUNDUP_pages: "pages_of sz \<le> NVPN \<Longrightarrow> unat (PGROUNDUP sz) = 4096 * pages_of sz"
proof -
  assume "pages_of sz \<le> NVPN"
  then have "unat sz \<le> 274877906944" unfolding pages_of_def NVPN_def by linarith
  then show ?thesis by (simp add: unat_PGROUNDUP pages_of_def)
qed

lemma clear_range_other: "j < n \<or> n + c \<le> j \<Longrightarrow> clear_range n c f j = f j"
  by (auto simp: clear_range_def)

lemma uvm_inv_data:
  assumes "uvm_inv k root n ps" "j < n"
  shows "page_aligned (PTE2PA (vmap k root j))" "PTE2PA (vmap k root j) \<notin> set (pt_pages 2 (pmem k) root @ ps)"
    "\<And>i. i < n \<Longrightarrow> i \<noteq> j \<Longrightarrow> PTE2PA (vmap k root i) \<noteq> PTE2PA (vmap k root j)"
proof -
  have as: "as_inv k root [0..<n] ps" using assms(1) by (simp add: uvm_inv_def)
  then show "page_aligned (PTE2PA (vmap k root j))" 
    using assms(2) good_page_props(1) [of "kernel_end k"] by (simp add: as_inv_def)
  show "PTE2PA (vmap k root j) \<notin> set (pt_pages 2 (pmem k) root @ ps)"
  proof -
    have "PTE2PA (vmap k root j) \<in> set (data_pages k root [0..<n])" using assms(2) by simp
    moreover have "set (pt_pages 2 (pmem k) root @ ps) \<inter> set (data_pages k root [0..<n]) = {}"
      using as unfolding as_inv_def distinct_append set_append by blast
    ultimately show ?thesis by blast
  qed
  show "PTE2PA (vmap k root i) \<noteq> PTE2PA (vmap k root j)" if "i < n" "i \<noteq> j" for i
    using as that assms(2) by (auto simp: as_inv_def distinct_map dest: inj_onD)
qed

lemma umem_frame:
  assumes "changes (pmem k) (pmem k') S" "\<forall>p\<in>S. page_aligned p"
    "page_aligned (PTE2PA (vmap k root (vpn va)))" "PTE2PA (vmap k root (vpn va)) \<notin> S"
    "vmap k' root (vpn va) = vmap k root (vpn va)"
  shows "umem k' root va = umem k root va"
  unfolding umem_def assms(5) by (rule changesD [OF assms(1-4)]) simp

lemma changes_trans_same: "changes m m' S \<Longrightarrow> changes m' m'' S \<Longrightarrow> changes m m'' S"
  using changes_trans [of m m' S m'' S] by simp

section \<open>Shrinking\<close>

text \<open>\<open>shrunk\<close>: the pages from \<open>a\<close> up are back on the free list, the rest is untouched.\<close>

definition shrunk :: "u64 \<Rightarrow> kst \<Rightarrow> nat \<Rightarrow> u64 list \<Rightarrow> kst \<Rightarrow> nat \<Rightarrow> u64 list \<Rightarrow> bool" where
  "shrunk root k n ps k' a ps' \<longleftrightarrow> uvm_inv k' root a ps' \<and> kernel_end k' = kernel_end k \<and>
     own k' root a ps' = own k root n ps \<and>
     (\<forall>j. j < a \<or> NVPN - 2 \<le> j \<longrightarrow> vmap k' root j = vmap k root j) \<and>
     (\<forall>va. vpn va < a \<longrightarrow> umem k' root va = umem k root va) \<and>
     changes (pmem k) (pmem k') (set_mset (own k root n ps))"

lemma own_set: "set_mset (own k root n ps) = set (pt_pages 2 (pmem k) root @ data_pages k root [0..<n] @ ps)"
  by (simp add: own_def)

lemma uvmunmap_spec:
  assumes inv: "uvm_inv k root n ps" and a: "unat va = 4096 * a" "a \<le> n" "unat npages = n - a"
  shows "\<exists>k'. uvmunmap root va npages True k = Ok k' \<and>
    shrunk root k n ps k' a (rev (data_pages k root [a..<n]) @ ps)"
proof -
  let ?T = "pt_pages 2 (pmem k) root" and ?F = "data_pages k root [a..<n]"
  have n: "n \<le> NVPN" using inv by (auto simp: uvm_inv_def)
  have "unat (npages * PGSIZE) = 4096 * (n - a)"
    using a(3) n by (simp add: PGSIZE_def unat_word_ariths NVPN_def)
  then have e: "unat (va + npages * PGSIZE) = 4096 * (a + (n - a))"
    using a n by (subst unat_add_u64) (simp_all add: NVPN_def)
  have up: "[a..<a + (n - a)] = [a..<n]" using a(2) by simp
  have split: "[0..<n] = [0..<a] @ [a..<n]" using a(2) by (metis le_add_diff_inverse upt_add_eq_append zero_le)
  have "mset ([a..<n] @ [0..<a]) = mset ([0..<a] @ [a..<n])" by (simp only: mset_append add.commute)
  then have "as_inv k root ([a..<a + (n - a)] @ [0..<a]) ps"
    using inv as_inv_perm unfolding up uvm_inv_def split by blast
  from uvmunmap_loop_spec [OF this a(1) e] obtain k' where k':
    "uvmunmap_loop root va (va + npages * PGSIZE) True k = Ok k'"
    "as_inv k' root [0..<a] (rev ?F @ ps)" "vmap k' root = clear_range a (n - a) (vmap k root)"
    "kernel_end k' = kernel_end k" "mset (pt_pages 2 (pmem k') root) = mset ?T"
    "changes (pmem k) (pmem k') (set ?F \<union> set ?T)" unfolding up by blast
  have vm: "\<And>j. j < a \<or> n \<le> j \<Longrightarrow> vmap k' root j = vmap k root j"
    unfolding k'(3) using a(2) by (intro clear_range_other) auto
  have "uvm_inv k' root a (rev ?F @ ps)"
    unfolding uvm_inv_def
  proof (intro conjI allI impI)
    show "as_inv k' root [0..<a] (rev ?F @ ps)" by (rule k'(2))
    show "a \<le> NVPN - 2" using a(2) inv by (simp add: uvm_inv_def)
    fix j assume j: "a \<le> j \<and> j < NVPN - 2 \<or> NVPN \<le> j"
    then show "\<not> pte_valid (vmap k' root j)"
      using inv a(2) unfolding k'(3) clear_range_def uvm_inv_def by auto
  qed
  moreover have "own k' root a (rev ?F @ ps) = own k root n ps"
  proof -
    have dp: "data_pages k' root [0..<a] = data_pages k root [0..<a]" using vm by simp
    have "data_pages k root [0..<n] = data_pages k root [0..<a] @ ?F"
      by (simp only: split map_append)
    then show ?thesis unfolding own_def dp using k'(5)
      by (simp only: mset_append mset_rev ac_simps)
  qed
  moreover have "umem k' root v = umem k root v" if v: "vpn v < a" for v
  proof (rule umem_frame [OF k'(6)])
    have vn: "vpn v < n" using v a(2) by simp
    note ud = uvm_inv_data [OF inv vn]
    show "page_aligned (PTE2PA (vmap k root (vpn v)))" by (rule ud(1))
    show "PTE2PA (vmap k root (vpn v)) \<notin> set ?F \<union> set ?T" using ud(2,3) v by force
    show "vmap k' root (vpn v) = vmap k root (vpn v)" using vm v by simp
    show "\<forall>p\<in>set ?F \<union> set ?T. page_aligned p"
      using uvm_inv_data(1) [OF inv] inv pt_inv_aligned by (auto simp: uvm_inv_def as_inv_def)
  qed
  moreover have "changes (pmem k) (pmem k') (set_mset (own k root n ps))"
    using k'(6) by (rule changes_mono) (auto simp: own_set)
  moreover have "va mod PGSIZE = 0" using a(1) by (simp add: aligned_mod_PGSIZE)
  moreover have "n \<le> NVPN - 2" using inv by (simp add: uvm_inv_def)
  ultimately show ?thesis using k'(1,4) vm unfolding uvmunmap_def shrunk_def by auto
qed

lemma scast_ucast_small:
  assumes "unat x < 2147483648"
  shows "(scast (ucast (x :: u64) :: u32) :: u64) = x"
proof (rule bit_word_eqI)
  fix n assume n: "n < LENGTH(64)"
  have x: "x = take_bit 31 x"
    using assms by (simp only: word_unat_eq_iff unsigned_take_bit_eq) (simp add: take_bit_nat_eq_self)
  have hi: "\<not> bit x j" if "31 \<le> j" for j
    using that by (subst x) (simp add: bit_take_bit_iff)
  show "bit (scast (ucast x :: u32) :: u64) n = bit x n"
    using n hi by (cases "n < 31") (simp_all add: bit_signed_iff bit_unsigned_iff min_def)
qed

lemma uvmdealloc_spec:
  assumes inv: "uvm_inv k root (pages_of oldsz) ps" and lt: "newsz \<le> oldsz"
  shows "\<exists>k' ps'. uvmdealloc root oldsz newsz k = Ok (newsz, k') \<and>
    shrunk root k (pages_of oldsz) ps k' (pages_of newsz) ps'"
proof -
  have mono: "pages_of newsz \<le> pages_of oldsz"
    using lt by (simp add: pages_of_def word_le_nat_alt div_le_mono)
  have n: "pages_of oldsz \<le> NVPN" "pages_of newsz \<le> NVPN" using inv mono by (auto simp: uvm_inv_def)
  note up = unat_PGROUNDUP_pages [OF n(1)] unat_PGROUNDUP_pages [OF n(2)]
  have same: "shrunk root k (pages_of oldsz) ps k (pages_of oldsz) ps"
    using inv by (simp add: shrunk_def)
  show ?thesis
  proof (cases "newsz = oldsz \<or> pages_of newsz = pages_of oldsz")
    case True
    then show ?thesis
      using same lt up unfolding uvmdealloc_def by (auto simp: word_less_nat_alt)
  next
    case False
    let ?d = "(PGROUNDUP oldsz - PGROUNDUP newsz) div PGSIZE"
    have "unat ?d = pages_of oldsz - pages_of newsz"
      using up mono by (simp add: PGSIZE_def unat_div unat_sub word_le_nat_alt flip: diff_mult_distrib2)
    moreover from this have "scast (ucast ?d :: u32) = ?d"
      using n by (intro scast_ucast_small) (simp add: NVPN_def)
    ultimately have "unat (scast (ucast ?d :: u32) :: u64) = pages_of oldsz - pages_of newsz" by simp
    from uvmunmap_spec [OF inv up(2) mono this] obtain k' ps' where
      "uvmunmap root (PGROUNDUP newsz) (scast (ucast ?d :: u32)) True k = Ok k'"
      "shrunk root k (pages_of oldsz) ps k' (pages_of newsz) ps'" by blast
    moreover have "\<not> oldsz \<le> newsz" "PGROUNDUP newsz < PGROUNDUP oldsz"
      using False lt up mono by (auto simp: word_less_nat_alt)
    ultimately show ?thesis by (auto simp: uvmdealloc_def Let_def)
  qed
qed

section \<open>Growing\<close>

text \<open>
  \<open>grown\<close>: the pages from \<open>n\<close> to \<open>n'\<close> are mapped with the given flags, the rest of the address
  space and the bytes in it are untouched, and no page is lost.
\<close>

definition grown :: "u64 \<Rightarrow> (nat \<Rightarrow> u64) \<Rightarrow> kst \<Rightarrow> nat \<Rightarrow> u64 list \<Rightarrow> kst \<Rightarrow> nat \<Rightarrow> u64 list \<Rightarrow> bool" where
  "grown root flags k n ps k' n' ps' \<longleftrightarrow> uvm_inv k' root n' ps' \<and> kernel_end k' = kernel_end k \<and>
     own k' root n' ps' = own k root n ps \<and>
     (\<forall>j. j < n \<or> NVPN - 2 \<le> j \<longrightarrow> vmap k' root j = vmap k root j) \<and>
     (\<forall>j. n \<le> j \<and> j < n' \<longrightarrow> PTE_FLAGS (vmap k' root j) = flags j) \<and>
     (\<forall>va. vpn va < n \<longrightarrow> umem k' root va = umem k root va) \<and>
     changes (pmem k) (pmem k') (set_mset (own k root n ps))"

lemma grown_refl: "uvm_inv k root n ps \<Longrightarrow> grown root flags k n ps k n ps"
  by (auto simp: grown_def)

lemma grown_trans:
  assumes "grown root flags k n ps k1 n1 ps1" "grown root flags k1 n1 ps1 k2 n2 ps2" "n \<le> n1" "n1 \<le> n2"
  shows "grown root flags k n ps k2 n2 ps2"
  unfolding grown_def
proof (intro conjI allI impI)
  note g1 = assms(1) [unfolded grown_def] and g2 = assms(2) [unfolded grown_def]
  show "uvm_inv k2 root n2 ps2" "kernel_end k2 = kernel_end k" "own k2 root n2 ps2 = own k root n ps"
    using g1 g2 by simp_all
  show "changes (pmem k) (pmem k2) (set_mset (own k root n ps))"
    using g1 g2 changes_trans_same [of "pmem k" "pmem k1" _ "pmem k2"] by simp
  fix j
  show "vmap k2 root j = vmap k root j" if "j < n \<or> NVPN - 2 \<le> j" using that g1 g2 assms(3,4) by auto
  show "PTE_FLAGS (vmap k2 root j) = flags j" if "n \<le> j \<and> j < n2"
    using that g1 g2 by (cases "j < n1") auto
next
  fix va assume "vpn va < n"
  then show "umem k2 root va = umem k root va"
    using assms unfolding grown_def by (metis order.strict_trans2)
qed

lemma shrunk_grown_trans:
  assumes "grown root flags k n ps k1 n1 ps1" "shrunk root k1 n1 ps1 k2 n0 ps2" "n0 \<le> n" "n \<le> n1"
  shows "shrunk root k n ps k2 n0 ps2"
  unfolding shrunk_def
proof (intro conjI allI impI)
  note g1 = assms(1) [unfolded grown_def] and g2 = assms(2) [unfolded shrunk_def]
  show "uvm_inv k2 root n0 ps2" "kernel_end k2 = kernel_end k" "own k2 root n0 ps2 = own k root n ps"
    using g1 g2 by simp_all
  show "changes (pmem k) (pmem k2) (set_mset (own k root n ps))"
    using g1 g2 changes_trans_same [of "pmem k" "pmem k1" _ "pmem k2"] by simp
  show "umem k2 root va = umem k root va" if "vpn va < n0" for va
    using that g1 g2 assms(3) by (metis order.strict_trans2)
  fix j
  show "vmap k2 root j = vmap k root j" if "j < n0 \<or> NVPN - 2 \<le> j"
    using that g1 g2 assms(3,4) by auto
qed

lemma shrunk_trans:
  assumes "shrunk root k n ps k1 n1 ps1" "shrunk root k1 n1 ps1 k2 n0 ps2" "n0 \<le> n1"
  shows "shrunk root k n ps k2 n0 ps2"
  unfolding shrunk_def
proof (intro conjI allI impI)
  note g1 = assms(1) [unfolded shrunk_def] and g2 = assms(2) [unfolded shrunk_def]
  show "uvm_inv k2 root n0 ps2" "kernel_end k2 = kernel_end k" "own k2 root n0 ps2 = own k root n ps"
    using g1 g2 by simp_all
  show "changes (pmem k) (pmem k2) (set_mset (own k root n ps))"
    using g1 g2 changes_trans_same [of "pmem k" "pmem k1" _ "pmem k2"] by simp
  show "umem k2 root va = umem k root va" if "vpn va < n0" for va
    using that g1 g2 assms(3) by (metis order.strict_trans2)
  fix j
  show "vmap k2 root j = vmap k root j" if "j < n0 \<or> NVPN - 2 \<le> j"
    using that g1 g2 assms(3) by auto
qed

lemma own_aligned:
  assumes "uvm_inv k root n ps" "p \<in> set_mset (own k root n ps)"
  shows "page_aligned p"
proof (cases "p \<in> set (pt_pages 2 (pmem k) root @ ps)")
  case True
  then show ?thesis using pt_inv_aligned assms(1) unfolding uvm_inv_def as_inv_def by blast
next
  case False
  then obtain j where "j < n" "p = PTE2PA (vmap k root j)" using assms(2) by (auto simp: own_set)
  then show ?thesis using uvm_inv_data(1) [OF assms(1)] by simp
qed

lemma page_offset_in_page: "in_page p (p + of_nat (x mod 4096))"
  by simp

text \<open>One page of growth with the allocated page prepared in any way.\<close>

lemma grow_one:
  assumes inv: "uvm_inv k root n (p # ps)" and n: "n < NVPN - 2" "unat a = 4096 * n" and perm: "good_perm perm"
    and k2: "kinv k2 ps" "kernel_end k2 = kernel_end k" "changes (pmem k) (pmem k2) {p}"
    and fl: "flags n = scast perm OR PTE_V"
  obtains (mapped) k3 ps3 where "mappages root a PGSIZE p perm k2 = Ok (0, k3)"
      "grown root flags k n (p # ps) k3 (Suc n) ps3"
      "\<And>va. vpn va = n \<Longrightarrow> umem k3 root va = pmem k2 (p + of_nat (unat va mod 4096))"
  | (oom) k3 k4 ps4 where "mappages root a PGSIZE p perm k2 = Ok (- 1, k3)" "kfree p k3 = Ok k4"
      "shrunk root k n (p # ps) k4 n ps4"
  using inv n perm k2
proof (cases rule: map_fresh)
  case (mapped k3 ps3)
  let ?S = "set (pt_pages 2 (pmem k) root @ ps)"
  have as: "as_inv k root [0..<n] (p # ps)" using inv by (simp add: uvm_inv_def)
  have gp: "good_page (kernel_end k) p"
    using as kinv_good [of k "p # ps" p] by (simp add: as_inv_def pt_inv_def)
  note gpp = good_perm_pte [OF perm gp]
  have al: "\<forall>q\<in>?S. page_aligned q" using own_aligned [OF inv] by (auto simp: own_set)
  have pS: "p \<notin> ?S" using as by (auto simp: as_inv_def)
  have ch: "changes (pmem k) (pmem k3) (insert p ?S)" using changes_trans [OF k2(3) mapped(6)] by simp
  have "grown root flags k n (p # ps) k3 (Suc n) ps3"
    unfolding grown_def
  proof (intro conjI allI impI)
    fix j assume "j < n \<or> NVPN - 2 \<le> j"
    then have "j \<noteq> n" using n(1) by auto
    then show "vmap k3 root j = vmap k root j" unfolding mapped(5) by (rule fun_upd_other)
  next
    fix j assume "n \<le> j \<and> j < Suc n"
    then have "j = n" by simp
    then show "PTE_FLAGS (vmap k3 root j) = flags j" using mapped(5) gpp(2) fl by simp
  next
    fix va :: u64 assume v: "vpn va < n"
    note ud = uvm_inv_data [OF inv v]
    show "umem k3 root va = umem k root va"
    proof (rule umem_frame [OF ch])
      show "\<forall>q\<in>insert p ?S. page_aligned q" using al good_page_props(1) [OF gp] by blast
      show "PTE2PA (vmap k root (vpn va)) \<notin> insert p ?S" using ud(2) by simp
    qed (use ud(1) mapped(5) v in auto)
  next
    show "changes (pmem k) (pmem k3) (set_mset (own k root n (p # ps)))"
      using ch by (rule changes_mono) (auto simp: own_set)
  qed (fact mapped(2,3,4))+
  moreover have "umem k3 root va = pmem k2 (p + of_nat (unat va mod 4096))" if "vpn va = n" for va
    unfolding umem_def that mapped(5) fun_upd_same gpp(1)
    by (rule changesD [OF mapped(6) al good_page_props(1) [OF gp] pS page_offset_in_page])
  ultimately show ?thesis using that(1) mapped(1) by blast
next
  case (oom k3 k4 ps4)
  have al: "\<forall>q\<in>set (pt_pages 2 (pmem k) root @ p # ps). page_aligned q"
    using own_aligned [OF inv] by (auto simp: own_set)
  have "umem k4 root va = umem k root va" if "vpn va < n" for va
    by (rule umem_frame [OF oom(7) al uvm_inv_data(1,2) [OF inv that]]) (simp only: oom(6))
  moreover have "changes (pmem k) (pmem k4) (set_mset (own k root n (p # ps)))"
    using oom(7) by (rule changes_mono) (auto simp: own_set)
  ultimately have "shrunk root k n (p # ps) k4 n ps4" 
    unfolding shrunk_def using oom(3-6) by simp
  then show ?thesis using that(2) oom(1,2) by blast
qed

lemma kalloc_prepared:
  assumes ki: "kinv k (p # ps)" and ka: "kalloc k = (r, k1)" and ch: "changes (pmem k1) m {p}"
  shows "r = p" "p \<noteq> 0" "kinv (k1\<lparr>pmem := m\<rparr>) ps" "kernel_end (k1\<lparr>pmem := m\<rparr>) = kernel_end k"
    "changes (pmem k) (pmem (k1\<lparr>pmem := m\<rparr>)) {p}"
proof -
  note kc = kalloc_changes [OF ki ka]
  show "r = p" "p \<noteq> 0" "kernel_end (k1\<lparr>pmem := m\<rparr>) = kernel_end k" using kc by simp_all
  have "page_aligned p" "p \<notin> set ps" using ki good_page_props(1) by (auto simp: kinv_def)
  then show "kinv (k1\<lparr>pmem := m\<rparr>) ps" using kinv_changes [OF kc(3) ch] by simp
  show "changes (pmem k) (pmem (k1\<lparr>pmem := m\<rparr>)) {p}" using changes_trans_same [OF kc(5) ch] by simp
qed

lemma pages_of_exact: "unat a = 4096 * n \<Longrightarrow> pages_of a = n"
  by (simp add: pages_of_def)

lemma less_pages_of: "unat a = 4096 * n \<Longrightarrow> a < sz \<longleftrightarrow> n < pages_of sz"
  by (auto simp: pages_of_def word_less_nat_alt)

lemma uvmdealloc_back:
  assumes "uvm_inv k root n ps" "unat a = 4096 * n" "unat oldsz = 4096 * n0" "n0 \<le> n"
  shows "\<exists>k' ps'. uvmdealloc root a oldsz k = Ok (oldsz, k') \<and> shrunk root k n ps k' n0 ps'"
  using uvmdealloc_spec [of k root a ps oldsz] assms pages_of_exact [OF assms(2)] pages_of_exact [OF assms(3)]
  by (simp add: word_le_nat_alt)

definition alloc_outcome ::
  "u64 \<Rightarrow> (nat \<Rightarrow> u64) \<Rightarrow> kst \<Rightarrow> nat \<Rightarrow> u64 list \<Rightarrow> nat \<Rightarrow> u64 \<Rightarrow> (u64 \<times> kst) kres \<Rightarrow> bool" where
  "alloc_outcome root flags k n ps n0 newsz res \<longleftrightarrow>
     (\<exists>k' ps'. res = Ok (newsz, k') \<and> grown root flags k n ps k' (pages_of newsz) ps' \<and>
        (\<forall>va. n \<le> vpn va \<and> vpn va < pages_of newsz \<longrightarrow> umem k' root va = 0)) \<or>
     (\<exists>k' ps'. res = Ok (0, k') \<and> shrunk root k n ps k' n0 ps')"

lemma alloc_outcome_step:
  assumes g: "grown root flags k n ps k3 (Suc n) ps3" and z: "\<forall>va. vpn va = n \<longrightarrow> umem k3 root va = 0"
    and o: "alloc_outcome root flags k3 (Suc n) ps3 n0 newsz res" and n: "n < pages_of newsz" "n0 \<le> n"
  shows "alloc_outcome root flags k n ps n0 newsz res"
  using o [unfolded alloc_outcome_def]
proof (elim disjE exE conjE)
  fix k' ps' assume r: "res = Ok (newsz, k')" and g2: "grown root flags k3 (Suc n) ps3 k' (pages_of newsz) ps'"
    and z2: "\<forall>va. Suc n \<le> vpn va \<and> vpn va < pages_of newsz \<longrightarrow> umem k' root va = 0"
  have "umem k' root va = 0" if "n \<le> vpn va \<and> vpn va < pages_of newsz" for va
    using that z z2 g2 by (cases "vpn va = n") (auto simp: grown_def)
  then show ?thesis using r grown_trans [OF g g2] n unfolding alloc_outcome_def by auto
next
  fix k' ps' assume "res = Ok (0, k')" "shrunk root k3 (Suc n) ps3 k' n0 ps'"
  then show ?thesis using shrunk_grown_trans [OF g _ n(2)] unfolding alloc_outcome_def by auto
qed

lemma uvmalloc_loop_spec:
  assumes "uvm_inv k root n ps" "n0 \<le> n" "unat a = 4096 * n" "unat oldsz = 4096 * n0"
    "n \<le> pages_of newsz" "pages_of newsz \<le> NVPN - 2" "good_perm (ucast (PTE_R OR PTE_U) OR xperm)"
  shows "alloc_outcome root (\<lambda>_. scast (ucast (PTE_R OR PTE_U) OR xperm) OR PTE_V) k n ps n0 newsz
    (uvmalloc_loop root a oldsz newsz xperm k)"
  using assms
proof (induction "pages_of newsz - n" arbitrary: k n ps a)
  case 0
  then have "n = pages_of newsz" by simp
  moreover have "\<not> a < newsz" using less_pages_of [OF 0(4), of newsz] 0(1) by simp
  ultimately show ?case
    using grown_refl [OF 0(2)] unfolding alloc_outcome_def by (auto simp: uvmalloc_loop.simps)
next
  case (Suc d)
  let ?perm = "ucast (PTE_R OR PTE_U) OR xperm :: u32"
  let ?flags = "\<lambda>_ :: nat. scast ?perm OR PTE_V :: u64"
  have n: "n < pages_of newsz" "n < NVPN - 2" using Suc.hyps(2) Suc.prems(6) by auto
  have lt: "a < newsz" using less_pages_of [OF Suc.prems(3)] n(1) by simp
  have ki: "kinv k ps" using Suc.prems(1) by (simp add: uvm_inv_def as_inv_def pt_inv_def)
  show ?case
  proof (cases ps)
    case Nil
    then have "kalloc k = (0, k)" using ki kalloc_empty_kinv by simp
    then show ?thesis
      using uvmdealloc_back [OF Suc.prems(1,3,4,2)] lt unfolding alloc_outcome_def
      by (auto simp: uvmalloc_loop.simps [of root a])
  next
    case (Cons p ps1)
    obtain r k1 where k1: "kalloc k = (r, k1)" by fastforce
    have zp: "zero_page p k1 = k1\<lparr>pmem := pmem (zero_page p k1)\<rparr>" by (simp add: zero_page_def)
    note prep = kalloc_prepared [OF ki [unfolded Cons] k1 changes_zero_page, folded zp]
    note inv = Suc.prems(1) [unfolded Cons]
    have zero: "pmem (zero_page p k1) (p + of_nat (x mod 4096)) = 0" for x
      by (simp add: zero_page_def memset_eq)
    from inv n(2) Suc.prems(3,7) prep(3-5) refl show ?thesis
    proof (cases rule: grow_one [where flags = ?flags])
      case (mapped k3 ps3)
      have inv3: "uvm_inv k3 root (Suc n) ps3" using mapped(2) by (simp add: grown_def)
      have up: "unat (a + PGSIZE) = 4096 * Suc n"
        using Suc.prems(3) n(2) by (simp add: PGSIZE_def unat_add_u64 NVPN_def)
      have step: "uvmalloc_loop root a oldsz newsz xperm k = uvmalloc_loop root (a + PGSIZE) oldsz newsz xperm k3"
        using lt k1 prep(1,2) mapped(1) by (simp add: uvmalloc_loop.simps [of root a])
      have IH: "alloc_outcome root ?flags k3 (Suc n) ps3 n0 newsz (uvmalloc_loop root (a + PGSIZE) oldsz newsz xperm k3)"
        using Suc.hyps(2) Suc.prems n(1) by (intro Suc.hyps(1) [OF _ inv3]) (auto simp: up)
      have "\<forall>va. vpn va = n \<longrightarrow> umem k3 root va = 0" using mapped(3) zero by simp
      then show ?thesis
        unfolding step Cons by (rule alloc_outcome_step [OF mapped(2) _ IH n(1) Suc.prems(2)])
    next
      case (oom k3 k4 ps4)
      have inv4: "uvm_inv k4 root n ps4" using oom(3) by (simp add: shrunk_def)
      obtain k' ps' where "uvmdealloc root a oldsz k4 = Ok (oldsz, k')" "shrunk root k4 n ps4 k' n0 ps'"
        using uvmdealloc_back [OF inv4 Suc.prems(3,4,2)] by blast
      then show ?thesis
        using lt k1 prep(1,2) oom(1,2) shrunk_trans [OF oom(3) _ Suc.prems(2)] Cons
        unfolding alloc_outcome_def by (auto simp: uvmalloc_loop.simps [of root a])
    qed
  qed
qed

end
