(* ===== verification/Vm_Space.thy ===== *)
theory Vm_Space
  imports Vm_User
begin

text \<open>
  Whole address spaces: \<open>freewalk\<close> and \<open>uvmfree\<close> give back every page, \<open>uvmcreate\<close> makes an empty
  address space, operations on one address space leave every other one alone, and \<open>uvmcopy\<close>
  duplicates the parent's pages and permissions.
\<close>

unbundle bit_operations_syntax

section \<open>Freeing a page table\<close>

lemma bit_PX: "bit (PX j va) b \<longleftrightarrow> b < 9 \<and> bit va (12 + 9 * j + b)"
  unfolding PX_def mask9 by (auto simp: bit_simps PXSHIFT_def)

lemma PX_choose:
  assumes "l < 2" "i < 512"
  shows "\<exists>va'. unat (PX (Suc l) va') = i \<and> (\<forall>j \<le> l. PX j va' = PX j va)"
proof -
  let ?n = "12 + 9 * Suc l"
  define va' where "va' = take_bit ?n va OR push_bit ?n (of_nat i :: u64)"
  have ib: "\<not> bit (of_nat i :: u64) b" if "9 \<le> b" for b
  proof -
    have "of_nat i = (take_bit 9 (of_nat i) :: u64)" using assms(2) by (simp add: take_bit_of_nat take_bit_nat_eq_self)
    then show ?thesis using that by (metis bit_take_bit_iff not_le)
  qed
  have "PX (Suc l) va' = of_nat i"
  proof (rule bit_word_eqI)
    fix b assume "b < LENGTH(64)"
    show "bit (PX (Suc l) va') b = bit (of_nat i :: u64) b"
      using ib [of b] assms(1) by (cases "b < 9") (auto simp: bit_PX va'_def bit_simps)
  qed
  moreover have "PX j va' = PX j va" if "j \<le> l" for j
  proof (rule bit_word_eqI)
    fix b assume "b < LENGTH(64)"
    show "bit (PX j va') b = bit (PX j va) b"
      using that assms(1) by (auto simp: bit_PX va'_def bit_simps)
  qed
  ultimately show ?thesis using assms(2) by (intro exI [of _ va']) simp
qed

definition no_leaf :: "nat \<Rightarrow> mem \<Rightarrow> u64 \<Rightarrow> bool" where
  "no_leaf l m pt \<longleftrightarrow> (\<forall>va. \<not> pte_valid (pte_at l m pt va))"

lemma pte_at_PX_le: "(\<And>j. j \<le> l \<Longrightarrow> PX j va = PX j va') \<Longrightarrow> pte_at l m pt va = pte_at l m pt va'"
  by (induction l arbitrary: pt) (simp_all add: Let_def)

lemma no_leaf_child:
  assumes "no_leaf (Suc l) m pt" "l < 2" "i < 512" "pte_valid (ent m pt i)"
  shows "no_leaf l m (PTE2PA (ent m pt i))"
  unfolding no_leaf_def
proof
  fix va
  obtain va' where va': "unat (PX (Suc l) va') = i" "\<forall>j \<le> l. PX j va' = PX j va"
    using PX_choose [OF assms(2,3)] by blast
  have "\<not> pte_valid (pte_at (Suc l) m pt va')" using assms(1) unfolding no_leaf_def by blast
  then have "\<not> pte_valid (pte_at l m (PTE2PA (ent m pt i)) va')" using va'(1) assms(4) by simp
  then show "\<not> pte_valid (pte_at l m (PTE2PA (ent m pt i)) va)"
    using pte_at_PX_le [of l va' va] va'(2) by simp
qed

lemma no_leaf_0: "no_leaf 0 m pt \<Longrightarrow> i < 512 \<Longrightarrow> \<not> pte_valid (ent m pt i)"
proof -
  assume a: "no_leaf 0 m pt" "i < 512"
  have "unat (of_nat (4096 * i) :: u64) = 4096 * i" using a(2) by (intro unat_of_nat_u64) simp
  then have "unat (PX 0 (of_nat (4096 * i))) = i" using a(2) by (simp only: PX_vpn) simp
  moreover have "\<not> pte_valid (pte_at 0 m pt (of_nat (4096 * i)))" using a(1) unfolding no_leaf_def by blast
  ultimately show ?thesis by (simp del: of_nat_mult)
qed

lemma freewalk_loop_empty:
  assumes "\<And>j. i \<le> j \<Longrightarrow> j < 512 \<Longrightarrow> \<not> pte_valid (ent (pmem k) pt j)"
  shows "freewalk_loop i pt k = Some (kfree pt k)"
  using assms
proof (induction "512 - i" arbitrary: i)
  case 0
  then show ?case by (simp add: freewalk_loop.simps)
next
  case (Suc d)
  then have "i < 512" "\<not> pte_valid (load64 (pmem k) (pt + 8 * of_nat i))" by (auto simp: ent_def)
  moreover have "freewalk_loop (Suc i) pt k = Some (kfree pt k)" using Suc by (intro Suc.hyps(1)) auto
  ultimately show ?case by (simp add: freewalk_loop.simps [of i] Let_def)
qed

definition freed :: "kst \<Rightarrow> u64 list \<Rightarrow> u64 list \<Rightarrow> kst kres option \<Rightarrow> bool" where
  "freed k pages ps res \<longleftrightarrow> (\<exists>k' ps'. res = Some (Ok k') \<and> kinv k' ps' \<and> mset ps' = mset (pages @ ps) \<and>
     kernel_end k' = kernel_end k \<and> changes (pmem k) (pmem k') (set pages))"

lemma freewalk_leaf_table:
  assumes inv: "pt_inv l k pt ps" and e: "\<And>j. j < 512 \<Longrightarrow> \<not> pte_valid (ent (pmem k) pt j)"
  shows "freed k (pt_pages l (pmem k) pt) ps (freewalk_loop i pt k)"
proof -
  have ki: "kinv k ps" "good_page (kernel_end k) pt" "pt \<notin> set ps"
    using inv pt_in_pt_pages [of pt l "pmem k"] by (auto simp: pt_inv_def disjoint_iff)
  have "pt_pages l (pmem k) pt = [pt]" using e by (cases l) simp_all
  moreover obtain k' where "kfree pt k = Ok k'" "kinv k' (pt # ps)" "kernel_end k' = kernel_end k"
    "changes (pmem k) (pmem k') {pt}" using kfree_changes [OF ki] .
  ultimately show ?thesis
    using freewalk_loop_empty [of i k pt] e unfolding freed_def by auto
qed

lemma interior_pte: "PTE_FLAGS e = PTE_V \<Longrightarrow> e AND (PTE_R OR PTE_W OR PTE_X) = 0"
proof -
  assume "PTE_FLAGS e = PTE_V"
  then have "(e AND 0x3FF) AND 14 = 1 AND 14" by (simp add: PTE_FLAGS_def PTE_V_def)
  then show ?thesis by (simp add: PTE_R_def PTE_W_def PTE_X_def and.assoc push_bit_eq_mult)
qed

text \<open>Clearing an entry whose subtree has been freed.\<close>

lemma clear_child:
  assumes inv: "pt_inv (Suc l) k pt ps" and i: "i < 512" "pte_valid (ent (pmem k) pt i)"
    and q: "q = PTE2PA (ent (pmem k) pt i)"
    and k1: "kinv k1 ps1" "mset ps1 = mset (pt_pages l (pmem k) q @ ps)" "kernel_end k1 = kernel_end k"
      "changes (pmem k) (pmem k1) (set (pt_pages l (pmem k) q))"
    and k2: "k2 = set_pte (pt + 8 * of_nat i) 0 k1"
  shows "pt_inv (Suc l) k2 pt ps1" "kernel_end k2 = kernel_end k"
    "mset (pt_pages (Suc l) (pmem k2) pt @ ps1) = mset (pt_pages (Suc l) (pmem k) pt @ ps)"
    "changes (pmem k) (pmem k2) (set (pt_pages (Suc l) (pmem k) pt))"
    "ent (pmem k2) pt i = 0" "\<And>j. j < 512 \<Longrightarrow> j \<noteq> i \<Longrightarrow> ent (pmem k2) pt j = ent (pmem k) pt j"
    "no_leaf (Suc l) (pmem k) pt \<Longrightarrow> no_leaf (Suc l) (pmem k2) pt"
    "set (pt_pages (Suc l) (pmem k2) pt) \<subseteq> set (pt_pages (Suc l) (pmem k) pt)"
proof -
  let ?Q = "pt_pages l (pmem k) q"
  have d: "distinct (pt_pages (Suc l) (pmem k) pt @ ps)" using inv by (simp only: pt_inv_def)
  note td = tree_distinct [OF d i q]
  have al: "\<forall>p\<in>set (pt_pages (Suc l) (pmem k) pt). page_aligned p" using pt_inv_aligned [OF inv] by auto
  have alpt: "page_aligned pt" using al pt_in_pt_pages by blast
  have alQ: "\<forall>p\<in>set ?Q. page_aligned p" using al subpages_subset [OF i, of l] q by blast
  have ptQ: "pt \<notin> set ?Q" using td(1) by simp
  have m2: "pmem k2 = store64 (pmem k1) (pt + 8 * of_nat i) 0" by (simp add: k2 set_pte_def)
  have c2: "changes (pmem k1) (pmem k2) {pt}" unfolding m2 by (rule changes_store [OF i(1)])
  have ch: "changes (pmem k) (pmem k2) (set ?Q \<union> {pt})" using changes_trans [OF k1(4) c2] .
  show ei: "ent (pmem k2) pt i = 0" unfolding m2 by (rule ent_store_same)
  show ej: "ent (pmem k2) pt j = ent (pmem k) pt j" if "j < 512" "j \<noteq> i" for j
    using ent_store_other [OF alpt i(1) that(1)] that ent_changes [OF k1(4) alQ alpt ptQ that(1)] unfolding m2 by auto
  have alS: "\<forall>p\<in>set ?Q \<union> {pt}. page_aligned p" using alQ alpt by auto
  have disj: "set (subpages pt_pages l (pmem k) (ent (pmem k) pt j)) \<inter> (set ?Q \<union> {pt}) = {}" if "j < 512" "j \<noteq> i" for j
  proof -
    have "pt \<notin> set (subpages pt_pages l (pmem k) (ent (pmem k) pt j))" using d that(1) by auto
    then show ?thesis using td(3) [OF that] by auto
  qed
  note eu = entry_update [OF ch alS i(1) al ej disj]
  have msQ: "mset (pt_pages (Suc l) (pmem k2) pt) + mset ?Q = mset (pt_pages (Suc l) (pmem k) pt)"
    using eu(1) ei i(2) q by simp
  have "set_mset (mset (pt_pages (Suc l) (pmem k2) pt)) \<subseteq> set_mset (mset (pt_pages (Suc l) (pmem k) pt))"
    unfolding msQ [symmetric] by (simp only: set_mset_union Un_upper1)
  then show "set (pt_pages (Suc l) (pmem k2) pt) \<subseteq> set (pt_pages (Suc l) (pmem k) pt)"
    by (simp only: set_mset_mset)
  from msQ show ms: "mset (pt_pages (Suc l) (pmem k2) pt @ ps1) = mset (pt_pages (Suc l) (pmem k) pt @ ps)"
    using k1(2) by (simp only: mset_append add.assoc [symmetric])
  have "set (pt_pages (Suc l) (pmem k) pt) \<inter> set ps = {}" "set ?Q \<subseteq> set (pt_pages (Suc l) (pmem k) pt)"
    using d subpages_subset [OF i, of l] q by auto
  then show "changes (pmem k) (pmem k2) (set (pt_pages (Suc l) (pmem k) pt))"
    using ch by (auto elim: changes_mono)
  show ke: "kernel_end k2 = kernel_end k" using k1(3) by (simp add: k2 set_pte_def)
  have "pt \<notin> set ps1" using mset_eq_setD [OF k1(2)] td(1) by simp
  then have "kinv k2 ps1" using kinv_changes [OF k1(1) c2] alpt by (simp add: k2 set_pte_def)
  moreover have "pt_wf (Suc l) (pmem k2) pt"
    using inv ei by (intro eu(3)) (auto simp: pt_inv_def)
  ultimately show "pt_inv (Suc l) k2 pt ps1" using pt_inv_intro [OF inv _ ke _ ms] by blast
  show "no_leaf (Suc l) (pmem k2) pt" if nl: "no_leaf (Suc l) (pmem k) pt"
    unfolding no_leaf_def
  proof
    fix va
    show "\<not> pte_valid (pte_at (Suc l) (pmem k2) pt va)"
      using nl eu(2) [of va] ei by (cases "unat (PX (Suc l) va) = i") (simp_all add: no_leaf_def Let_def)
  qed
qed

lemma freewalk_entries:
  assumes child: "\<And>k q ps. pt_inv l k q ps \<Longrightarrow> no_leaf l (pmem k) q \<Longrightarrow>
      freed k (pt_pages l (pmem k) q) ps (freewalk_loop 0 q k)"
    and l: "l < 2" and "pt_inv (Suc l) k pt ps" "no_leaf (Suc l) (pmem k) pt"
      "\<forall>j<i. \<not> pte_valid (ent (pmem k) pt j)"
  shows "freed k (pt_pages (Suc l) (pmem k) pt) ps (freewalk_loop i pt k)"
  using assms(3-)
proof (induction "512 - i" arbitrary: i k ps)
  case 0
  then show ?case by (intro freewalk_leaf_table) auto
next
  case (Suc d)
  have i: "i < 512" using Suc.hyps(2) by simp
  show ?case
  proof (cases "pte_valid (ent (pmem k) pt i)")
    case False
    then have "freed k (pt_pages (Suc l) (pmem k) pt) ps (freewalk_loop (Suc i) pt k)"
      using Suc by (intro Suc.hyps(1)) (auto simp: less_Suc_eq)
    then show ?thesis using False i by (simp add: freewalk_loop.simps [of i] ent_def Let_def)
  next
    case True
    define q where "q = PTE2PA (ent (pmem k) pt i)"
    have "freed k (pt_pages l (pmem k) q) ps (freewalk_loop 0 q k)"
      unfolding q_def using Suc.prems l i True by (intro child pt_inv_child no_leaf_child) auto
    then obtain k1 ps1 where k1: "freewalk_loop 0 q k = Some (Ok k1)" "kinv k1 ps1"
      "mset ps1 = mset (pt_pages l (pmem k) q @ ps)" "kernel_end k1 = kernel_end k"
      "changes (pmem k) (pmem k1) (set (pt_pages l (pmem k) q))" unfolding freed_def by blast
    define k2 where "k2 = set_pte (pt + 8 * of_nat i) 0 k1"
    note cc = clear_child [OF Suc.prems(1) i True q_def k1(2-5) k2_def]
    have "PTE_FLAGS (ent (pmem k) pt i) = PTE_V" using Suc.prems(1) i True by (simp add: pt_inv_def)
    note ip = interior_pte [OF this]
    have step: "freewalk_loop i pt k = freewalk_loop (Suc i) pt k2"
      using i True ip k1(1) by (simp add: freewalk_loop.simps [of i] ent_def q_def k2_def Let_def)
    have "freed k2 (pt_pages (Suc l) (pmem k2) pt) ps1 (freewalk_loop (Suc i) pt k2)"
      using Suc.hyps(2) Suc.prems cc by (intro Suc.hyps(1)) (auto simp: less_Suc_eq)
    then obtain k' ps' where k': "freewalk_loop (Suc i) pt k2 = Some (Ok k')" "kinv k' ps'"
      "mset ps' = mset (pt_pages (Suc l) (pmem k2) pt @ ps1)" "kernel_end k' = kernel_end k2"
      "changes (pmem k2) (pmem k') (set (pt_pages (Suc l) (pmem k2) pt))" unfolding freed_def by blast
    have "changes (pmem k) (pmem k') (set (pt_pages (Suc l) (pmem k) pt))"
      using cc(4) changes_mono [OF k'(5) cc(8)] by (rule changes_trans_same)
    then show ?thesis unfolding step freed_def using k' cc(2,3) by metis
  qed
qed

lemma freewalk_spec:
  assumes "pt_inv l k pt ps" "no_leaf l (pmem k) pt" "l \<le> 2"
  shows "freed k (pt_pages l (pmem k) pt) ps (freewalk_loop 0 pt k)"
  using assms
proof (induction l arbitrary: k pt ps)
  case 0
  then show ?case using freewalk_leaf_table no_leaf_0 by blast
next
  case (Suc l)
  then show ?case by (intro freewalk_entries) auto
qed

lemma div_mod_swap: "x mod (a * b) div a = x div a mod (b :: nat)" if "0 < a"
  using that by (simp add: mod_mult2_eq)

lemma vmap_no_leaf:
  assumes "\<And>n. \<not> pte_valid (vmap k root n)"
  shows "no_leaf 2 (pmem k) root"
  unfolding no_leaf_def
proof
  fix va
  let ?va = "of_nat (4096 * (vpn va mod NPTE)) :: u64"
  have "vpn va mod NPTE < NPTE" by (simp add: NPTE_def)
  then have n: "vpn ?va = vpn va mod NPTE" by (simp only: unat_page_addr)
  have "PX j va = PX j ?va" if "j \<le> 2" for j
  proof -
    have "x mod NPTE div 512 ^ j mod 512 = x div 512 ^ j mod 512" for x
    proof -
      have "j = 0 \<or> j = 1 \<or> j = 2" using that by linarith
      then consider "j = 0" | "j = 1" | "j = 2" by blast
      then show ?thesis
      proof cases
        case 1
        then show ?thesis by (simp add: NPTE_def mod_mod_cancel)
      next
        case 2
        have "x mod (512 * 262144) div 512 = x div 512 mod 262144" by (rule div_mod_swap) simp
        then show ?thesis using 2 by (simp add: NPTE_def mod_mod_cancel)
      next
        case 3
        have "x mod (262144 * 512) div 262144 = x div 262144 mod 512" by (rule div_mod_swap) simp
        then show ?thesis using 3 by (simp add: NPTE_def)
      qed
    qed
    then show ?thesis by (simp only: word_unat_eq_iff PX_vpn n)
  qed
  then have "pte_at 2 (pmem k) root va = pte_at 2 (pmem k) root ?va" by (rule pte_at_PX_le)
  also have "\<dots> = vmap k root (vpn va mod NPTE)" by (simp add: vmap_def NPTE_def)
  finally show "\<not> pte_valid (pte_at 2 (pmem k) root va)" using assms by simp
qed

lemma uvmfree_spec:
  assumes inv: "uvm_inv k root (pages_of sz) ps"
    and top: "\<not> pte_valid (vmap k root (NVPN - 2))" "\<not> pte_valid (vmap k root (NVPN - 1))"
  shows "\<exists>k' ps'. uvmfree root sz k = Some (Ok k') \<and> kinv k' ps' \<and> mset ps' = own k root (pages_of sz) ps \<and>
    kernel_end k' = kernel_end k \<and> changes (pmem k) (pmem k') (set_mset (own k root (pages_of sz) ps))"
proof -
  let ?n = "pages_of sz"
  have n: "?n \<le> NVPN" using inv by (auto simp: uvm_inv_def)
  have "\<exists>k1 ps1. (if sz > 0 then uvmunmap root 0 (PGROUNDUP sz div PGSIZE) True k else Ok k) = Ok k1 \<and>
      shrunk root k ?n ps k1 0 ps1"
  proof (cases "sz > 0")
    case True
    have "unat (PGROUNDUP sz div PGSIZE) = ?n - 0"
      using unat_PGROUNDUP_pages [OF n] by (simp add: PGSIZE_def unat_div)
    from uvmunmap_spec [OF inv _ _ this, of 0] True show ?thesis by auto
  next
    case False
    then have "?n = 0" by (simp add: pages_of_def word_less_nat_alt)
    then show ?thesis using False inv by (auto simp: shrunk_def)
  qed
  then obtain k1 ps1 where k1: "(if sz > 0 then uvmunmap root 0 (PGROUNDUP sz div PGSIZE) True k else Ok k) = Ok k1"
    and sh: "shrunk root k ?n ps k1 0 ps1" by blast
  have inv1: "uvm_inv k1 root 0 ps1" and own1: "own k1 root 0 ps1 = own k root ?n ps"
    and ke: "kernel_end k1 = kernel_end k" and ch: "changes (pmem k) (pmem k1) (set_mset (own k root ?n ps))"
    and vm: "\<And>j. NVPN - 2 \<le> j \<Longrightarrow> vmap k1 root j = vmap k root j"
    using sh by (simp_all add: shrunk_def)
  have "\<not> pte_valid (vmap k1 root j)" for j
  proof -
    have "j < NVPN - 2 \<or> j = NVPN - 2 \<or> j = NVPN - 1 \<or> NVPN \<le> j" unfolding NVPN_def by linarith
    then consider "j < NVPN - 2" | "j = NVPN - 2" | "j = NVPN - 1" | "NVPN \<le> j" by blast
    then show ?thesis using inv1 top vm by cases (auto simp: uvm_inv_def)
  qed
  then have "no_leaf 2 (pmem k1) root" by (rule vmap_no_leaf)
  moreover have "pt_inv 2 k1 root ps1" using inv1 by (simp add: uvm_inv_def as_inv_def)
  ultimately have "freed k1 (pt_pages 2 (pmem k1) root) ps1 (freewalk root k1)"
    unfolding freewalk_def by (intro freewalk_spec) simp_all
  then obtain k' ps' where k': "freewalk root k1 = Some (Ok k')" "kinv k' ps'"
    "mset ps' = mset (pt_pages 2 (pmem k1) root @ ps1)" "kernel_end k' = kernel_end k1"
    "changes (pmem k1) (pmem k') (set (pt_pages 2 (pmem k1) root))" unfolding freed_def by blast
  have "mset ps' = own k root ?n ps" using k'(3) own1 by (simp add: own_def)
  moreover have "set (pt_pages 2 (pmem k1) root) \<subseteq> set_mset (own k root ?n ps)"
    unfolding own1 [symmetric] own_set by auto
  then have "changes (pmem k) (pmem k') (set_mset (own k root ?n ps))"
    using changes_trans_same [OF ch changes_mono [OF k'(5)]] by blast
  ultimately show ?thesis using k1 k'(1,2,4) ke by (auto simp: uvmfree_def)
qed

lemma uvmcreate_spec:
  assumes ki: "kinv k (p # ps)"
  obtains k' where "uvmcreate k = (p, k')" "p \<noteq> 0" "uvm_inv k' p 0 ps" "own k' p 0 ps = mset (p # ps)"
    "kernel_end k' = kernel_end k" "changes (pmem k) (pmem k') {p}" "vmap k' p = (\<lambda>_. 0)"
proof -
  obtain r k1 where k1: "kalloc k = (r, k1)" by fastforce
  have zp: "zero_page p k1 = k1\<lparr>pmem := pmem (zero_page p k1)\<rparr>" by (simp add: zero_page_def)
  note prep = kalloc_prepared [OF ki k1 changes_zero_page, folded zp]
  let ?k = "zero_page p k1"
  have "ent (pmem ?k) p i = 0" if "i < 512" for i using that by (simp add: zero_page_def ent_zero_page)
  note zt = zero_table [OF this]
  have gp: "good_page (kernel_end k) p" and d: "p \<notin> set ps" "distinct ps" using ki by (auto simp: kinv_def)
  have vm: "vmap ?k p = (\<lambda>_. 0)" using zt(2) by (auto simp: vmap_def)
  then have "uvm_inv ?k p 0 ps"
    using prep(3,4) zt gp d by (simp add: uvm_inv_def as_inv_def pt_inv_def)
  moreover have "own ?k p 0 ps = mset (p # ps)" using zt(1) by (simp add: own_def)
  ultimately show ?thesis using that [of ?k] k1 prep vm by (simp add: uvmcreate_def)
qed

section \<open>Other address spaces\<close>

text \<open>
  An operation that only touches pages outside an address space leaves its mapping and the
  bytes its user sees unchanged.
\<close>

lemma other_frame:
  assumes inv: "as_inv k old [0..<n] ps" and ch: "changes (pmem k) (pmem k') S" "\<forall>p\<in>S. page_aligned p"
    and dj: "set (pt_pages 2 (pmem k) old @ data_pages k old [0..<n]) \<inter> S = {}"
    and k': "kinv k' ps'" "kernel_end k' = kernel_end k" "set ps' \<subseteq> S"
  shows "as_inv k' old [0..<n] ps'" "vmap k' old = vmap k old"
    "pt_pages 2 (pmem k') old = pt_pages 2 (pmem k) old"
    "\<And>va. vpn va < n \<Longrightarrow> umem k' old va = umem k old va"
proof -
  have dj': "set (pt_pages 2 (pmem k) old) \<inter> S = {}" "set (pt_pages 2 (pmem k) old) \<inter> set ps' = {}"
    using dj k'(3) by auto
  note tf = tree_frame [OF as_inv_pt [OF inv] ch dj'(1) k'(1,2) dj'(2)]
  show vm: "vmap k' old = vmap k old" by (rule tf(3))
  show tp: "pt_pages 2 (pmem k') old = pt_pages 2 (pmem k) old" by (rule tf(2))
  have "distinct (pt_pages 2 (pmem k) old @ data_pages k old [0..<n])"
    using inv unfolding as_inv_def distinct_append by auto
  moreover have "distinct ps'" using k'(1) by (simp add: kinv_def)
  moreover have "set (pt_pages 2 (pmem k) old @ data_pages k old [0..<n]) \<inter> set ps' = {}" using dj k'(3) by blast
  ultimately have "distinct (pt_pages 2 (pmem k') old @ data_pages k' old [0..<n] @ ps')"
    unfolding vm tp by (simp only: append_assoc [symmetric] distinct_append)
  then show "as_inv k' old [0..<n] ps'"
    using inv tf(1) k'(2) unfolding as_inv_def vm by simp
  show "umem k' old va = umem k old va" if "vpn va < n" for va
  proof (rule umem_frame [OF ch])
    have "PTE2PA (vmap k old (vpn va)) \<in> set (data_pages k old [0..<n])" using that by simp
    then show "PTE2PA (vmap k old (vpn va)) \<notin> S" "page_aligned (PTE2PA (vmap k old (vpn va)))"
      using dj inv good_page_props(1) unfolding as_inv_def by (auto simp: disjoint_iff)
  qed (simp add: vm)
qed

section \<open>Copying an address space\<close>

lemma flags_perm:
  assumes "pte_valid e" "PTE_FLAGS e \<noteq> PTE_V"
  shows "good_perm (ucast (PTE_FLAGS e))" "scast (ucast (PTE_FLAGS e) :: u32) OR PTE_V = PTE_FLAGS e"
proof -
  have le: "unat (PTE_FLAGS e) < 1024"
    unfolding PTE_FLAGS_def mask10 take_bit_eq_mask [symmetric]
    by (simp only: unsigned_take_bit_eq) (simp add: take_bit_eq_mod)
  then have s: "scast (ucast (PTE_FLAGS e) :: u32) = PTE_FLAGS e" by (intro scast_ucast_small) simp
  have v: "PTE_FLAGS e OR PTE_V = PTE_FLAGS e"
    using assms(1) unfolding pte_valid_bit PTE_FLAGS_def mask10 PTE_V_def
    by (intro bit_word_eqI) (auto simp: bit_simps)
  show "scast (ucast (PTE_FLAGS e) :: u32) OR PTE_V = PTE_FLAGS e" unfolding s by (rule v)
  have "PTE_FLAGS e AND NOT 0x3FF = 0" by (simp add: PTE_FLAGS_def and.assoc)
  then show "good_perm (ucast (PTE_FLAGS e))" using s v assms(2) by (simp add: good_perm_def)
qed

definition copy_outcome ::
  "u64 \<Rightarrow> u64 \<Rightarrow> kst \<Rightarrow> nat \<Rightarrow> u64 list \<Rightarrow> nat \<Rightarrow> (int \<times> kst) kres \<Rightarrow> bool" where
  "copy_outcome old new k i ps n res \<longleftrightarrow>
     (\<exists>k' ps'. res = Ok (0, k') \<and> grown new (\<lambda>j. PTE_FLAGS (vmap k old j)) k i ps k' n ps' \<and>
        (\<forall>va. i \<le> vpn va \<and> vpn va < n \<longrightarrow> umem k' new va = umem k old va)) \<or>
     (\<exists>k' ps'. res = Ok (- 1, k') \<and> shrunk new k i ps k' 0 ps')"

lemma uvmcopy_err_spec:
  assumes "uvm_inv k new i ps" "unat a = 4096 * i"
  shows "\<exists>k' ps'. uvmcopy_err new a k = Ok (- 1, k') \<and> shrunk new k i ps k' 0 ps'"
proof -
  have "unat (a div PGSIZE) = i - 0" using assms(2) by (simp add: PGSIZE_def unat_div)
  from uvmunmap_spec [OF assms(1) _ _ this, of 0] show ?thesis by (auto simp: uvmcopy_err_def)
qed

lemma copy_page:
  assumes ki: "kinv k (p # ps)" and ka: "kalloc k = (r, k1)" and pa: "good_page (kernel_end k) pa" "pa \<noteq> p"
  defines "m \<equiv> memmove (pmem k1) p pa (ucast PGSIZE)"
  shows "changes (pmem k1) m {p}" "\<And>x. m (p + of_nat (x mod 4096)) = pmem k (pa + of_nat (x mod 4096))"
proof -
  have gp: "good_page (kernel_end k) p" using ki by (simp add: kinv_def)
  have b: "unat pa + 4096 < 2 ^ 64" "unat p + 4096 \<le> 2 ^ 64"
    using good_page_props(2) [OF pa(1)] good_page_props(2) [OF gp] by simp_all
  then have m: "m = (\<lambda>a. if in_page p a then pmem k1 (pa + (a - p)) else pmem k1 a)"
    unfolding m_def by (subst memmove_eq) simp_all
  show "changes (pmem k1) m {p}" by (simp add: m changes_def)
  fix x
  have "pmem k1 (pa + of_nat (x mod 4096)) = pmem k (pa + of_nat (x mod 4096))"
    using pa gp good_page_props(1) by (intro changesD [OF kalloc_changes(5) [OF ki ka], of pa]) auto
  then show "m (p + of_nat (x mod 4096)) = pmem k (pa + of_nat (x mod 4096))" by (simp add: m)
qed

lemma copy_outcome_step:
  assumes g: "grown new (\<lambda>j. PTE_FLAGS (vmap k old j)) k i ps k3 (Suc i) ps3"
    and z: "\<forall>va. vpn va = i \<longrightarrow> umem k3 new va = umem k old va"
    and old: "vmap k3 old = vmap k old" "\<And>va. vpn va < n \<Longrightarrow> umem k3 old va = umem k old va"
    and o: "copy_outcome old new k3 (Suc i) ps3 n res" and n: "i < n"
  shows "copy_outcome old new k i ps n res"
  using o [unfolded copy_outcome_def old(1)]
proof (elim disjE exE conjE)
  fix k' ps' assume r: "res = Ok (0, k')" and g2: "grown new (\<lambda>j. PTE_FLAGS (vmap k old j)) k3 (Suc i) ps3 k' n ps'"
    and z2: "\<forall>va. Suc i \<le> vpn va \<and> vpn va < n \<longrightarrow> umem k' new va = umem k3 old va"
  have "umem k' new va = umem k old va" if v: "i \<le> vpn va \<and> vpn va < n" for va
  proof (cases "vpn va = i")
    case True
    then show ?thesis using g2 z unfolding grown_def by simp
  next
    case False
    then show ?thesis using z2 v old(2) [of va] by simp
  qed
  then show ?thesis using r grown_trans [OF g g2] n unfolding copy_outcome_def by auto
next
  fix k' ps' assume "res = Ok (- 1, k')" "shrunk new k3 (Suc i) ps3 k' 0 ps'"
  then show ?thesis using shrunk_grown_trans [OF g] unfolding copy_outcome_def by auto
qed

lemma uvmcopy_loop_spec:
  assumes "as_inv k old [0..<pages_of sz] ps" "uvm_inv k new i ps"
    "set (pt_pages 2 (pmem k) old @ data_pages k old [0..<pages_of sz]) \<inter> set_mset (own k new i ps) = {}"
    "i \<le> pages_of sz" "pages_of sz \<le> NVPN - 2" "unat a = 4096 * i"
  shows "copy_outcome old new k i ps (pages_of sz) (uvmcopy_loop a old new sz k)"
  using assms
proof (induction "pages_of sz - i" arbitrary: k i ps a)
  case 0
  then have "i = pages_of sz" by simp
  moreover have "\<not> a < sz" using less_pages_of [OF 0(7), of sz] 0(1) by simp
  ultimately show ?case
    using grown_refl [OF 0(3)] unfolding copy_outcome_def by (auto simp: uvmcopy_loop.simps)
next
  case (Suc d)
  let ?n = "pages_of sz" and ?e = "vmap k old i"
  have i: "i < ?n" "i < NVPN - 2" "i < NVPN" using Suc.hyps(2) Suc.prems(5) by auto
  have lt: "a < sz" using less_pages_of [OF Suc.prems(6)] i(1) by simp
  have va: "a < MAXVA" "vpn a = i" using Suc.prems(6) i(3) by (simp_all add: MAXVA_vpn)
  have e: "pte_valid ?e" "PTE_FLAGS ?e \<noteq> PTE_V" "good_page (kernel_end k) (PTE2PA ?e)"
    "PTE2PA ?e \<in> set (data_pages k old [0..<?n])"
    using Suc.prems(1) i(1) by (auto simp: as_inv_def)
  obtain r where r: "walk old a False k = Ok (r, k)" "r = 0 \<Longrightarrow> ?e = 0" "r \<noteq> 0 \<Longrightarrow> load64 (pmem k) r = ?e"
    using walk_lookup_vmap [OF as_inv_pt [OF Suc.prems(1)] va(1)] va(2) by metis
  have r0: "r \<noteq> 0" using r(2) e(1) by auto
  have ki: "kinv k ps" using Suc.prems(2) by (simp add: uvm_inv_def as_inv_def pt_inv_def)
  show ?case
  proof (cases ps)
    case Nil
    then have "kalloc k = (0, k)" using ki kalloc_empty_kinv by simp
    then show ?thesis
      using uvmcopy_err_spec [OF Suc.prems(2,6)] lt r r0 e(1) unfolding copy_outcome_def
      by (auto simp: uvmcopy_loop.simps [of a] Let_def)
  next
    case (Cons p ps1)
    obtain r1 k1 where k1: "kalloc k = (r1, k1)" by fastforce
    have "p \<in> set_mset (own k new i ps)" by (simp add: own_set Cons)
    then have pne: "PTE2PA ?e \<noteq> p" using Suc.prems(3) e(4) by (auto simp: disjoint_iff)
    note cp = copy_page [OF ki [unfolded Cons] k1 e(3) pne]
    note prep = kalloc_prepared [OF ki [unfolded Cons] k1 cp(1)]
    note fp = flags_perm [OF e(1,2)]
    from Suc.prems(2) [unfolded Cons] i(2) Suc.prems(6) fp(1) prep(3-5) fp(2) [symmetric] show ?thesis
    proof (cases rule: grow_one [where flags = "\<lambda>j. PTE_FLAGS (vmap k old j)"])
      case (mapped k3 ps3)
      let ?S = "set_mset (own k new i ps)"
      have inv3: "uvm_inv k3 new (Suc i) ps3" and own3: "set_mset (own k3 new (Suc i) ps3) = ?S"
        and ke: "kernel_end k3 = kernel_end k" and ch: "changes (pmem k) (pmem k3) ?S"
        using mapped(2) by (simp_all add: grown_def Cons)
      have ki3: "kinv k3 ps3" "set ps3 \<subseteq> ?S"
        using inv3 own3 by (auto simp: uvm_inv_def as_inv_def pt_inv_def own_set)
      have "\<forall>p\<in>?S. page_aligned p" using own_aligned [OF Suc.prems(2)] by blast
      note fr = other_frame [OF Suc.prems(1) ch this Suc.prems(3) ki3(1) ke ki3(2)]
      have up: "unat (a + PGSIZE) = 4096 * Suc i"
        using Suc.prems(6) i(2) by (simp add: PGSIZE_def unat_add_u64 NVPN_def)
      have step: "uvmcopy_loop a old new sz k = uvmcopy_loop (a + PGSIZE) old new sz k3"
        using lt r r0 e(1) k1 prep(1,2) mapped(1) by (simp add: uvmcopy_loop.simps [of a] Let_def)
      have "copy_outcome old new k3 (Suc i) ps3 ?n (uvmcopy_loop (a + PGSIZE) old new sz k3)"
        using Suc.hyps(2) Suc.prems i fr own3 by (intro Suc.hyps(1) [OF _ fr(1) inv3]) (auto simp: up)
      moreover have "\<forall>va. vpn va = i \<longrightarrow> umem k3 new va = umem k old va"
        using mapped(3) cp(2) by (simp add: umem_def)
      ultimately show ?thesis
        unfolding step by (intro copy_outcome_step [OF mapped(2) [folded Cons] _ fr(2,4) _ i(1)]) auto
    next
      case (oom k3 k4 ps4)
      have inv4: "uvm_inv k4 new i ps4" using oom(3) by (simp add: shrunk_def)
      obtain k' ps' where "uvmcopy_err new a k4 = Ok (- 1, k')" "shrunk new k4 i ps4 k' 0 ps'"
        using uvmcopy_err_spec [OF inv4 Suc.prems(6)] by blast
      then show ?thesis
        using lt r r0 e(1) k1 prep(1,2) oom(1,2) shrunk_trans [OF oom(3)] Cons
        unfolding copy_outcome_def by (auto simp: uvmcopy_loop.simps [of a] Let_def)
    qed
  qed
qed

end
