(* ===== verification/Vm_Copy.thy ===== *)
theory Vm_Copy
  imports Vm_Space
begin

text \<open>
  Copying between kernel and user memory: what \<open>walkaddr\<close>, \<open>copyout\<close>, \<open>copyin\<close> and \<open>copyinstr\<close> do
  to the bytes the user sees and to kernel memory, page by page, for any alignment and length.
\<close>

unbundle bit_operations_syntax

section \<open>User access\<close>

text \<open>The page numbers through which the copy routines may reach memory.\<close>

definition uacc :: "kst \<Rightarrow> u64 \<Rightarrow> nat \<Rightarrow> bool" where
  "uacc k root j \<longleftrightarrow> j < NVPN \<and> pte_valid (vmap k root j) \<and> vmap k root j AND PTE_U \<noteq> 0"

text \<open>\<open>n\<close> pages of user memory, and no user access above them (trapframe and trampoline).\<close>

definition user_space :: "kst \<Rightarrow> u64 \<Rightarrow> nat \<Rightarrow> u64 list \<Rightarrow> bool" where
  "user_space k root n ps \<longleftrightarrow> uvm_inv k root n ps \<and> (\<forall>j. uacc k root j \<longrightarrow> j < n)"

lemma uvm_page_good:
  assumes "uvm_inv k root n ps" "j < n"
  shows "good_page (kernel_end k) (PTE2PA (vmap k root j))" "PTE2PA (vmap k root j) \<noteq> 0"
proof -
  show g: "good_page (kernel_end k) (PTE2PA (vmap k root j))"
    using assms by (simp add: uvm_inv_def as_inv_def)
  have "0 < kernel_end k" using assms(1) by (simp add: uvm_inv_def as_inv_def pt_inv_def kinv_def)
  then show "PTE2PA (vmap k root j) \<noteq> 0" using g by (auto simp: good_page_def)
qed

lemma walkaddr_spec:
  assumes "user_space k root n ps"
  shows "walkaddr root va k = Ok (if uacc k root (vpn va) then PTE2PA (vmap k root (vpn va)) else 0)"
proof (cases "va < MAXVA")
  case True
  have "pt_inv 2 k root ps" using assms by (simp add: user_space_def uvm_inv_def as_inv_def)
  from walk_lookup_vmap [OF this True] obtain r where "walk root va False k = Ok (r, k)"
    "r = 0 \<Longrightarrow> vmap k root (vpn va) = 0" "r \<noteq> 0 \<Longrightarrow> load64 (pmem k) r = vmap k root (vpn va)" by metis
  moreover have "\<not> MAXVA \<le> va" using True by simp
  moreover have "vpn va < NVPN" using True by (simp add: MAXVA_vpn)
  ultimately show ?thesis by (auto simp: walkaddr_def uacc_def)
next
  case False
  then have "MAXVA \<le> va" "\<not> vpn va < NVPN" using MAXVA_vpn [of va] by simp_all
  then show ?thesis by (simp add: walkaddr_def uacc_def)
qed

definition upa :: "kst \<Rightarrow> u64 \<Rightarrow> u64 \<Rightarrow> u64" where
  "upa k root va = PTE2PA (vmap k root (vpn va)) + of_nat (unat va mod 4096)"

lemma umem_upa: "umem k root va = pmem k (upa k root va)"
  by (simp add: umem_def upa_def)

lemma upa_in_page: "in_page (PTE2PA (vmap k root (vpn va))) (upa k root va)"
  by (simp add: upa_def)

lemma unat_upa:
  assumes "uvm_inv k root n ps" "vpn va < n"
  shows "unat (upa k root va) = unat (PTE2PA (vmap k root (vpn va))) + unat va mod 4096"
proof -
  from good_page_props(2) [OF uvm_page_good(1) [OF assms]] show ?thesis
    unfolding upa_def by (subst unat_add_u64) (simp_all add: unat_of_nat_u64)
qed

lemma upa_page_iff:
  assumes "uvm_inv k root n ps" "vpn va < n" "j < n"
  shows "in_page (PTE2PA (vmap k root j)) (upa k root va) \<longleftrightarrow> vpn va = j"
  using upa_in_page [of k root va] uvm_inv_data [OF assms(1,2)] uvm_inv_data [OF assms(1,3)] assms(2,3)
    pages_disjoint [of "PTE2PA (vmap k root (vpn va))" "PTE2PA (vmap k root j)" "upa k root va"]
  unfolding page_aligned_def by (cases "vpn va = j") auto

text \<open>The physical bytes of a piece of a user page.\<close>

lemma upa_in_range:
  assumes inv: "uvm_inv k root n ps" and v: "vpn va < n" "vpn d < n" and c: "unat d mod 4096 + c \<le> 4096"
  shows "in_range (upa k root d) c (upa k root va) \<longleftrightarrow> unat d \<le> unat va \<and> unat va < unat d + c"
proof -
  let ?p = "\<lambda>v. PTE2PA (vmap k root (vpn v))"
  note ua = unat_upa [OF inv v(1)] and ud = unat_upa [OF inv v(2)]
  show ?thesis
  proof (cases "vpn va = vpn d")
    case True
    have e: "unat va = 4096 * vpn d + unat va mod 4096" "unat d = 4096 * vpn d + unat d mod 4096"
      using True mult_div_mod_eq [of 4096 "unat va"] mult_div_mod_eq [of 4096 "unat d"] by simp_all
    show ?thesis
    proof (cases "unat d \<le> unat va")
      case le: True
      then have "unat d mod 4096 \<le> unat va mod 4096" using e by linarith
      then have "unat (upa k root va - upa k root d) = unat va mod 4096 - unat d mod 4096"
        using ua ud True by (subst unat_sub) (simp_all add: word_le_nat_alt)
      then show ?thesis using le e unfolding in_range_def by linarith
    next
      case False
      then have lt: "unat va mod 4096 < unat d mod 4096" using e by linarith
      then have "upa k root va < upa k root d" using ua ud True by (simp add: word_less_nat_alt)
      then have "unat (upa k root va - upa k root d) = 18446744073709551616 + unat (upa k root va) - unat (upa k root d)"
        by (rule unat_sub_wrap)
      moreover have "c \<le> 4096" using c by simp
      moreover have "unat (upa k root d) \<le> unat (upa k root va) + 4096" using ua ud True by simp
      ultimately show ?thesis using False unfolding in_range_def by linarith
    qed
  next
    case False
    have "\<not> in_page (?p d) (upa k root va)" using upa_page_iff [OF inv v] False by simp
    moreover have "in_page (?p d) (upa k root va)" if r: "in_range (upa k root d) c (upa k root va)"
    proof -
      define i where "i = unat (upa k root va - upa k root d)"
      have i: "i < c" "upa k root va = upa k root d + of_nat i" using r by (simp_all add: i_def in_range_def)
      then have "upa k root va = ?p d + of_nat (unat d mod 4096 + i)" by (simp add: upa_def)
      then show ?thesis using i(1) c in_page_add [of "unat d mod 4096 + i" "?p d"] by (simp del: of_nat_add)
    qed
    moreover have "\<not> (unat d \<le> unat va \<and> unat va < unat d + c)"
    proof
      assume a: "unat d \<le> unat va \<and> unat va < unat d + c"
      have "unat d = 4096 * vpn d + unat d mod 4096" by simp
      then have "4096 * vpn d \<le> unat va" "unat va < 4096 * vpn d + 4096" using a c by linarith+
      then have "vpn va = vpn d" by linarith
      with False show False by simp
    qed
    ultimately show ?thesis by blast
  qed
qed


section \<open>Writes that keep the tables\<close>

lemma changes_of_bytes:
  assumes "\<And>p a. p \<in> T \<Longrightarrow> in_page p a \<Longrightarrow> m' a = m a" "\<forall>p\<in>T. page_aligned p"
  obtains S where "changes m m' S" "\<forall>p\<in>S. page_aligned p" "T \<inter> S = {}"
proof -
  let ?S = "{p. page_aligned p \<and> (\<exists>a. in_page p a \<and> m' a \<noteq> m a)}"
  have pd: "page_aligned (PGROUNDDOWN a)" "in_page (PGROUNDDOWN a) a" for a
  proof -
    show al: "page_aligned (PGROUNDDOWN a)" by (simp add: page_aligned_def unat_PGROUNDDOWN)
    show "in_page (PGROUNDDOWN a) a"
      using in_page_iff [of "PGROUNDDOWN a" a] al by (simp add: page_aligned_def unat_PGROUNDDOWN)
  qed
  have "changes m m' ?S" unfolding changes_def using pd by blast
  moreover have "T \<inter> ?S = {}" using assms(1) by blast
  ultimately show ?thesis using that by blast
qed

lemma user_space_write:
  assumes us: "user_space k root n ps"
    and same: "\<And>p a. p \<in> set (pt_pages 2 (pmem k) root @ ps) \<Longrightarrow> in_page p a \<Longrightarrow> m' a = pmem k a"
  shows "user_space (k\<lparr>pmem := m'\<rparr>) root n ps" "vmap (k\<lparr>pmem := m'\<rparr>) root = vmap k root"
    "pt_pages 2 m' root = pt_pages 2 (pmem k) root"
proof -
  let ?T = "set (pt_pages 2 (pmem k) root @ ps)" and ?k = "k\<lparr>pmem := m'\<rparr>"
  have inv: "uvm_inv k root n ps" using us by (simp add: user_space_def)
  then have pi: "pt_inv 2 k root ps" by (simp add: uvm_inv_def as_inv_def)
  have "\<forall>p\<in>?T. page_aligned p" using pt_inv_aligned [OF pi] by blast
  then obtain S where S: "changes (pmem k) m' S" "\<forall>p\<in>S. page_aligned p" "?T \<inter> S = {}"
    using changes_of_bytes [of ?T m' "pmem k"] same by blast
  have "S \<inter> set ps = {}" "set (pt_pages 2 (pmem k) root) \<inter> S = {}" using S(3) by auto
  moreover have "kinv k ps" "set (pt_pages 2 (pmem k) root) \<inter> set ps = {}" using pi by (auto simp: pt_inv_def)
  moreover have ch: "changes (pmem k) (pmem ?k) S" using S(1) by simp
  ultimately have ki: "kinv ?k ps" and dj: "set (pt_pages 2 (pmem k) root) \<inter> S = {}"
    "set (pt_pages 2 (pmem k) root) \<inter> set ps = {}"
    using kinv_changes [of k ps m' S] S(1,2) by simp_all
  have ke: "kernel_end ?k = kernel_end k" by simp
  note tf = tree_frame(1-3) [OF pi ch S(2) dj(1) ki ke dj(2)]
  show vm: "vmap ?k root = vmap k root" by (rule tf(3))
  show tp: "pt_pages 2 m' root = pt_pages 2 (pmem k) root" using tf(2) by simp
  have "as_inv ?k root [0..<n] ps"
    using inv tf(1,2) unfolding uvm_inv_def as_inv_def vm ke by simp
  then show "user_space ?k root n ps"
    using us unfolding user_space_def uvm_inv_def uacc_def vm by simp
qed

lemma va_split: "va = of_nat (4096 * vpn va) + of_nat (unat va mod 4096)"
proof -
  have "of_nat (unat va) = (of_nat (4096 * vpn va + unat va mod 4096) :: u64)" by (simp only: mult_div_mod_eq)
  then show ?thesis by (simp only: of_nat_add) simp
qed

lemma page_off: "va - PGROUNDDOWN va = of_nat (unat va mod 4096)"
proof -
  have "unat (va - PGROUNDDOWN va) = unat va mod 4096"
    by (subst unat_sub) (simp_all add: word_le_nat_alt unat_PGROUNDDOWN minus_div_mult_eq_mod)
  then have "of_nat (unat (va - PGROUNDDOWN va)) = (of_nat (unat va mod 4096) :: u64)" by (simp only:)
  then show ?thesis by simp
qed

section \<open>copyout\<close>

text \<open>One \<open>memmove\<close> into a user page.\<close>

lemma write_chunk:
  assumes us: "user_space k root n ps" and d: "vpn d < n" and c: "unat d mod 4096 + unat c \<le> 4096"
    and src: "unat src + unat c < 18446744073709551616"
  defines "k' \<equiv> k\<lparr>pmem := memmove (pmem k) (upa k root d) src c\<rparr>"
  shows "user_space k' root n ps" "vmap k' root = vmap k root"
    "changes (pmem k) (pmem k') {PTE2PA (vmap k root (vpn d))}"
    "pt_pages 2 (pmem k') root = pt_pages 2 (pmem k) root"
    "vpn va < n \<Longrightarrow> umem k' root va =
      (if unat d \<le> unat va \<and> unat va < unat d + unat c then pmem k (src + (va - d)) else umem k root va)"
proof -
  have inv: "uvm_inv k root n ps" using us by (simp add: user_space_def)
  note gp = uvm_page_good(1) [OF inv d]
  have "unat (upa k root d) + unat c \<le> 18446744073709551616"
    using unat_upa [OF inv d] good_page_props(2) [OF gp] c by simp
  then have m: "pmem k' = (\<lambda>a. if in_range (upa k root d) (unat c) a then pmem k (src + (a - upa k root d)) else pmem k a)"
    unfolding k'_def using src by (simp add: memmove_eq)
  have sub: "in_page (PTE2PA (vmap k root (vpn d))) a" if "in_range (upa k root d) (unat c) a" for a
  proof -
    define i where "i = unat (a - upa k root d)"
    have i: "i < unat c" "a = upa k root d + of_nat i" using that by (simp_all add: i_def in_range_def)
    then have "a = PTE2PA (vmap k root (vpn d)) + of_nat (unat d mod 4096 + i)" by (simp add: upa_def)
    then show ?thesis using i(1) c in_page_add [of "unat d mod 4096 + i"] by (simp del: of_nat_add)
  qed
  show ch: "changes (pmem k) (pmem k') {PTE2PA (vmap k root (vpn d))}"
    unfolding changes_def m using sub by auto
  have "pmem k' a = pmem k a" if "p \<in> set (pt_pages 2 (pmem k) root @ ps)" "in_page p a" for p a
  proof (rule changesD [OF ch _ _ _ that(2)])
    show "\<forall>p\<in>{PTE2PA (vmap k root (vpn d))}. page_aligned p" using good_page_props(1) [OF gp] by simp
    show "page_aligned p" using pt_inv_aligned inv that(1) unfolding uvm_inv_def as_inv_def by blast
    show "p \<notin> {PTE2PA (vmap k root (vpn d))}" using uvm_inv_data(2) [OF inv d] that(1) by auto
  qed
  from user_space_write [OF us, of "pmem k'"] this
  show "user_space k' root n ps" and vm: "vmap k' root = vmap k root" and "pt_pages 2 (pmem k') root = pt_pages 2 (pmem k) root"
    by (simp_all add: k'_def)
  show "umem k' root va =
      (if unat d \<le> unat va \<and> unat va < unat d + unat c then pmem k (src + (va - d)) else umem k root va)" if v: "vpn va < n"
  proof -
    have "upa k root va - upa k root d = va - d" if b: "unat d \<le> unat va \<and> unat va < unat d + unat c"
    proof -
      have "unat d = 4096 * vpn d + unat d mod 4096" by simp
      then have "4096 * vpn d \<le> unat va" "unat va < 4096 * vpn d + 4096" using b c by linarith+
      then have e: "vpn va = vpn d" by linarith
      have "va - d = of_nat (unat va mod 4096) - of_nat (unat d mod 4096)"
        using arg_cong2 [of _ _ _ _ minus, OF va_split [of va] va_split [of d]] unfolding e
        by (simp only: add_diff_cancel_left)
      then show ?thesis unfolding upa_def e by (simp only: add_diff_cancel_left)
    qed
    moreover have "upa k' root va = upa k root va" by (simp add: upa_def vm)
    ultimately show ?thesis using upa_in_range [OF inv v d c] unfolding umem_upa m by simp
  qed
qed

text \<open>Every page of the range \<open>[va, va + len)\<close> is accessible to the user.\<close>

definition range_acc :: "kst \<Rightarrow> u64 \<Rightarrow> nat \<Rightarrow> nat \<Rightarrow> bool" where
  "range_acc k root va len \<longleftrightarrow> (\<forall>i < len. uacc k root ((va + i) div 4096))"

lemma range_acc_chunk:
  assumes "0 < c" "va mod 4096 + c \<le> 4096" "c \<le> len"
  shows "range_acc k root va len \<longleftrightarrow> uacc k root (va div 4096) \<and> range_acc k root (va + c) (len - c)"
proof -
  have first: "(va + i) div 4096 = va div 4096" if "i < c" for i
  proof -
    have "va = 4096 * (va div 4096) + va mod 4096" by simp
    then show ?thesis using that assms(2) by linarith
  qed
  show ?thesis
  proof (intro iffI conjI)
    assume a: "range_acc k root va len"
    show "uacc k root (va div 4096)" using a assms(1,3) first [of 0] unfolding range_acc_def by force
    show "range_acc k root (va + c) (len - c)"
      using a unfolding range_acc_def by (metis add.assoc less_diff_conv2 assms(3) add.commute less_diff_conv)
  next
    assume a: "uacc k root (va div 4096) \<and> range_acc k root (va + c) (len - c)"
    show "range_acc k root va len"
      unfolding range_acc_def
    proof (intro allI impI)
      fix i assume i: "i < len"
      show "uacc k root ((va + i) div 4096)"
      proof (cases "i < c")
        case False
        then have "i - c < len - c" "va + c + (i - c) = va + i" using i by auto
        then show ?thesis using a unfolding range_acc_def by metis
      qed (use a first in simp)
    qed
  qed
qed

lemma range_acc_cong: "vmap k' root = vmap k root \<Longrightarrow> range_acc k' root va len = range_acc k root va len"
  by (simp add: range_acc_def uacc_def)

text \<open>The step of the copy loops: the chunk, and where the next one starts.\<close>

lemma chunk_facts:
  assumes "0 < len"
  shows "0 < unat (chunk va len)" "unat (chunk va len) \<le> unat len"
    "unat va mod 4096 + unat (chunk va len) \<le> 4096" "unat (ucast (chunk va len) :: u32) = unat (chunk va len)"
    "unat (len - chunk va len) = unat len - unat (chunk va len)"
    "vpn va < NVPN \<Longrightarrow> unat (chunk va len) < unat len \<Longrightarrow>
       PGROUNDDOWN va + PGSIZE = va + chunk va len \<and> unat (va + chunk va len) = unat va + unat (chunk va len)"
proof -
  let ?c = "unat (chunk va len)"
  have c: "?c = min (4096 - unat va mod 4096) (unat len)" by (rule unat_chunk)
  have m: "unat va mod 4096 < 4096" by simp
  have l: "0 < unat len" using assms by (simp add: word_less_nat_alt)
  show "0 < ?c" "?c \<le> unat len" "unat va mod 4096 + ?c \<le> 4096" using c m l by auto
  then show "unat (ucast (chunk va len) :: u32) = ?c"
    by (simp add: unsigned_ucast_eq take_bit_nat_eq_self)
  show "unat (len - chunk va len) = unat len - ?c"
    using \<open>?c \<le> unat len\<close> by (subst unat_sub) (simp_all add: word_le_nat_alt)
  assume v: "vpn va < NVPN" and lt: "?c < unat len"
  then have ce: "?c = 4096 - unat va mod 4096" using c by auto
  have vb: "unat va < 274877906944" using v by (simp add: NVPN_def)
  have e: "unat va = 4096 * vpn va + unat va mod 4096" by simp
  have u: "unat (va + chunk va len) = unat va + ?c"
    using vb ce m by (intro unat_add_u64) linarith
  have "unat (PGROUNDDOWN va + PGSIZE) = vpn va * 4096 + 4096"
    using vb by (subst unat_add_u64) (simp_all add: unat_PGROUNDDOWN PGSIZE_def)
  then have "unat (PGROUNDDOWN va + PGSIZE) = unat (va + chunk va len)" using u ce e m by linarith
  with u show "PGROUNDDOWN va + PGSIZE = va + chunk va len \<and> unat (va + chunk va len) = unat va + ?c"
    by (simp only: word_unat_eq_iff simp_thms)
qed

text \<open>A kernel buffer of \<open>len\<close> bytes that lies outside the pages in \<open>P\<close>.\<close>

definition buffer_outside :: "u64 set \<Rightarrow> u64 \<Rightarrow> nat \<Rightarrow> bool" where
  "buffer_outside P b len \<longleftrightarrow> unat b + len < 18446744073709551616 \<and>
     (\<forall>i < len. \<forall>p \<in> P. \<not> in_page p (b + of_nat i))"

lemma buffer_outside_drop:
  assumes "buffer_outside P b len" "unat c \<le> len"
  shows "buffer_outside P (b + c) (len - unat c)"
proof -
  have "unat (b + c) = unat b + unat c"
    using assms by (intro unat_add_u64) (auto simp: buffer_outside_def)
  moreover have "\<not> in_page p (b + c + of_nat i)" if "i < len - unat c" "p \<in> P" for i p
  proof -
    have "unat c + i < len" using that(1) by simp
    then have "\<not> in_page p (b + of_nat (unat c + i))" using assms(1) that(2) unfolding buffer_outside_def by blast
    then show ?thesis by (simp add: add.assoc)
  qed
  ultimately show ?thesis using assms by (simp add: buffer_outside_def)
qed

definition copied_out :: "u64 \<Rightarrow> nat \<Rightarrow> u64 list \<Rightarrow> u64 \<Rightarrow> u64 \<Rightarrow> nat \<Rightarrow> kst \<Rightarrow> (int \<times> kst) kres \<Rightarrow> bool" where
  "copied_out root n ps dstva src len k res \<longleftrightarrow>
     (\<exists>k'. res = Ok (if range_acc k root (unat dstva) len then 0 else - 1, k') \<and>
        user_space k' root n ps \<and> vmap k' root = vmap k root \<and>
        changes (pmem k) (pmem k') (set (data_pages k root [0..<n])) \<and>
        (range_acc k root (unat dstva) len \<longrightarrow>
          (\<forall>va. vpn va < n \<longrightarrow> umem k' root va =
            (if unat dstva \<le> unat va \<and> unat va < unat dstva + len then pmem k (src + (va - dstva))
             else umem k root va))))"

lemma copyout_0: "copyout root dstva src 0 k = Ok (0, k)"
  by (simp add: copyout.simps)

lemma copyout_step:
  assumes us: "user_space k root n ps" and len: "0 < len" and acc: "uacc k root (vpn dstva)"
    and out: "buffer_outside (set (data_pages k root [0..<n])) src (unat len)"
  defines "k1 \<equiv> k\<lparr>pmem := memmove (pmem k) (upa k root dstva) src (ucast (chunk dstva len))\<rparr>"
  shows "copyout root dstva src len k =
      copyout root (PGROUNDDOWN dstva + PGSIZE) (src + chunk dstva len) (len - chunk dstva len) k1"
    "user_space k1 root n ps" "vmap k1 root = vmap k root"
    "changes (pmem k) (pmem k1) (set (data_pages k root [0..<n]))"
    "\<And>va. vpn va < n \<Longrightarrow> umem k1 root va =
      (if unat dstva \<le> unat va \<and> unat va < unat dstva + unat (chunk dstva len)
       then pmem k (src + (va - dstva)) else umem k root va)"
proof -
  note cf = chunk_facts [OF len, of dstva]
  have d: "vpn dstva < n" using us acc by (simp add: user_space_def)
  have inv: "uvm_inv k root n ps" using us by (simp add: user_space_def)
  have c: "unat dstva mod 4096 + unat (ucast (chunk dstva len) :: u32) \<le> 4096" using cf(3,4) by simp
  have s: "unat src + unat (ucast (chunk dstva len) :: u32) < 18446744073709551616"
    using out cf(2,4) by (simp add: buffer_outside_def)
  note wc = write_chunk [OF us d c s, folded k1_def]
  show "user_space k1 root n ps" "vmap k1 root = vmap k root" by (fact wc(1) wc(2))+
  show "changes (pmem k) (pmem k1) (set (data_pages k root [0..<n]))"
    using wc(3) by (rule changes_mono) (use d in auto)
  show "umem k1 root va = (if unat dstva \<le> unat va \<and> unat va < unat dstva + unat (chunk dstva len)
       then pmem k (src + (va - dstva)) else umem k root va)" if "vpn va < n" for va
    using wc(5) [OF that] cf(4) by simp
  have "vpn (PGROUNDDOWN dstva) = vpn dstva" by (simp add: unat_PGROUNDDOWN)
  then have "walkaddr root (PGROUNDDOWN dstva) k = Ok (PTE2PA (vmap k root (vpn dstva)))"
    using walkaddr_spec [OF us, of "PGROUNDDOWN dstva"] acc by simp
  moreover have "PTE2PA (vmap k root (vpn dstva)) + (dstva - PGROUNDDOWN dstva) = upa k root dstva"
    by (simp add: page_off upa_def)
  ultimately show "copyout root dstva src len k =
      copyout root (PGROUNDDOWN dstva + PGSIZE) (src + chunk dstva len) (len - chunk dstva len) k1"
    using len uvm_page_good(2) [OF inv d] by (simp add: copyout.simps [of root dstva] Let_def k1_def)
qed

lemma outside_same:
  assumes "buffer_outside P b len" "changes m m' P" "i < len"
  shows "m' (b + of_nat i) = m (b + of_nat i)"
  using assms unfolding buffer_outside_def changes_def by blast

lemma copyout_spec:
  assumes "user_space k root n ps" "buffer_outside (set (data_pages k root [0..<n])) src (unat len)"
  shows "copied_out root n ps dstva src (unat len) k (copyout root dstva src len k)"
  using assms
proof (induction "unat len" arbitrary: dstva src len k rule: less_induct)
  case less
  show ?case
  proof (cases "0 < len")
    case False
    then have "unat len = 0" by (simp add: word_less_nat_alt)
    then show ?thesis
      using less.prems False by (auto simp: copied_out_def copyout.simps range_acc_def)
  next
    case len: True
    define c where "c = chunk dstva len"
    note cf = chunk_facts [OF len, of dstva, folded c_def]
    note ra = range_acc_chunk [OF cf(1,3,2), of k root]
    show ?thesis
    proof (cases "uacc k root (vpn dstva)")
      case False
      then have "walkaddr root (PGROUNDDOWN dstva) k = Ok 0"
        using walkaddr_spec [OF less.prems(1), of "PGROUNDDOWN dstva"] by (simp add: unat_PGROUNDDOWN)
      then have "copyout root dstva src len k = Ok (- 1, k)"
        using len by (simp add: copyout.simps [of root dstva] Let_def)
      then show ?thesis using False ra less.prems(1) by (simp add: copied_out_def)
    next
      case acc: True
      define k1 where "k1 = k\<lparr>pmem := memmove (pmem k) (upa k root dstva) src (ucast c)\<rparr>"
      note st = copyout_step [OF less.prems(1) len acc less.prems(2), folded c_def, folded k1_def]
      show ?thesis
      proof (cases "unat c < unat len")
        case False
        then have c: "unat c = unat len" "c = len" using cf(2) by (auto simp: word_unat_eq_iff)
        have "copyout root dstva src len k = Ok (0, k1)" using st(1) c(2) by (simp add: copyout_0)
        moreover have "range_acc k root (unat dstva) (unat len)" using ra acc c(1) by (simp add: range_acc_def)
        ultimately show ?thesis using st(2-5) c(1) by (simp add: copied_out_def)
      next
        case lt: True
        have "vpn dstva < NVPN" using acc by (simp add: uacc_def)
        then have nx: "PGROUNDDOWN dstva + PGSIZE = dstva + c" "unat (dstva + c) = unat dstva + unat c"
          using cf(6) lt by auto
        let ?D = "set (data_pages k root [0..<n])"
        have D1: "set (data_pages k1 root [0..<n]) = ?D" using st(3) by simp
        have o1: "buffer_outside ?D (src + c) (unat (len - c))"
          using buffer_outside_drop [OF less.prems(2) cf(2)] cf(5) by simp
        have "copied_out root n ps (dstva + c) (src + c) (unat (len - c)) k1 (copyout root (dstva + c) (src + c) (len - c) k1)"
          using less.hyps [OF _ st(2), of "len - c" "src + c"] o1 cf(1,2,5) lt D1 by simp
        then obtain k' where k': "copyout root (dstva + c) (src + c) (len - c) k1 =
            Ok (if range_acc k root (unat dstva + unat c) (unat len - unat c) then 0 else - 1, k')"
          "user_space k' root n ps" "vmap k' root = vmap k root" "changes (pmem k1) (pmem k') ?D"
          "range_acc k root (unat dstva + unat c) (unat len - unat c) \<Longrightarrow> \<forall>va. vpn va < n \<longrightarrow> umem k' root va =
            (if unat dstva + unat c \<le> unat va \<and> unat va < unat dstva + unat len
             then pmem k1 (src + c + (va - (dstva + c))) else umem k1 root va)"
          unfolding copied_out_def D1 nx(2) cf(5) range_acc_cong [OF st(3)] using st(3) cf(2) by auto
        have vals: "umem k' root va = (if unat dstva \<le> unat va \<and> unat va < unat dstva + unat len
            then pmem k (src + (va - dstva)) else umem k root va)"
          if r: "range_acc k root (unat dstva) (unat len)" and v: "vpn va < n" for va
        proof -
          note kv = k'(5) [THEN spec, THEN mp, OF _ v]
          have ra2: "range_acc k root (unat dstva + unat c) (unat len - unat c)" using r ra by simp
          have "pmem k1 (src + (va - dstva)) = pmem k (src + (va - dstva))"
            if "unat dstva + unat c \<le> unat va" "unat va < unat dstva + unat len"
          proof -
            have "unat (va - dstva) = unat va - unat dstva"
              using that(1) by (subst unat_sub) (simp_all add: word_le_nat_alt)
            then have "unat (va - dstva) < unat len" using that by simp
            from outside_same [OF less.prems(2) st(4) this] show ?thesis by simp
          qed
          then show ?thesis using kv [OF ra2] st(5) [OF v] cf(2) by (auto simp: algebra_simps)
        qed
        show ?thesis
          using st(1) k'(1-3) changes_trans_same [OF st(4) k'(4)] vals ra acc
          unfolding nx(1) copied_out_def by auto
      qed
    qed
  qed
qed

section \<open>copyin\<close>

definition space_pages :: "kst \<Rightarrow> u64 \<Rightarrow> nat \<Rightarrow> u64 list \<Rightarrow> u64 set" where
  "space_pages k root n ps = set (pt_pages 2 (pmem k) root @ data_pages k root [0..<n] @ ps)"

text \<open>Writing a kernel buffer outside the address space and the free list.\<close>

lemma buffer_write:
  assumes us: "user_space k root n ps" and out: "buffer_outside (space_pages k root n ps) b len"
    and same: "\<And>a. \<not> in_range b len a \<Longrightarrow> m' a = pmem k a"
  shows "user_space (k\<lparr>pmem := m'\<rparr>) root n ps" "vmap (k\<lparr>pmem := m'\<rparr>) root = vmap k root"
    "space_pages (k\<lparr>pmem := m'\<rparr>) root n ps = space_pages k root n ps"
    "\<And>va. vpn va < n \<Longrightarrow> umem (k\<lparr>pmem := m'\<rparr>) root va = umem k root va"
proof -
  have keep: "m' a = pmem k a" if "p \<in> space_pages k root n ps" "in_page p a" for p a
  proof (rule same)
    show "\<not> in_range b len a"
    proof
      assume "in_range b len a"
      moreover have "len \<le> 2 ^ 64" using out by (simp add: buffer_outside_def)
      ultimately obtain i where "i < len" "a = b + of_nat i" using in_range_iff_ex by blast
      then show False using out that unfolding buffer_outside_def by blast
    qed
  qed
  have uw: "user_space (k\<lparr>pmem := m'\<rparr>) root n ps" "vmap (k\<lparr>pmem := m'\<rparr>) root = vmap k root"
    "pt_pages 2 m' root = pt_pages 2 (pmem k) root"
    using user_space_write [OF us, of m'] keep unfolding space_pages_def by auto
  show "user_space (k\<lparr>pmem := m'\<rparr>) root n ps" by (rule uw(1))
  show vm: "vmap (k\<lparr>pmem := m'\<rparr>) root = vmap k root" by (rule uw(2))
  show "space_pages (k\<lparr>pmem := m'\<rparr>) root n ps = space_pages k root n ps"
    unfolding space_pages_def vm by (simp add: uw(3))
  show "umem (k\<lparr>pmem := m'\<rparr>) root va = umem k root va" if "vpn va < n" for va
  proof -
    have "PTE2PA (vmap k root (vpn va)) \<in> space_pages k root n ps" using that by (auto simp: space_pages_def)
    from keep [OF this] show ?thesis unfolding umem_def vm by simp
  qed
qed

lemma umem_chunk:
  assumes "unat va mod 4096 + i < 4096" "vpn va < NVPN"
  shows "vpn (va + of_nat i) = vpn va" "umem k root (va + of_nat i) = pmem k (upa k root va + of_nat i)"
proof -
  have b: "unat va < 274877906944" using assms(2) by (simp add: NVPN_def)
  have u: "unat (va + of_nat i) = unat va + i"
    using b assms(1) by (subst unat_add_u64) (simp_all add: unat_of_nat_u64)
  have e: "unat va = 4096 * vpn va + unat va mod 4096" by simp
  show v: "vpn (va + of_nat i) = vpn va" using u e assms(1) by linarith
  have "unat (va + of_nat i) mod 4096 = unat va mod 4096 + i"
    using u v e mult_div_mod_eq [of 4096 "unat (va + of_nat i)"] by linarith
  then show "umem k root (va + of_nat i) = pmem k (upa k root va + of_nat i)"
    unfolding umem_def v upa_def by (simp add: add.assoc)
qed

definition copied_in :: "u64 \<Rightarrow> nat \<Rightarrow> u64 list \<Rightarrow> u64 \<Rightarrow> u64 \<Rightarrow> nat \<Rightarrow> kst \<Rightarrow> (int \<times> kst) kres \<Rightarrow> bool" where
  "copied_in root n ps dst srcva len k res \<longleftrightarrow>
     (\<exists>k'. res = Ok (if range_acc k root (unat srcva) len then 0 else - 1, k') \<and>
        user_space k' root n ps \<and> vmap k' root = vmap k root \<and>
        (\<forall>a. \<not> in_range dst len a \<longrightarrow> pmem k' a = pmem k a) \<and>
        (range_acc k root (unat srcva) len \<longrightarrow>
          (\<forall>i < len. pmem k' (dst + of_nat i) = umem k root (srcva + of_nat i))))"

lemma copyin_step:
  assumes us: "user_space k root n ps" and len: "0 < len" and acc: "uacc k root (vpn srcva)"
    and out: "buffer_outside (space_pages k root n ps) dst (unat len)"
  defines "k1 \<equiv> k\<lparr>pmem := memmove (pmem k) dst (upa k root srcva) (ucast (chunk srcva len))\<rparr>"
  shows "copyin root dst srcva len k =
      copyin root (dst + chunk srcva len) (PGROUNDDOWN srcva + PGSIZE) (len - chunk srcva len) k1"
    "user_space k1 root n ps" "vmap k1 root = vmap k root"
    "space_pages k1 root n ps = space_pages k root n ps"
    "\<And>va. vpn va < n \<Longrightarrow> umem k1 root va = umem k root va"
    "\<And>a. \<not> in_range dst (unat (chunk srcva len)) a \<Longrightarrow> pmem k1 a = pmem k a"
    "\<And>i. i < unat (chunk srcva len) \<Longrightarrow> pmem k1 (dst + of_nat i) = umem k root (srcva + of_nat i)"
proof -
  note cf = chunk_facts [OF len, of srcva]
  have d: "vpn srcva < n" using us acc by (simp add: user_space_def)
  have dv: "vpn srcva < NVPN" using acc by (simp add: uacc_def)
  have inv: "uvm_inv k root n ps" using us by (simp add: user_space_def)
  note gp = uvm_page_good(1) [OF inv d]
  have s: "unat (upa k root srcva) + unat (ucast (chunk srcva len) :: u32) < 2 ^ 64"
    using unat_upa [OF inv d] good_page_props(2) [OF gp] cf(3,4) by simp
  have t: "unat dst + unat (ucast (chunk srcva len) :: u32) \<le> 2 ^ 64"
    using out cf(2,4) by (simp add: buffer_outside_def)
  have m: "pmem k1 = (\<lambda>a. if in_range dst (unat (chunk srcva len)) a then pmem k (upa k root srcva + (a - dst)) else pmem k a)"
    using memmove_eq [OF s t] cf(4) by (simp add: k1_def)
  then show same: "pmem k1 a = pmem k a" if "\<not> in_range dst (unat (chunk srcva len)) a" for a
    using that by simp
  have "pmem k1 a = pmem k a" if "\<not> in_range dst (unat len) a" for a
    using that cf(2) in_range_mono same by blast
  from buffer_write [OF us out this]
  show "user_space k1 root n ps" "vmap k1 root = vmap k root" "space_pages k1 root n ps = space_pages k root n ps"
    "\<And>va. vpn va < n \<Longrightarrow> umem k1 root va = umem k root va" by (simp_all add: k1_def)
  show "pmem k1 (dst + of_nat i) = umem k root (srcva + of_nat i)" if i: "i < unat (chunk srcva len)" for i
  proof -
    have "unat (chunk srcva len) \<le> 4096" using cf(3) by simp
    then have "unat (of_nat i :: u64) = i" using i by (intro unat_of_nat_u64) simp
    then have "pmem k1 (dst + of_nat i) = pmem k (upa k root srcva + of_nat i)" using i by (simp add: m in_range_def)
    then show ?thesis using umem_chunk(2) [of srcva i k root] i cf(3) dv by simp
  qed
  have "vpn (PGROUNDDOWN srcva) = vpn srcva" by (simp add: unat_PGROUNDDOWN)
  then have "walkaddr root (PGROUNDDOWN srcva) k = Ok (PTE2PA (vmap k root (vpn srcva)))"
    using walkaddr_spec [OF us, of "PGROUNDDOWN srcva"] acc by simp
  moreover have "PTE2PA (vmap k root (vpn srcva)) + (srcva - PGROUNDDOWN srcva) = upa k root srcva"
    by (simp add: page_off upa_def)
  ultimately show "copyin root dst srcva len k =
      copyin root (dst + chunk srcva len) (PGROUNDDOWN srcva + PGSIZE) (len - chunk srcva len) k1"
    using len uvm_page_good(2) [OF inv d] by (simp add: copyin.simps [of root dst] Let_def k1_def)
qed

lemma in_range_split:
  assumes "c \<le> l" "l < 18446744073709551616"
  shows "in_range d l a \<longleftrightarrow> in_range d c a \<or> in_range (d + of_nat c) (l - c) a"
proof -
  let ?x = "unat (a - d)"
  have c: "unat (of_nat c :: u64) = c" using assms by (intro unat_of_nat_u64) simp
  have e: "a - (d + of_nat c) = (a - d) - of_nat c" by simp
  show ?thesis
  proof (cases "c \<le> ?x")
    case True
    then have "unat ((a - d) - of_nat c) = ?x - c" using c by (subst unat_sub) (simp_all add: word_le_nat_alt)
    then show ?thesis using True unfolding in_range_def e by linarith
  next
    case False
    then show ?thesis using assms unfolding in_range_def by auto
  qed
qed

lemma in_range_before:
  assumes "i < c" "c \<le> l" "l < 18446744073709551616"
  shows "\<not> in_range (d + of_nat c) (l - c) (d + of_nat i)"
proof -
  have u: "unat (of_nat c :: u64) = c" "unat (of_nat i :: u64) = i" using assms by (auto intro!: unat_of_nat_u64)
  have "(d + of_nat i) - (d + of_nat c) = of_nat i - (of_nat c :: u64)" by simp
  moreover have "unat (of_nat i - (of_nat c :: u64)) = 18446744073709551616 + i - c"
    using u assms(1) unat_sub_wrap [of "of_nat i :: u64" "of_nat c"] by (simp add: word_less_nat_alt)
  ultimately show ?thesis using assms unfolding in_range_def by simp
qed

lemma copyin_0: "copyin root dst srcva 0 k = Ok (0, k)"
  by (simp add: copyin.simps)

lemma copyin_spec:
  assumes "user_space k root n ps" "buffer_outside (space_pages k root n ps) dst (unat len)"
  shows "copied_in root n ps dst srcva (unat len) k (copyin root dst srcva len k)"
  using assms
proof (induction "unat len" arbitrary: dst srcva len k rule: less_induct)
  case less
  show ?case
  proof (cases "0 < len")
    case False
    then have "unat len = 0" by (simp add: word_less_nat_alt)
    then show ?thesis
      using less.prems False by (auto simp: copied_in_def copyin.simps range_acc_def)
  next
    case len: True
    define c where "c = chunk srcva len"
    note cf = chunk_facts [OF len, of srcva, folded c_def]
    note ra = range_acc_chunk [OF cf(1,3,2), of k root]
    show ?thesis
    proof (cases "uacc k root (vpn srcva)")
      case False
      then have "walkaddr root (PGROUNDDOWN srcva) k = Ok 0"
        using walkaddr_spec [OF less.prems(1), of "PGROUNDDOWN srcva"] by (simp add: unat_PGROUNDDOWN)
      then have "copyin root dst srcva len k = Ok (- 1, k)"
        using len by (simp add: copyin.simps [of root dst] Let_def)
      then show ?thesis using False ra less.prems(1) by (simp add: copied_in_def)
    next
      case acc: True
      define k1 where "k1 = k\<lparr>pmem := memmove (pmem k) dst (upa k root srcva) (ucast c)\<rparr>"
      note st = copyin_step [OF less.prems(1) len acc less.prems(2), folded c_def, folded k1_def]
      show ?thesis
      proof (cases "unat c < unat len")
        case False
        then have c: "unat c = unat len" "c = len" using cf(2) by (auto simp: word_unat_eq_iff)
        have "copyin root dst srcva len k = Ok (0, k1)" using st(1) c(2) by (simp add: copyin_0)
        moreover have "range_acc k root (unat srcva) (unat len)" using ra acc c(1) by (simp add: range_acc_def)
        ultimately show ?thesis using st(2,3,6,7) c(1) by (simp add: copied_in_def)
      next
        case lt: True
        have "vpn srcva < NVPN" using acc by (simp add: uacc_def)
        then have nx: "PGROUNDDOWN srcva + PGSIZE = srcva + c" "unat (srcva + c) = unat srcva + unat c"
          using cf(6) lt by auto
        have o1: "buffer_outside (space_pages k1 root n ps) (dst + c) (unat (len - c))"
          unfolding st(4) cf(5) by (rule buffer_outside_drop [OF less.prems(2) cf(2)])
        have "copied_in root n ps (dst + c) (srcva + c) (unat (len - c)) k1 (copyin root (dst + c) (srcva + c) (len - c) k1)"
          using less.hyps [OF _ st(2) o1] cf(1,2,5) lt by simp
        then obtain k' where k': "copyin root (dst + c) (srcva + c) (len - c) k1 =
            Ok (if range_acc k root (unat srcva + unat c) (unat len - unat c) then 0 else - 1, k')"
          "user_space k' root n ps" "vmap k' root = vmap k root"
          "\<And>a. \<not> in_range (dst + c) (unat len - unat c) a \<Longrightarrow> pmem k' a = pmem k1 a"
          "range_acc k root (unat srcva + unat c) (unat len - unat c) \<Longrightarrow> \<forall>i < unat len - unat c.
             pmem k' (dst + c + of_nat i) = umem k1 root (srcva + c + of_nat i)"
          unfolding copied_in_def nx(2) cf(5) range_acc_cong [OF st(3)] using st(3) by auto
        have ll: "unat len < 18446744073709551616" by simp
        note split = in_range_split [OF cf(2) ll, of dst, simplified]
        have frame: "pmem k' a = pmem k a" if "\<not> in_range dst (unat len) a" for a
          using that split k'(4) st(6) by simp
        have vals: "pmem k' (dst + of_nat i) = umem k root (srcva + of_nat i)"
          if r: "range_acc k root (unat srcva) (unat len)" and i: "i < unat len" for i
        proof (cases "i < unat c")
          case True
          then show ?thesis using k'(4) in_range_before [OF True cf(2) ll, of dst] st(7) by simp
        next
          case False
          define j where "j = i - unat c"
          have ij: "i = unat c + j" "j < unat len - unat c" using False i by (auto simp: j_def)
          have "uacc k root ((unat srcva + i) div 4096)" using r i by (simp add: range_acc_def)
          then have vn: "(unat srcva + i) div 4096 < n" "(unat srcva + i) div 4096 < NVPN"
            using less.prems(1) by (auto simp: user_space_def uacc_def)
          then have "unat srcva + i < 274877906944" by (simp add: NVPN_def)
          then have "unat (srcva + of_nat i) = unat srcva + i"
            by (subst unat_add_u64) (simp_all add: unat_of_nat_u64)
          then have "umem k1 root (srcva + of_nat i) = umem k root (srcva + of_nat i)" using st(5) vn(1) by simp
          moreover have "pmem k' (dst + c + of_nat j) = umem k1 root (srcva + c + of_nat j)"
            using k'(5) ra r ij(2) by simp
          ultimately show ?thesis by (simp add: ij(1) add.assoc)
        qed
        show ?thesis
          using st(1) k'(1-3) frame vals ra acc unfolding nx(1) copied_in_def by auto
      qed
    qed
  qed
qed

section \<open>copyinstr\<close>

text \<open>\<open>n\<close> bytes copied from \<open>p\<close> to \<open>dst\<close>.\<close>

definition put_bytes :: "mem \<Rightarrow> u64 \<Rightarrow> u64 \<Rightarrow> nat \<Rightarrow> mem" where
  "put_bytes m dst p n = (\<lambda>a. if in_range dst n a then m (p + (a - dst)) else m a)"

definition chunk_outcome :: "nat \<Rightarrow> u64 \<Rightarrow> u64 \<Rightarrow> u64 \<Rightarrow> mem \<Rightarrow> bool \<times> u64 \<times> u64 \<times> mem \<Rightarrow> bool" where
  "chunk_outcome n p dst mx m res \<longleftrightarrow>
     (\<exists>j d x. j < n \<and> m (p + of_nat j) = 0 \<and> (\<forall>i < j. m (p + of_nat i) \<noteq> 0) \<and>
        res = (True, d, x, put_bytes m dst p (Suc j))) \<or>
     (\<forall>i < n. m (p + of_nat i) \<noteq> 0) \<and>
        res = (False, dst + of_nat n, mx - of_nat n, put_bytes m dst p n)"

lemma put_bytes_shift:
  assumes "n < 4096" "\<And>i. i \<le> n \<Longrightarrow> p + of_nat i \<noteq> dst"
  shows "put_bytes (m(dst := m p)) (dst + 1) (p + 1) n = put_bytes m dst p (Suc n)"
proof (rule ext)
  fix a
  have r: "in_range dst (Suc n) a \<longleftrightarrow> a = dst \<or> in_range (dst + 1) n a"
    using in_range_Suc [of n dst a] assms(1) by simp
  have e: "p + 1 + (a - (dst + 1)) = p + (a - dst)" by simp
  show "put_bytes (m(dst := m p)) (dst + 1) (p + 1) n a = put_bytes m dst p (Suc n) a"
  proof (cases "in_range (dst + 1) n a")
    case True
    define i where "i = unat (a - (dst + 1))"
    have "i < n" "p + (a - dst) = p + of_nat (Suc i)" using True by (simp_all add: i_def in_range_def)
    then have "p + (a - dst) \<noteq> dst" using assms(2) [of "Suc i"] by simp
    then show ?thesis using True r unfolding put_bytes_def e by simp
  next
    case False
    then show ?thesis using r unfolding put_bytes_def by auto
  qed
qed

lemma copyinstr_chunk_spec:
  assumes "n \<le> 4096" "\<And>i j. i < n \<Longrightarrow> j < n \<Longrightarrow> p + of_nat i \<noteq> dst + of_nat j"
  shows "chunk_outcome n p dst mx m (copyinstr_chunk n p dst mx m)"
  using assms
proof (induction n arbitrary: p dst mx m)
  case 0
  then show ?case by (simp add: chunk_outcome_def put_bytes_def)
next
  case (Suc n)
  have ne: "p + of_nat i \<noteq> dst" if "i \<le> n" for i using Suc.prems(2) [of i 0] that by simp
  show ?case
  proof (cases "m p = 0")
    case True
    have "put_bytes m dst p (Suc 0) = m(dst := 0)"
      using in_range_Suc [of 0 dst] True by (auto simp: put_bytes_def)
    then show ?thesis using True unfolding chunk_outcome_def by (auto intro!: exI [of _ 0])
  next
    case False
    let ?m = "m(dst := m p)"
    have "chunk_outcome n (p + 1) (dst + 1) (mx - 1) ?m (copyinstr_chunk n (p + 1) (dst + 1) (mx - 1) ?m)"
    proof (rule Suc.IH)
      fix i j assume "i < n" "j < n"
      then show "p + 1 + of_nat i \<noteq> dst + 1 + of_nat j" using Suc.prems(2) [of "Suc i" "Suc j"] by (simp add: add.assoc)
    qed (use Suc.prems(1) in simp)
    moreover have same: "?m (p + 1 + of_nat i) = m (p + of_nat (Suc i))" if "i < n" for i
      using ne [of "Suc i"] that by (simp add: add.assoc)
    moreover have pb: "put_bytes ?m (dst + 1) (p + 1) l = put_bytes m dst p (Suc l)" if "l \<le> n" for l
      using that Suc.prems(1) ne by (intro put_bytes_shift) auto
    ultimately show ?thesis
      unfolding chunk_outcome_def [of n]
    proof (elim disjE exE conjE)
      fix j d x
      assume j: "j < n" "?m (p + 1 + of_nat j) = 0" "\<forall>i<j. ?m (p + 1 + of_nat i) \<noteq> 0"
        "copyinstr_chunk n (p + 1) (dst + 1) (mx - 1) ?m = (True, d, x, put_bytes ?m (dst + 1) (p + 1) (Suc j))"
      have "m (p + of_nat (Suc j)) = 0" using same [OF j(1)] j(2) by (simp only:)
      moreover have "\<forall>i < Suc j. m (p + of_nat i) \<noteq> 0"
        unfolding All_less_Suc2 using False j(1,3) same by auto
      moreover have "copyinstr_chunk (Suc n) p dst mx m = (True, d, x, put_bytes m dst p (Suc (Suc j)))"
        using False j(1,4) pb [of "Suc j"] by simp
      ultimately show ?thesis
        unfolding chunk_outcome_def using j(1)
        by (intro disjI1 exI [of _ "Suc j"] exI [of _ d] exI [of _ x]) simp
    next
      assume j: "\<forall>i<n. ?m (p + 1 + of_nat i) \<noteq> 0"
        "copyinstr_chunk n (p + 1) (dst + 1) (mx - 1) ?m =
          (False, dst + 1 + of_nat n, mx - 1 - of_nat n, put_bytes ?m (dst + 1) (p + 1) n)"
      have "\<forall>i < Suc n. m (p + of_nat i) \<noteq> 0"
        unfolding All_less_Suc2 using False j(1) same by auto
      moreover have "copyinstr_chunk (Suc n) p dst mx m =
          (False, dst + of_nat (Suc n), mx - of_nat (Suc n), put_bytes m dst p (Suc n))"
        using False j(2) pb [of n] by (simp add: algebra_simps)
      ultimately show ?thesis unfolding chunk_outcome_def by blast
    qed
  qed
qed

text \<open>The string at \<open>srcva\<close> ends after \<open>j\<close> bytes, inside \<open>mx\<close> and inside accessible pages.\<close>

definition ustr_len :: "kst \<Rightarrow> u64 \<Rightarrow> u64 \<Rightarrow> nat \<Rightarrow> nat \<Rightarrow> bool" where
  "ustr_len k root srcva mx j \<longleftrightarrow> j < mx \<and> range_acc k root (unat srcva) (Suc j) \<and>
     umem k root (srcva + of_nat j) = 0 \<and> (\<forall>i < j. umem k root (srcva + of_nat i) \<noteq> 0)"

definition copied_str :: "u64 \<Rightarrow> nat \<Rightarrow> u64 list \<Rightarrow> u64 \<Rightarrow> u64 \<Rightarrow> nat \<Rightarrow> kst \<Rightarrow> (int \<times> kst) kres \<Rightarrow> bool" where
  "copied_str root n ps dst srcva mx k res \<longleftrightarrow>
     (\<exists>r k'. res = Ok (r, k') \<and> user_space k' root n ps \<and> vmap k' root = vmap k root \<and>
        (\<forall>a. \<not> in_range dst mx a \<longrightarrow> pmem k' a = pmem k a) \<and>
        ((\<forall>j. \<not> ustr_len k root srcva mx j) \<longrightarrow> r = - 1) \<and>
        (\<forall>j. ustr_len k root srcva mx j \<longrightarrow> r = 0 \<and>
          (\<forall>i \<le> j. pmem k' (dst + of_nat i) = umem k root (srcva + of_nat i))))"

lemma ustr_len_unique: "ustr_len k root s mx i \<Longrightarrow> ustr_len k root s mx j \<Longrightarrow> i = j"
  unfolding ustr_len_def by (metis linorder_neqE_nat)

text \<open>One round of the outer loop, when the page is accessible.\<close>

lemma copyinstr_round:
  assumes us: "user_space k root n ps" and mx: "0 < mx" and acc: "uacc k root (vpn srcva)"
    and out: "buffer_outside (space_pages k root n ps) dst (unat mx)"
  defines "c \<equiv> unat (chunk srcva mx)"
  shows "copyinstr root dst srcva mx k =
      (case copyinstr_chunk c (upa k root srcva) dst mx (pmem k) of (g, d, x, m) \<Rightarrow>
         if g then Ok (0, k\<lparr>pmem := m\<rparr>)
         else copyinstr root d (PGROUNDDOWN srcva + PGSIZE) x (k\<lparr>pmem := m\<rparr>))"
    "chunk_outcome c (upa k root srcva) dst mx (pmem k) (copyinstr_chunk c (upa k root srcva) dst mx (pmem k))"
    "\<And>i. i < c \<Longrightarrow> umem k root (srcva + of_nat i) = pmem k (upa k root srcva + of_nat i)"
proof -
  note cf = chunk_facts [OF mx, of srcva]
  have d: "vpn srcva < n" using us acc by (simp add: user_space_def)
  have dv: "vpn srcva < NVPN" using acc by (simp add: uacc_def)
  have inv: "uvm_inv k root n ps" using us by (simp add: user_space_def)
  show um: "umem k root (srcva + of_nat i) = pmem k (upa k root srcva + of_nat i)" if "i < c" for i
    using umem_chunk(2) [of srcva i] that cf(3) dv by (simp add: c_def)
  have "vpn (PGROUNDDOWN srcva) = vpn srcva" by (simp add: unat_PGROUNDDOWN)
  then have "walkaddr root (PGROUNDDOWN srcva) k = Ok (PTE2PA (vmap k root (vpn srcva)))"
    using walkaddr_spec [OF us, of "PGROUNDDOWN srcva"] acc by simp
  moreover have "PTE2PA (vmap k root (vpn srcva)) + (srcva - PGROUNDDOWN srcva) = upa k root srcva"
    by (simp add: page_off upa_def)
  ultimately show "copyinstr root dst srcva mx k =
      (case copyinstr_chunk c (upa k root srcva) dst mx (pmem k) of (g, d, x, m) \<Rightarrow>
         if g then Ok (0, k\<lparr>pmem := m\<rparr>)
         else copyinstr root d (PGROUNDDOWN srcva + PGSIZE) x (k\<lparr>pmem := m\<rparr>))"
    using mx uvm_page_good(2) [OF inv d] by (simp add: copyinstr.simps [of root dst] Let_def c_def)
  show "chunk_outcome c (upa k root srcva) dst mx (pmem k) (copyinstr_chunk c (upa k root srcva) dst mx (pmem k))"
  proof (rule copyinstr_chunk_spec)
    show "c \<le> 4096" using cf(3) by (simp add: c_def)
    fix i j assume ij: "i < c" "j < c"
    have "upa k root srcva + of_nat i = PTE2PA (vmap k root (vpn srcva)) + of_nat (unat srcva mod 4096 + i)"
      by (simp add: upa_def)
    then have "in_page (PTE2PA (vmap k root (vpn srcva))) (upa k root srcva + of_nat i)"
      using ij(1) cf(3) in_page_add [of "unat srcva mod 4096 + i"] by (simp add: c_def del: of_nat_add)
    moreover have "PTE2PA (vmap k root (vpn srcva)) \<in> space_pages k root n ps" using d by (auto simp: space_pages_def)
    moreover have "j < unat mx" using ij(2) cf(2) by (simp add: c_def)
    ultimately show "upa k root srcva + of_nat i \<noteq> dst + of_nat j"
      using out unfolding buffer_outside_def by metis
  qed
qed

lemma acc_addr:
  assumes "user_space k root n ps" "uacc k root ((unat va + i) div 4096)"
  shows "unat (va + of_nat i) = unat va + i" "vpn (va + of_nat i) < n"
proof -
  have vn: "(unat va + i) div 4096 < n" "(unat va + i) div 4096 < NVPN"
    using assms by (auto simp: user_space_def uacc_def)
  then have "unat va + i < 274877906944" by (simp add: NVPN_def)
  then show u: "unat (va + of_nat i) = unat va + i"
    by (subst unat_add_u64) (simp_all add: unat_of_nat_u64)
  show "vpn (va + of_nat i) < n" using vn(1) u by simp
qed

lemma range_acc_page:
  assumes "uacc k root (va div 4096)" "va mod 4096 + l \<le> 4096" "0 < l"
  shows "range_acc k root va l"
  using range_acc_chunk [OF assms(3,2) order_refl, of k root] assms(1) by (simp add: range_acc_def)

text \<open>The string continues in the next chunk.\<close>

lemma ustr_len_shift:
  assumes us: "user_space k root n ps" and acc: "uacc k root (vpn s)" and c: "0 < c" "unat s mod 4096 + c \<le> 4096" "c \<le> mx"
    and nz: "\<forall>i<c. umem k root (s + of_nat i) \<noteq> 0" and u: "unat (s + of_nat c) = unat s + c"
    and k1: "vmap k1 root = vmap k root" "\<And>va. vpn va < n \<Longrightarrow> umem k1 root va = umem k root va"
  shows "ustr_len k root s mx j \<longleftrightarrow> c \<le> j \<and> ustr_len k1 root (s + of_nat c) (mx - c) (j - c)"
proof (cases "c \<le> j")
  case False
  then show ?thesis using nz by (auto simp: ustr_len_def)
next
  case True
  have e: "s + of_nat c + of_nat (i - c) = s + of_nat i" if "c \<le> i" for i
    using that by (simp add: add.assoc flip: of_nat_add)
  have sj: "Suc j - c = Suc (j - c)" using True by simp
  have ra: "range_acc k1 root (unat (s + of_nat c)) (Suc (j - c)) \<longleftrightarrow> range_acc k root (unat s) (Suc j)"
    using range_acc_chunk [OF c(1,2), of "Suc j" k root] True acc sj
    by (simp add: u range_acc_cong [OF k1(1)])
  have um: "umem k1 root (s + of_nat i) = umem k root (s + of_nat i)" if "range_acc k root (unat s) (Suc j)" "i \<le> j" for i
    using acc_addr(2) [OF us] that k1(2) unfolding range_acc_def by (metis le_imp_less_Suc)
  have "(\<forall>i<j - c. umem k1 root (s + of_nat c + of_nat i) \<noteq> 0) \<longleftrightarrow> (\<forall>i<j. umem k root (s + of_nat i) \<noteq> 0)"
    if r: "range_acc k root (unat s) (Suc j)"
  proof
    assume a: "\<forall>i<j - c. umem k1 root (s + of_nat c + of_nat i) \<noteq> 0"
    show "\<forall>i<j. umem k root (s + of_nat i) \<noteq> 0"
    proof (intro allI impI)
      fix i assume i: "i < j"
      show "umem k root (s + of_nat i) \<noteq> 0"
      proof (cases "i < c")
        case False
        then have "umem k1 root (s + of_nat i) \<noteq> 0" using a i e [of i] by (metis diff_less_mono not_less)
        then show ?thesis using um [OF r, of i] i by simp
      qed (use nz in simp)
    qed
  next
    assume a: "\<forall>i<j. umem k root (s + of_nat i) \<noteq> 0"
    show "\<forall>i<j - c. umem k1 root (s + of_nat c + of_nat i) \<noteq> 0"
    proof (intro allI impI)
      fix i assume i: "i < j - c"
      then have ci: "c + i < j" by simp
      then have "umem k root (s + of_nat (c + i)) \<noteq> 0" "c + i \<le> j" using a by (blast, simp)
      then show "umem k1 root (s + of_nat c + of_nat i) \<noteq> 0" using um [OF r, of "c + i"] by (simp add: add.assoc)
    qed
  qed
  moreover have "umem k1 root (s + of_nat c + of_nat (j - c)) = umem k root (s + of_nat j)"
    if r: "range_acc k root (unat s) (Suc j)" using um [OF r, of j] unfolding e [OF True] by simp
  ultimately show ?thesis using True c(3) ra unfolding ustr_len_def by auto
qed

lemma copyinstr_0: "copyinstr root dst srcva 0 k = Ok (- 1, k)"
  by (simp add: copyinstr.simps)

lemma copied_str_found:
  assumes us: "user_space k root n ps" and out: "buffer_outside (space_pages k root n ps) dst mx"
    and j: "ustr_len k root s mx j" and b: "\<And>i. i \<le> j \<Longrightarrow> umem k root (s + of_nat i) = pmem k (p + of_nat i)"
  shows "copied_str root n ps dst s mx k (Ok (0, k\<lparr>pmem := put_bytes (pmem k) dst p (Suc j)\<rparr>))"
proof -
  let ?m = "put_bytes (pmem k) dst p (Suc j)"
  have jm: "j < mx" "mx < 18446744073709551616" using j out by (auto simp: ustr_len_def buffer_outside_def)
  have fr: "?m a = pmem k a" if "\<not> in_range dst mx a" for a
    using that jm in_range_mono [of dst "Suc j" a mx] by (auto simp: put_bytes_def)
  have val: "?m (dst + of_nat i) = umem k root (s + of_nat i)" if "i \<le> j" for i
  proof -
    have "unat (of_nat i :: u64) = i" using that jm by (intro unat_of_nat_u64) simp
    then show ?thesis using that b by (simp add: put_bytes_def in_range_def)
  qed
  note bw = buffer_write(1,2) [OF us out fr]
  show ?thesis
    unfolding copied_str_def
  proof (intro exI conjI allI impI)
    show "pmem (k\<lparr>pmem := ?m\<rparr>) a = pmem k a" if "\<not> in_range dst mx a" for a using fr that by simp
    show "0 = (- 1 :: int)" if "\<forall>j. \<not> ustr_len k root s mx j" using that j by blast
    show "pmem (k\<lparr>pmem := ?m\<rparr>) (dst + of_nat i) = umem k root (s + of_nat i)" if "ustr_len k root s mx l" "i \<le> l" for l i
      using val ustr_len_unique [OF j that(1)] that(2) by simp
  qed (use bw in simp_all)
qed

lemma copied_str_continue:
  assumes IH: "copied_str root n ps (dst + of_nat c) (s + of_nat c) (mx - c) k1 res"
    and sh: "\<And>j. ustr_len k root s mx j \<longleftrightarrow> c \<le> j \<and> ustr_len k1 root (s + of_nat c) (mx - c) (j - c)"
    and w: "\<And>i. i < c \<Longrightarrow> pmem k1 (dst + of_nat i) = umem k root (s + of_nat i)"
      "\<And>a. \<not> in_range dst c a \<Longrightarrow> pmem k1 a = pmem k a"
    and k1: "vmap k1 root = vmap k root" "\<And>va. vpn va < n \<Longrightarrow> umem k1 root va = umem k root va"
    and us: "user_space k root n ps" and c: "c \<le> mx" "mx < 18446744073709551616"
  shows "copied_str root n ps dst s mx k res"
proof -
  obtain r k' where k': "res = Ok (r, k')" "user_space k' root n ps" "vmap k' root = vmap k root"
    "\<And>a. \<not> in_range (dst + of_nat c) (mx - c) a \<Longrightarrow> pmem k' a = pmem k1 a"
    "(\<forall>j. \<not> ustr_len k1 root (s + of_nat c) (mx - c) j) \<Longrightarrow> r = - 1"
    "\<And>j. ustr_len k1 root (s + of_nat c) (mx - c) j \<Longrightarrow> r = 0 \<and>
       (\<forall>i \<le> j. pmem k' (dst + of_nat c + of_nat i) = umem k1 root (s + of_nat c + of_nat i))"
    using IH k1(1) unfolding copied_str_def by auto
  note split = in_range_split [OF c]
  have "pmem k' a = pmem k a" if "\<not> in_range dst mx a" for a
    using that split k'(4) w(2) by simp
  moreover have "r = - 1" if "\<forall>j. \<not> ustr_len k root s mx j"
  proof (rule k'(5), rule allI)
    fix j
    show "\<not> ustr_len k1 root (s + of_nat c) (mx - c) j" using that sh [of "c + j"] by simp
  qed
  moreover have "r = 0 \<and> (\<forall>i \<le> j. pmem k' (dst + of_nat i) = umem k root (s + of_nat i))"
    if j: "ustr_len k root s mx j" for j
  proof -
    have cj: "c \<le> j" and j1: "ustr_len k1 root (s + of_nat c) (mx - c) (j - c)" using j sh by auto
    have "pmem k' (dst + of_nat i) = umem k root (s + of_nat i)" if i: "i \<le> j" for i
    proof (cases "i < c")
      case True
      then show ?thesis using k'(4) in_range_before [OF True c, of dst] w(1) by simp
    next
      case False
      then have e: "x + of_nat c + of_nat (i - c) = x + (of_nat i :: u64)" for x
        by (simp add: add.assoc flip: of_nat_add)
      have "uacc k root ((unat s + i) div 4096)" using j i unfolding ustr_len_def range_acc_def by auto
      then have "umem k1 root (s + of_nat i) = umem k root (s + of_nat i)" using acc_addr(2) [OF us] k1(2) by blast
      moreover have "pmem k' (dst + of_nat c + of_nat (i - c)) = umem k1 root (s + of_nat c + of_nat (i - c))"
        using k'(6) [OF j1] diff_le_mono [OF i, of c] by blast
      ultimately show ?thesis unfolding e by simp
    qed
    then show ?thesis using k'(6) [OF j1] by blast
  qed
  ultimately show ?thesis using k'(1-3) unfolding copied_str_def by blast
qed

lemma copyinstr_spec:
  assumes "user_space k root n ps" "buffer_outside (space_pages k root n ps) dst (unat mx)"
  shows "copied_str root n ps dst srcva (unat mx) k (copyinstr root dst srcva mx k)"
  using assms
proof (induction "unat mx" arbitrary: dst srcva mx k rule: less_induct)
  case less
  show ?case
  proof (cases "0 < mx")
    case False
    then have "mx = 0" "unat mx = 0" by (simp_all add: word_neq_0_conv [symmetric])
    then show ?thesis
      using less.prems by (simp add: copied_str_def copyinstr_0 ustr_len_def)
  next
    case mx: True
    define c where "c = unat (chunk srcva mx)"
    note cf = chunk_facts [OF mx, of srcva, folded c_def]
    show ?thesis
    proof (cases "uacc k root (vpn srcva)")
      case False
      then have "walkaddr root (PGROUNDDOWN srcva) k = Ok 0"
        using walkaddr_spec [OF less.prems(1), of "PGROUNDDOWN srcva"] by (simp add: unat_PGROUNDDOWN)
      then have "copyinstr root dst srcva mx k = Ok (- 1, k)"
        using mx by (simp add: copyinstr.simps [of root dst] Let_def)
      moreover have "\<not> ustr_len k root srcva (unat mx) j" for j
        using False unfolding ustr_len_def range_acc_def by (metis add_0_right zero_less_Suc)
      ultimately show ?thesis using less.prems(1) by (simp add: copied_str_def)
    next
      case acc: True
      note ro = copyinstr_round [OF less.prems(1) mx acc less.prems(2), folded c_def]
      from ro(2) [unfolded chunk_outcome_def] show ?thesis
      proof (elim disjE exE conjE)
        fix j d x
        assume j: "j < c" "pmem k (upa k root srcva + of_nat j) = 0" "\<forall>i<j. pmem k (upa k root srcva + of_nat i) \<noteq> 0"
          "copyinstr_chunk c (upa k root srcva) dst mx (pmem k) =
            (True, d, x, put_bytes (pmem k) dst (upa k root srcva) (Suc j))"
        have "ustr_len k root srcva (unat mx) j"
          using j(1-3) ro(3) cf(2,3) acc range_acc_page [of k root "unat srcva" "Suc j"]
          unfolding ustr_len_def by auto
        from copied_str_found [OF less.prems this, of "upa k root srcva"] ro(1,3) j(1,4)
        show ?thesis by simp
      next
        assume z: "\<forall>i<c. pmem k (upa k root srcva + of_nat i) \<noteq> 0"
          "copyinstr_chunk c (upa k root srcva) dst mx (pmem k) =
            (False, dst + of_nat c, mx - of_nat c, put_bytes (pmem k) dst (upa k root srcva) c)"
        define k1 where "k1 = k\<lparr>pmem := put_bytes (pmem k) dst (upa k root srcva) c\<rparr>"
        have nz: "\<forall>i<c. umem k root (srcva + of_nat i) \<noteq> 0" using z(1) ro(3) by simp
        have fr: "put_bytes (pmem k) dst (upa k root srcva) c a = pmem k a" if "\<not> in_range dst (unat mx) a" for a
          using that cf(2) in_range_mono [of dst c a "unat mx"] by (auto simp: put_bytes_def)
        note bw = buffer_write [OF less.prems fr, folded k1_def]
        have rec: "copyinstr root dst srcva mx k =
            copyinstr root (dst + chunk srcva mx) (PGROUNDDOWN srcva + PGSIZE) (mx - chunk srcva mx) k1"
          using ro(1) z(2) by (simp add: k1_def c_def)
        show ?thesis
        proof (cases "c < unat mx")
          case False
          then have "chunk srcva mx = mx" "c = unat mx" using cf(2) by (auto simp: c_def word_unat_eq_iff)
          then have "copyinstr root dst srcva mx k = Ok (- 1, k1)" using rec by (simp add: copyinstr_0)
          moreover have "\<not> ustr_len k root srcva (unat mx) j" for j
            using nz \<open>c = unat mx\<close> by (auto simp: ustr_len_def)
          ultimately show ?thesis using bw(1,2) fr by (simp add: copied_str_def k1_def)
        next
          case lt: True
          have "vpn srcva < NVPN" using acc by (simp add: uacc_def)
          then have nx: "PGROUNDDOWN srcva + PGSIZE = srcva + of_nat c" "unat (srcva + of_nat c) = unat srcva + c"
            using chunk_facts(6) [OF mx, of srcva] lt by (auto simp: c_def)
          have rec': "copyinstr root dst srcva mx k = copyinstr root (dst + of_nat c) (srcva + of_nat c) (mx - chunk srcva mx) k1"
            using rec nx(1) by (simp add: c_def)
          have o1: "buffer_outside (space_pages k1 root n ps) (dst + of_nat c) (unat (mx - chunk srcva mx))"
            using buffer_outside_drop [OF less.prems(2), of "chunk srcva mx"] cf(2,5) bw(3) by (simp add: c_def)
          have IH: "copied_str root n ps (dst + of_nat c) (srcva + of_nat c) (unat mx - c) k1
              (copyinstr root (dst + of_nat c) (srcva + of_nat c) (mx - chunk srcva mx) k1)"
            using less.hyps [OF _ bw(1) o1] cf(1,2,5) lt by simp
          note sh = ustr_len_shift [OF less.prems(1) acc cf(1,3,2) nz nx(2) bw(2,4)]
          have "\<And>i. i < c \<Longrightarrow> pmem k1 (dst + of_nat i) = umem k root (srcva + of_nat i)"
            using ro(3) cf(3) by (simp add: k1_def put_bytes_def in_range_def unat_of_nat_u64)
          moreover have "\<And>a. \<not> in_range dst c a \<Longrightarrow> pmem k1 a = pmem k a" by (simp add: k1_def put_bytes_def)
          ultimately show ?thesis
            unfolding rec' using copied_str_continue [OF IH sh _ _ bw(2,4) less.prems(1) cf(2)] by simp
        qed
      qed
    qed
  qed
qed

end
