(* ===== verification/Vm_Correct.thy ===== *)
theory Vm_Correct
  imports Vm_Copy
begin

text \<open>
  The correctness of vm.c, stated operation by operation: lookups and insertions in a page table,
  growing, shrinking, copying and freeing a user address space, the copies between kernel and user
  memory, and the isolation of address spaces from one another. The small machine built here from
  \<open>freerange\<close>, \<open>uvmcreate\<close> and \<open>uvmalloc\<close> is the instance on which the properties are applied.
\<close>

unbundle bit_operations_syntax

section \<open>How many pages a walk needs\<close>

lemma walk_alloc_enough:
  assumes "pt_inv l k pt ps" "l \<le> length ps"
  shows "fst (walk_loop l pt va True k) \<noteq> 0"
  using assms
proof (induction l arbitrary: pt k ps)
  case 0
  then show ?case using pt_inv_nonzero [OF 0(1), of pt "unat (PX 0 va)"] by simp
next
  case (Suc l)
  define i where "i = unat (PX (Suc l) va)"
  have i: "i < 512" "PX (Suc l) va = of_nat i" by (simp_all add: i_def)
  show ?case
  proof (cases "pte_valid (ent (pmem k) pt i)")
    case True
    from Suc.IH [OF pt_inv_child [OF Suc.prems(1) i(1) True]] Suc.prems(2) True show ?thesis
      by (simp add: Let_def ent_PX i_def [symmetric])
  next
    case False
    obtain p ps1 where ps: "ps = p # ps1" using Suc.prems(2) by (cases ps) auto
    obtain r1 k1 where k1: "kalloc k = (r1, k1)" by fastforce
    define k2 where "k2 = set_pte (pt + 8 * of_nat i) (PA2PTE p OR PTE_V) (zero_page p k1)"
    note fg = fresh_grows [OF Suc.prems(1) [unfolded ps] i(1) False k1 k2_def]
    have inv2: "pt_inv (Suc l) k2 pt ps1" using fg(1) by (simp only: grows_def)
    have v2: "pte_valid (ent (pmem k2) pt i)" using fg(2) by simp
    have "fst (walk_loop l p va True k2) \<noteq> 0"
      using Suc.IH [OF pt_inv_child [OF inv2 i(1) v2]] Suc.prems(2) ps fg(2,3) by simp
    then show ?thesis
      using False k1 fg(4,5) by (simp add: Let_def ent_PX i_def [symmetric]) (simp add: i(2) k2_def)
  qed
qed

lemma mappages_page_ok:
  assumes inv: "pt_inv 2 k root ps" and n: "n < NVPN" "\<not> pte_valid (vmap k root n)" "unat a = 4096 * n"
    and ps: "2 \<le> length ps"
  shows "\<exists>k'. mappages root a PGSIZE pa perm k = Ok (0, k')"
proof -
  have va: "a < MAXVA" "vpn a = n" using n(1,3) by (simp_all add: MAXVA_vpn)
  have "unat (a + 4095) = 4096 * n + 4095"
    using n(1,3) by (simp add: NVPN_def unat_add_u64 [of a 4095])
  moreover have "a + PGSIZE - 1 = a + 4095" by (simp add: PGSIZE_def)
  ultimately have e: "PGROUNDDOWN a = a" "PGROUNDDOWN (a + PGSIZE - 1) = a"
    using n(3) by (simp_all add: word_unat_eq_iff unat_PGROUNDDOWN)
  obtain r k1 ps1 where w: "walk root a True k = Ok (r, k1)"
    "r \<noteq> 0 \<Longrightarrow> load64 (pmem k1) r = vmap k root n"
    using walk_alloc_vmap [OF inv va(1)] va(2) by metis
  have "r \<noteq> 0" using walk_alloc_enough [OF inv ps, of a] w(1) va(1) by (auto simp: walk_def split: if_splits)
  then show ?thesis
    using w n(2) unfolding mappages_def e by (subst mappages_loop.simps) (simp add: PGSIZE_def Let_def)
qed

lemma uvmalloc_page_ok:
  assumes inv: "uvm_inv k root n ps" and ps: "3 \<le> length ps" and a: "unat a = 4096 * n"
    and sz: "pages_of newsz = Suc n" "Suc n \<le> NVPN - 2"
  shows "\<exists>k'. uvmalloc_loop root a oldsz newsz xperm k = Ok (newsz, k')"
proof -
  obtain p ps1 where p: "ps = p # ps1" "2 \<le> length ps1" using ps by (cases ps) auto
  obtain r k1 where k1: "kalloc k = (r, k1)" by fastforce
  have as: "as_inv k root [0..<n] (p # ps1)" using inv p(1) by (simp add: uvm_inv_def)
  then have ki: "kinv k (p # ps1)" by (simp add: as_inv_def pt_inv_def)
  have zp: "zero_page p k1 = k1\<lparr>pmem := pmem (zero_page p k1)\<rparr>" by (simp add: zero_page_def)
  note prep = kalloc_prepared [OF ki k1 changes_zero_page, folded zp]
  note mf = map_fresh_prepared [OF as prep(3-5)]
  have "n < NVPN" "\<not> pte_valid (vmap (zero_page p k1) root n)"
    using inv sz(2) by (auto simp: mf(3) uvm_inv_def)
  then obtain k3 where k3: "mappages root a PGSIZE p (ucast (PTE_R OR PTE_U) OR xperm) (zero_page p k1) = Ok (0, k3)"
    using mappages_page_ok [OF mf(1) _ _ a p(2)] by blast
  have "unat (a + PGSIZE) = 4096 * Suc n"
    using a sz(2) by (simp add: PGSIZE_def unat_add_u64 NVPN_def)
  then have "\<not> a + PGSIZE < newsz" "a < newsz"
    using less_pages_of [of "a + PGSIZE" "Suc n" newsz] less_pages_of [OF a, of newsz] sz(1) by auto
  then show ?thesis
    using k1 prep(1,2) k3 uvmalloc_loop.simps [of root "a + PGSIZE"]
    by (simp add: uvmalloc_loop.simps [of root a])
qed

section \<open>A small machine\<close>

text \<open>Eight free pages, an empty address space at the first of them, and one user page in it.\<close>

definition demo_boot :: kst where
  "demo_boot = \<lparr>kernel_end = 0x80021000, pmem = (\<lambda>_. 0), freelist = 0\<rparr>"

definition demo_pages :: "u64 list" where
  "demo_pages = [0x80028000, 0x80027000, 0x80026000, 0x80025000, 0x80024000, 0x80023000, 0x80022000]"

definition demo_mem :: kst where
  "demo_mem = (case freerange 0x80022000 0x8002A000 demo_boot of Ok k \<Rightarrow> k | _ \<Rightarrow> demo_boot)"

definition demo_space :: kst where
  "demo_space = snd (uvmcreate demo_mem)"

definition demo_user :: kst where
  "demo_user = (case uvmalloc 0x80029000 0 4096 (ucast PTE_W) demo_space of Ok (_, k) \<Rightarrow> k | _ \<Rightarrow> demo_space)"

lemma demo_mem_kinv: "kinv demo_mem (0x80029000 # demo_pages)" "kernel_end demo_mem = 0x80021000"
proof -
  have k0: "kinv demo_boot []" by (simp add: kinv_def demo_boot_def)
  have "PGROUNDUP 0x80022000 = 0x80022000"
    by (simp add: word_unat_eq_iff unat_PGROUNDUP)
  moreover have "rev (page_range 0x80022000 8) = 0x80029000 # demo_pages"
    by (simp add: page_range_def demo_pages_def upt_rec)
  moreover have "\<exists>k'. freerange_loop 0x80022000 0x8002A000 demo_boot = Ok k' \<and>
      kinv k' (rev (page_range 0x80022000 8) @ []) \<and> kernel_end k' = kernel_end demo_boot"
    by (rule freerange_loop_kinv [OF k0]) (simp_all add: demo_boot_def)
  ultimately have "\<exists>k'. freerange 0x80022000 0x8002A000 demo_boot = Ok k' \<and> kinv k' (0x80029000 # demo_pages) \<and>
      kernel_end k' = 0x80021000" by (simp add: freerange_def demo_boot_def)
  then show "kinv demo_mem (0x80029000 # demo_pages)" "kernel_end demo_mem = 0x80021000"
    by (auto simp: demo_mem_def)
qed

lemma demo_space_inv:
  "uvmcreate demo_mem = (0x80029000, demo_space)" "uvm_inv demo_space 0x80029000 0 demo_pages"
  "vmap demo_space 0x80029000 = (\<lambda>_. 0)"
  using uvmcreate_spec [OF demo_mem_kinv(1)] by (metis demo_space_def snd_conv)+

text \<open>A second, empty address space, then one page for the first.\<close>

definition demo_child :: kst where
  "demo_child = snd (uvmcreate demo_space)"

definition demo_pair :: kst where
  "demo_pair = (case uvmalloc 0x80029000 0 4096 (ucast PTE_W) demo_child of Ok (_, k) \<Rightarrow> k | _ \<Rightarrow> demo_child)"

lemma good_perm_user:
  "good_perm (ucast (PTE_R OR PTE_U) OR ucast PTE_W)" "good_perm (ucast (PTE_R OR PTE_U))"
  "scast (ucast (PTE_R OR PTE_U) OR ucast PTE_W :: u32) OR PTE_V = (0x17 :: u64)"
  by (simp_all add: good_perm_def pte_flag_defs)

lemma grow_one_page:
  assumes "uvm_inv k root 0 ps" "3 \<le> length ps"
  shows "\<exists>k' ps'. uvmalloc root 0 4096 (ucast PTE_W) k = Ok (4096, k') \<and> grown root (\<lambda>_. 0x17) k 0 ps k' 1 ps'"
proof -
  have r: "PGROUNDUP 0 = 0" by (simp add: word_unat_eq_iff unat_PGROUNDUP)
  have p: "pages_of 4096 = Suc 0" "pages_of 4096 \<le> NVPN - 2" by (simp_all add: pages_of_def NVPN_def)
  have "alloc_outcome root (\<lambda>_. 0x17) k 0 ps 0 4096 (uvmalloc_loop root 0 0 4096 (ucast PTE_W) k)"
    using uvmalloc_loop_spec [OF assms(1), of 0 0 0 4096 "ucast PTE_W"] p good_perm_user by simp
  moreover have "\<exists>k'. uvmalloc_loop root 0 0 4096 (ucast PTE_W) k = Ok (4096, k')"
    using uvmalloc_page_ok [OF assms, of 0 4096] p by simp
  ultimately show ?thesis unfolding alloc_outcome_def p(1) by (auto simp: uvmalloc_def r)
qed

lemma demo_user_grown:
  "\<exists>ps. uvmalloc 0x80029000 0 4096 (ucast PTE_W) demo_space = Ok (4096, demo_user) \<and>
    grown 0x80029000 (\<lambda>_. 0x17) demo_space 0 demo_pages demo_user 1 ps"
  using grow_one_page [OF demo_space_inv(2)] by (auto simp: demo_user_def demo_pages_def)

lemma demo_child_inv:
  "uvm_inv demo_child 0x80028000 0 (tl demo_pages)" "uvm_inv demo_child 0x80029000 0 (tl demo_pages)"
  "set (pt_pages 2 (pmem demo_child) 0x80028000) \<inter> set_mset (own demo_child 0x80029000 0 (tl demo_pages)) = {}"
proof -
  have ps: "demo_pages = 0x80028000 # tl demo_pages" by (simp add: demo_pages_def)
  have a: "as_inv demo_space 0x80029000 [0..<0] (0x80028000 # tl demo_pages)"
    and inv: "\<forall>j. \<not> pte_valid (vmap demo_space 0x80029000 j)"
    using demo_space_inv(2,3) ps by (simp_all add: uvm_inv_def pte_valid_def)
  then have ki: "kinv demo_space (0x80028000 # tl demo_pages)" by (simp add: as_inv_def pt_inv_def)
  then have c: "uvm_inv demo_child 0x80028000 0 (tl demo_pages)" "kernel_end demo_child = kernel_end demo_space"
    "changes (pmem demo_space) (pmem demo_child) {0x80028000}"
    "own demo_child 0x80028000 0 (tl demo_pages) = mset (0x80028000 # tl demo_pages)"
    using uvmcreate_spec [OF ki] by (metis demo_child_def snd_conv)+
  have "page_aligned 0x80028000" by (simp add: page_aligned_def)
  moreover have dj: "set (pt_pages 2 (pmem demo_space) 0x80029000) \<inter> set (0x80028000 # tl demo_pages) = {}"
    using a by (auto simp: as_inv_def)
  moreover have k': "kinv demo_child (tl demo_pages)" using c(1) by (simp add: uvm_inv_def as_inv_def pt_inv_def)
  ultimately have f: "as_inv demo_child 0x80029000 [0..<0] (tl demo_pages)"
    "vmap demo_child 0x80029000 = vmap demo_space 0x80029000"
    "pt_pages 2 (pmem demo_child) 0x80029000 = pt_pages 2 (pmem demo_space) 0x80029000"
    using tree_frame [OF as_inv_pt [OF a] c(3) _ _ k' c(2)] a by (auto simp: as_inv_def kinv_def)
  show "uvm_inv demo_child 0x80028000 0 (tl demo_pages)" by (rule c(1))
  show "uvm_inv demo_child 0x80029000 0 (tl demo_pages)" using f inv by (simp add: uvm_inv_def)
  have "pt_pages 2 (pmem demo_child) 0x80028000 = [0x80028000]" using c(4) by (simp add: own_def)
  then show "set (pt_pages 2 (pmem demo_child) 0x80028000) \<inter> set_mset (own demo_child 0x80029000 0 (tl demo_pages)) = {}"
    using dj by (auto simp: own_def f(3) demo_pages_def)
qed

lemma demo_pair_inv:
  obtains ps where "uvm_inv demo_pair 0x80029000 1 ps" "uvm_inv demo_pair 0x80028000 0 ps"
    "set (pt_pages 2 (pmem demo_pair) 0x80029000 @ data_pages demo_pair 0x80029000 [0..<1]) \<inter>
     set_mset (own demo_pair 0x80028000 0 ps) = {}"
proof -
  have "3 \<le> length (tl demo_pages)" by (simp add: demo_pages_def)
  from grow_one_page [OF demo_child_inv(2) this]
  obtain ps where g: "grown 0x80029000 (\<lambda>_. 0x17) demo_child 0 (tl demo_pages) demo_pair 1 ps"
    by (auto simp: demo_pair_def)
  let ?S = "set_mset (own demo_child 0x80029000 0 (tl demo_pages))"
  have a: "as_inv demo_child 0x80028000 [0..<0] (tl demo_pages)"
    and nv: "\<forall>j. j < NVPN - 2 \<or> NVPN \<le> j \<longrightarrow> \<not> pte_valid (vmap demo_child 0x80028000 j)"
    using demo_child_inv(1) by (simp_all add: uvm_inv_def)
  have g': "uvm_inv demo_pair 0x80029000 1 ps" "kernel_end demo_pair = kernel_end demo_child"
    "changes (pmem demo_child) (pmem demo_pair) ?S" "own demo_pair 0x80029000 1 ps = own demo_child 0x80029000 0 (tl demo_pages)"
    using g by (simp_all add: grown_def)
  have k': "kinv demo_pair ps" "set ps \<subseteq> ?S"
    using g'(1) unfolding g'(4) [symmetric] by (auto simp: uvm_inv_def as_inv_def pt_inv_def own_set)
  have al: "\<forall>p\<in>?S. page_aligned p" using own_aligned [OF demo_child_inv(2)] by blast
  have dj: "set (pt_pages 2 (pmem demo_child) 0x80028000 @ data_pages demo_child 0x80028000 [0..<0]) \<inter> ?S = {}"
    using demo_child_inv(3) by simp
  note f = other_frame [OF a g'(3) al dj k'(1) g'(2) k'(2)]
  have b: "uvm_inv demo_pair 0x80028000 0 ps" using f(1,2) nv by (simp add: uvm_inv_def)
  have "set (pt_pages 2 (pmem demo_pair) 0x80029000 @ data_pages demo_pair 0x80029000 [0..<1]) \<inter> set ps = {}"
    using g'(1) by (auto simp: uvm_inv_def as_inv_def)
  moreover have "set (pt_pages 2 (pmem demo_pair) 0x80029000 @ data_pages demo_pair 0x80029000 [0..<1]) \<subseteq> ?S"
    unfolding g'(4) [symmetric] own_set by auto
  ultimately have "set (pt_pages 2 (pmem demo_pair) 0x80029000 @ data_pages demo_pair 0x80029000 [0..<1]) \<inter>
     set_mset (own demo_pair 0x80028000 0 ps) = {}"
    using dj unfolding own_set f(3) by auto
  then show ?thesis using that g'(1) b by blast
qed

lemma demo_user_inv:
  obtains ps where "uvm_inv demo_user 0x80029000 1 ps" "user_space demo_user 0x80029000 1 ps"
    "mset (0x80029000 # demo_pages) = own demo_user 0x80029000 1 ps"
    "uacc demo_user 0x80029000 0" "\<And>j. 0 < j \<Longrightarrow> \<not> pte_valid (vmap demo_user 0x80029000 j)"
    "kernel_end demo_user = 0x80021000"
proof -
  obtain ps where g: "grown 0x80029000 (\<lambda>_. 0x17) demo_space 0 demo_pages demo_user 1 ps"
    using demo_user_grown by blast
  have inv: "uvm_inv demo_user 0x80029000 1 ps" and fl: "PTE_FLAGS (vmap demo_user 0x80029000 0) = 0x17"
    and top: "\<And>j. NVPN - 2 \<le> j \<Longrightarrow> vmap demo_user 0x80029000 j = 0"
    using g by (simp_all add: grown_def demo_space_inv(3))
  have nv: "\<not> pte_valid (vmap demo_user 0x80029000 j)" if "0 < j" for j
    using inv top [of j] that unfolding uvm_inv_def by (cases "j < NVPN - 2") auto
  have "vmap demo_user 0x80029000 0 AND PTE_U = PTE_FLAGS (vmap demo_user 0x80029000 0) AND PTE_U"
    by (simp add: PTE_FLAGS_def PTE_U_def and.assoc push_bit_eq_mult)
  then have "vmap demo_user 0x80029000 0 AND PTE_U \<noteq> 0" unfolding fl by (simp add: PTE_U_def push_bit_eq_mult)
  then have ua: "uacc demo_user 0x80029000 0" using inv by (simp add: uacc_def uvm_inv_def as_inv_def)
  have us: "user_space demo_user 0x80029000 1 ps"
    using inv nv unfolding user_space_def uacc_def by (metis less_one neq0_conv)
  obtain k' where "own k' 0x80029000 0 demo_pages = mset (0x80029000 # demo_pages)" "k' = demo_space" "kernel_end k' = kernel_end demo_mem"
    using uvmcreate_spec [OF demo_mem_kinv(1)] demo_space_inv(1) by (metis prod.inject)
  moreover note demo_mem_kinv(2)
  ultimately show ?thesis using that [OF inv us _ ua nv] g by (simp add: grown_def)
qed

lemma uvmalloc_outcome:
  assumes "uvm_inv k root (pages_of oldsz) ps" "oldsz \<le> newsz" "pages_of newsz \<le> NVPN - 2"
    "good_perm (ucast (PTE_R OR PTE_U) OR xperm)"
  shows "(\<exists>k' ps'. uvmalloc root oldsz newsz xperm k = Ok (newsz, k') \<and>
      grown root (\<lambda>_. scast (ucast (PTE_R OR PTE_U) OR xperm :: u32) OR PTE_V) k (pages_of oldsz) ps k' (pages_of newsz) ps' \<and>
      (\<forall>va. pages_of oldsz \<le> vpn va \<and> vpn va < pages_of newsz \<longrightarrow> umem k' root va = 0)) \<or>
    (\<exists>k' ps'. uvmalloc root oldsz newsz xperm k = Ok (0, k') \<and>
      shrunk root k (pages_of oldsz) ps k' (pages_of oldsz) ps')"
proof -
  have n: "pages_of oldsz \<le> pages_of newsz"
    using assms(2) by (simp add: pages_of_def word_le_nat_alt div_le_mono)
  then have "unat (PGROUNDUP oldsz) = 4096 * pages_of oldsz" using assms(3) by (intro unat_PGROUNDUP_pages) simp
  note l = uvmalloc_loop_spec [OF assms(1) order_refl this this n assms(3,4)]
  have "uvmalloc root oldsz newsz xperm k = uvmalloc_loop root (PGROUNDUP oldsz) (PGROUNDUP oldsz) newsz xperm k"
    using assms(2) by (simp add: uvmalloc_def linorder_not_less [symmetric])
  with l show ?thesis unfolding alloc_outcome_def by simp
qed

section \<open>Properties\<close>

text \<open>
  C21: \<open>walk\<close> with allocation, on any well-formed page table and any address below \<open>MAXVA\<close>,
  changes no mapping, moves pages only from the free list into the table, and returns either the
  address of the entry of \<open>va\<close>, the one a walk without allocation then finds, or 0 when the free
  list is empty.
\<close>
theorem walk_correct:
  assumes "pt_inv 2 k root ps" "va < MAXVA"
  shows "\<exists>r k' ps'. walk root va True k = Ok (r, k') \<and> evolves root k ps k' ps' \<and>
    vmap k' root = vmap k root \<and> (r = 0 \<longrightarrow> ps' = []) \<and>
    (r \<noteq> 0 \<longrightarrow> walk root va False k' = Ok (r, k') \<and> load64 (pmem k') r = vmap k root (vpn va))"
proof -
  obtain r k' ps' where w: "walk root va True k = Ok (r, k')" "evolves root k ps k' ps'"
    "vmap k' root = vmap k root" "r = 0 \<Longrightarrow> ps' = []"
    "r \<noteq> 0 \<Longrightarrow> walk_loop 2 root va False k' = (r, k')"
    "r \<noteq> 0 \<Longrightarrow> load64 (pmem k') r = vmap k root (vpn va)"
    using walk_alloc_vmap [OF assms] by metis
  then show ?thesis using assms(2) by (auto simp: walk_def)
qed

theorem walk_correct_witness:
  "\<exists>r k' ps'. walk 0x80029000 0x1234 True demo_space = Ok (r, k') \<and>
     vmap k' 0x80029000 = (\<lambda>_. 0) \<and> (r = 0 \<longrightarrow> ps' = []) \<and> pt_inv 2 k' 0x80029000 ps'"
proof -
  have "pt_inv 2 demo_space 0x80029000 demo_pages" using demo_space_inv(2) by (simp add: uvm_inv_def as_inv_def)
  moreover have "(0x1234 :: u64) < MAXVA" by (simp add: layout_defs)
  ultimately show ?thesis using walk_correct demo_space_inv(3) unfolding evolves_def by metis
qed

text \<open>
  C20: \<open>mappages\<close> over a range of unmapped pages below \<open>MAXVA\<close> never panics. When it returns 0,
  every page of the range maps to the corresponding physical page with the given permissions and
  all other mappings are unchanged; it returns -1 only when the free list is exhausted, with a
  prefix of the range mapped.
\<close>
theorem mappages_correct:
  assumes "pt_inv 2 k root ps" "sz \<noteq> 0" "unat va + unat sz \<le> 274877906944"
    "\<forall>j. vpn va \<le> j \<and> j \<le> vpn (va + sz - 1) \<longrightarrow> \<not> pte_valid (vmap k root j)"
  shows "\<exists>r k' ps' d. mappages root va sz pa perm k = Ok (r, k') \<and> evolves root k ps k' ps' \<and>
    vmap k' root = map_range (vpn va) d pa perm (vmap k root) \<and>
    (r = 0 \<and> d = Suc (vpn (va + sz - 1) - vpn va) \<or>
     r = - 1 \<and> d < Suc (vpn (va + sz - 1) - vpn va) \<and> ps' = [])"
  using mappages_spec [OF assms, of pa perm] unfolding mapped_or_oom_def by blast

theorem mappages_correct_witness:
  "\<exists>r k' d. mappages 0x80029000 0x1000 0x1001 0x90000000 6 demo_space = Ok (r, k') \<and>
     vmap k' 0x80029000 = map_range 1 d 0x90000000 6 (\<lambda>_. 0) \<and> (r = 0 \<and> d = Suc (2 - 1) \<or> r = - 1 \<and> d < Suc (2 - 1))"
proof -
  have i: "pt_inv 2 demo_space 0x80029000 demo_pages" using demo_space_inv(2) by (simp add: uvm_inv_def as_inv_def)
  have v: "vpn 0x1000 = 1" "vpn (0x1000 + 0x1001 - 1) = 2" by simp_all
  have s: "(0x1001::u64) \<noteq> 0" "unat (0x1000::u64) + unat (0x1001::u64) \<le> 274877906944" by simp_all
  have n: "\<forall>j. vpn 0x1000 \<le> j \<and> j \<le> vpn (0x1000 + 0x1001 - 1) \<longrightarrow> \<not> pte_valid (vmap demo_space 0x80029000 j)"
    unfolding demo_space_inv(3) by (simp add: pte_valid_def)
  from mappages_correct [OF i s n, of "0x90000000" 6] show ?thesis unfolding v demo_space_inv(3) by blast
qed

text \<open>
  C19: \<open>uvmalloc\<close> either grows the process to \<open>newsz\<close>, with every new page zero-filled and mapped
  with the requested permissions, or returns 0 with the address space exactly as large as before
  and every page it took back on the free list. In both cases the existing user memory and
  mappings are untouched.
\<close>
theorem uvmalloc_correct:
  assumes "uvm_inv k root (pages_of oldsz) ps" "oldsz \<le> newsz" "pages_of newsz \<le> NVPN - 2"
    "good_perm (ucast (PTE_R OR PTE_U) OR xperm)"
  shows "(\<exists>k' ps'. uvmalloc root oldsz newsz xperm k = Ok (newsz, k') \<and>
      grown root (\<lambda>_. scast (ucast (PTE_R OR PTE_U) OR xperm :: u32) OR PTE_V) k (pages_of oldsz) ps k' (pages_of newsz) ps' \<and>
      (\<forall>va. pages_of oldsz \<le> vpn va \<and> vpn va < pages_of newsz \<longrightarrow> umem k' root va = 0)) \<or>
    (\<exists>k' ps'. uvmalloc root oldsz newsz xperm k = Ok (0, k') \<and>
      shrunk root k (pages_of oldsz) ps k' (pages_of oldsz) ps')"
  using assms by (rule uvmalloc_outcome)

theorem uvmalloc_correct_witness:
  "\<exists>r k'. uvmalloc 0x80029000 0 0x2000 (ucast PTE_W) demo_space = Ok (r, k') \<and> (r = 0x2000 \<or> r = 0)"
  using uvmalloc_correct [of demo_space "0x80029000" 0 demo_pages "0x2000" "ucast PTE_W"] demo_space_inv(2) good_perm_user
  by (auto simp: pages_of_def NVPN_def)

text \<open>
  C22: \<open>uvmdealloc\<close> to a smaller size never panics on a well-formed address space, puts every page
  above the new size back on the free list and leaves the user memory below it unchanged.
\<close>
theorem uvmdealloc_correct:
  assumes "uvm_inv k root (pages_of oldsz) ps" "newsz \<le> oldsz"
  shows "\<exists>k' ps'. uvmdealloc root oldsz newsz k = Ok (newsz, k') \<and>
    shrunk root k (pages_of oldsz) ps k' (pages_of newsz) ps'"
  using assms by (rule uvmdealloc_spec)

theorem uvmdealloc_correct_witness:
  "\<exists>k' ps ps'. uvmdealloc 0x80029000 4096 7 demo_user = Ok (7, k') \<and> shrunk 0x80029000 demo_user 1 ps k' 1 ps'"
proof -
  obtain ps where "uvm_inv demo_user 0x80029000 1 ps" using demo_user_inv by blast
  then show ?thesis using uvmdealloc_correct [of demo_user "0x80029000" 4096 ps 7] by (auto simp: pages_of_def)
qed

text \<open>
  C18: tearing down an address space whose trapframe and trampoline have been unmapped terminates,
  does not panic and leaks nothing: the free list afterwards holds exactly the old free pages,
  the user pages and all page-table pages, each once.
\<close>
theorem uvmfree_correct:
  assumes "uvm_inv k root (pages_of sz) ps"
    "\<not> pte_valid (vmap k root (NVPN - 2))" "\<not> pte_valid (vmap k root (NVPN - 1))"
  shows "\<exists>k' ps'. uvmfree root sz k = Some (Ok k') \<and> kinv k' ps' \<and> mset ps' = own k root (pages_of sz) ps \<and>
    kernel_end k' = kernel_end k \<and> changes (pmem k) (pmem k') (set_mset (own k root (pages_of sz) ps))"
  using assms by (rule uvmfree_spec)

theorem uvmfree_correct_witness:
  "\<exists>k' ps'. uvmfree 0x80029000 4096 demo_user = Some (Ok k') \<and> kinv k' ps' \<and> mset ps' = mset (0x80029000 # demo_pages)"
proof -
  obtain ps where d: "uvm_inv demo_user 0x80029000 1 ps" "mset (0x80029000 # demo_pages) = own demo_user 0x80029000 1 ps"
    "\<And>j. 0 < j \<Longrightarrow> \<not> pte_valid (vmap demo_user 0x80029000 j)" using demo_user_inv by blast
  have p: "pages_of 4096 = 1" by (simp add: pages_of_def)
  have t: "\<not> pte_valid (vmap demo_user 0x80029000 (NVPN - 2))" "\<not> pte_valid (vmap demo_user 0x80029000 (NVPN - 1))"
    using d(3) [of "NVPN - 2"] d(3) [of "NVPN - 1"] by (simp_all add: NVPN_def)
  show ?thesis using uvmfree_correct [of demo_user "0x80029000" 4096 ps] d(1,2) t unfolding p by auto
qed

text \<open>
  C1: \<open>uvmcopy\<close> of a parent into a fresh child either gives the child the same bytes and the same
  permissions at every address, or returns -1 with the child empty again and no page lost. The
  parent's mappings and memory are unchanged either way.
\<close>
theorem uvmcopy_correct:
  assumes "as_inv k old [0..<pages_of sz] ps" "uvm_inv k new 0 ps" "pages_of sz \<le> NVPN - 2"
    "set (pt_pages 2 (pmem k) old @ data_pages k old [0..<pages_of sz]) \<inter> set_mset (own k new 0 ps) = {}"
  shows "\<exists>r k' n ps'. uvmcopy old new sz k = Ok (r, k') \<and> uvm_inv k' new n ps' \<and> own k' new n ps' = own k new 0 ps \<and>
    vmap k' old = vmap k old \<and> (\<forall>va. vpn va < pages_of sz \<longrightarrow> umem k' old va = umem k old va) \<and>
    (r = 0 \<and> n = pages_of sz \<and> (\<forall>va. vpn va < n \<longrightarrow> umem k' new va = umem k old va) \<and>
       (\<forall>j < n. PTE_FLAGS (vmap k' new j) = PTE_FLAGS (vmap k old j)) \<or>
     r = - 1 \<and> n = 0)"
proof -
  have al: "\<forall>p\<in>set_mset (own k new 0 ps). page_aligned p" using own_aligned [OF assms(2)] by blast
  have parent: "vmap k' old = vmap k old" "\<forall>va. vpn va < pages_of sz \<longrightarrow> umem k' old va = umem k old va"
    if "uvm_inv k' new n ps'" "own k' new n ps' = own k new 0 ps" "kernel_end k' = kernel_end k"
      "changes (pmem k) (pmem k') (set_mset (own k new 0 ps))" for k' n ps'
  proof -
    have "kinv k' ps'" "set ps' \<subseteq> set_mset (own k new 0 ps)"
      using that(1) unfolding that(2) [symmetric] by (auto simp: uvm_inv_def as_inv_def pt_inv_def own_set)
    from other_frame(2,4) [OF assms(1) that(4) al assms(4) this(1) that(3) this(2)]
    show "vmap k' old = vmap k old" "\<forall>va. vpn va < pages_of sz \<longrightarrow> umem k' old va = umem k old va" by blast+
  qed
  have "copy_outcome old new k 0 ps (pages_of sz) (uvmcopy old new sz k)"
    unfolding uvmcopy_def by (rule uvmcopy_loop_spec [OF assms(1,2,4)]) (use assms(3) in simp_all)
  then show ?thesis
    unfolding copy_outcome_def
  proof (elim disjE exE conjE)
    fix k' ps'
    assume r: "uvmcopy old new sz k = Ok (0, k')" "grown new (\<lambda>j. PTE_FLAGS (vmap k old j)) k 0 ps k' (pages_of sz) ps'"
      "\<forall>va. 0 \<le> vpn va \<and> vpn va < pages_of sz \<longrightarrow> umem k' new va = umem k old va"
    then show ?thesis
      using parent [of k' "pages_of sz" ps']
      by (intro exI [of _ 0] exI [of _ k'] exI [of _ "pages_of sz"] exI [of _ ps']) (simp add: grown_def)
  next
    fix k' ps' assume "uvmcopy old new sz k = Ok (- 1, k')" "shrunk new k 0 ps k' 0 ps'"
    then show ?thesis
      using parent [of k' 0 ps']
      by (intro exI [of _ "- 1"] exI [of _ k'] exI [of _ 0] exI [of _ ps']) (simp add: shrunk_def)
  qed
qed

theorem uvmcopy_correct_witness:
  "\<exists>r k'. uvmcopy 0x80029000 0x80028000 4096 demo_pair = Ok (r, k') \<and> vmap k' 0x80029000 = vmap demo_pair 0x80029000 \<and>
     (r = 0 \<and> umem k' 0x80028000 7 = umem demo_pair 0x80029000 7 \<or> r = - 1)"
proof -
  obtain ps where d: "uvm_inv demo_pair 0x80029000 1 ps" "uvm_inv demo_pair 0x80028000 0 ps"
    "set (pt_pages 2 (pmem demo_pair) 0x80029000 @ data_pages demo_pair 0x80029000 [0..<1]) \<inter>
     set_mset (own demo_pair 0x80028000 0 ps) = {}" using demo_pair_inv .
  have p: "pages_of 4096 = 1" by (simp add: pages_of_def)
  have a: "as_inv demo_pair 0x80029000 [0..<1] ps" "1 \<le> NVPN - 2" using d(1) by (simp_all add: uvm_inv_def)
  note c = uvmcopy_correct [where sz = 4096, unfolded p, OF a(1) d(2) a(2) d(3)]
  have "vpn 7 < 1" by simp
  with c show ?thesis by blast
qed

lemma demo_buffer:
  assumes "uvm_inv demo_user 0x80029000 1 ps" "kernel_end demo_user = 0x80021000"
  shows "buffer_outside (space_pages demo_user 0x80029000 1 ps) 0x80020000 16"
proof -
  have lo: "0x80021000 \<le> unat p \<and> unat p < 0x88000000" if "p \<in> space_pages demo_user 0x80029000 1 ps" for p
  proof -
    have "good_page (kernel_end demo_user) p"
      using assms(1) that by (auto simp: space_pages_def uvm_inv_def as_inv_def pt_inv_def kinv_def)
    then show ?thesis unfolding assms(2) by (simp add: good_page_def word_le_nat_alt word_less_nat_alt layout_defs)
  qed
  have "\<not> in_page p (0x80020000 + of_nat i)" if "i < 16" "p \<in> space_pages demo_user 0x80029000 1 ps" for i p
  proof -
    have "unat (0x80020000 + of_nat i :: u64) = 0x80020000 + i" using that(1) by (simp add: unat_add_u64 unat_of_nat)
    then show ?thesis using lo [OF that(2)] that(1) by (auto simp: in_range_def unat_sub_if')
  qed
  then show ?thesis by (simp add: buffer_outside_def)
qed

text \<open>
  C2: address spaces are isolated. Whatever \<open>uvmalloc\<close>, \<open>uvmdealloc\<close> and \<open>copyout\<close> do to one
  address space, an address space that shares no page with it and with the free list keeps
  its mappings, its invariant and every byte its user sees.
\<close>
theorem address_spaces_isolated:
  assumes "as_inv k other [0..<m] ps" "uvm_inv k root (pages_of oldsz) ps"
    "set (pt_pages 2 (pmem k) other @ data_pages k other [0..<m]) \<inter> set_mset (own k root (pages_of oldsz) ps) = {}"
    "good_perm (ucast (PTE_R OR PTE_U) OR xperm)" "pages_of newsz \<le> NVPN - 2"
  shows "\<exists>r k' ps'. (if oldsz \<le> newsz then uvmalloc root oldsz newsz xperm k else uvmdealloc root oldsz newsz k) = Ok (r, k') \<and>
    as_inv k' other [0..<m] ps' \<and> vmap k' other = vmap k other \<and>
    (\<forall>va. vpn va < m \<longrightarrow> umem k' other va = umem k other va)"
proof -
  let ?S = "set_mset (own k root (pages_of oldsz) ps)"
  let ?op = "if oldsz \<le> newsz then uvmalloc root oldsz newsz xperm k else uvmdealloc root oldsz newsz k"
  have "\<exists>r k' n ps'. ?op = Ok (r, k') \<and> uvm_inv k' root n ps' \<and> own k' root n ps' = own k root (pages_of oldsz) ps \<and>
    kernel_end k' = kernel_end k \<and> changes (pmem k) (pmem k') ?S"
  proof (cases "oldsz \<le> newsz")
    case True
    then show ?thesis using uvmalloc_outcome [OF assms(2) True assms(5,4)] by (auto simp: grown_def shrunk_def)
  next
    case False
    then have "newsz \<le> oldsz" by simp
    from uvmdealloc_spec [OF assms(2) this] show ?thesis using False by (auto simp: shrunk_def)
  qed
  then obtain r k' n ps' where op: "?op = Ok (r, k')" and k': "uvm_inv k' root n ps'"
    "own k' root n ps' = own k root (pages_of oldsz) ps" "kernel_end k' = kernel_end k" "changes (pmem k) (pmem k') ?S"
    by blast
  have s: "kinv k' ps'" "set ps' \<subseteq> ?S"
    using k'(1) unfolding k'(2) [symmetric] by (auto simp: uvm_inv_def as_inv_def pt_inv_def own_set)
  have "\<forall>p\<in>?S. page_aligned p" using own_aligned [OF assms(2)] by blast
  from other_frame [OF assms(1) k'(4) this assms(3) s(1) k'(3) s(2)] op show ?thesis by blast
qed

theorem address_spaces_isolated_witness:
  "\<exists>r k'. uvmalloc 0x80028000 0 8192 0 demo_pair = Ok (r, k') \<and> vmap k' 0x80029000 = vmap demo_pair 0x80029000 \<and>
     umem k' 0x80029000 7 = umem demo_pair 0x80029000 7"
proof -
  obtain ps where d: "uvm_inv demo_pair 0x80029000 1 ps" "uvm_inv demo_pair 0x80028000 0 ps"
    "set (pt_pages 2 (pmem demo_pair) 0x80029000 @ data_pages demo_pair 0x80029000 [0..<1]) \<inter>
     set_mset (own demo_pair 0x80028000 0 ps) = {}" using demo_pair_inv .
  have p: "pages_of 0 = 0" "pages_of 8192 \<le> NVPN - 2" by (simp_all add: pages_of_def NVPN_def)
  have a: "as_inv demo_pair 0x80029000 [0..<1] ps" using d(1) by (simp add: uvm_inv_def)
  have g: "good_perm (ucast (PTE_R OR PTE_U) OR 0)" using good_perm_user(2) by simp
  note c = address_spaces_isolated [where oldsz = 0 and newsz = 8192, unfolded p(1), OF a d(2,3) g p(2)]
  have "(0::u64) \<le> 8192" "vpn 7 < 1" by simp_all
  with c show ?thesis by (metis (no_types, lifting))
qed

text \<open>
  C4: \<open>copyout\<close> terminates without panic and returns 0 exactly when every byte of the destination
  range lies in a page the user may access. Then the user sees the source bytes in that range and
  its old bytes elsewhere. Page table and free list are unchanged in every case, and only user
  pages of this address space are written.
\<close>
theorem copyout_correct:
  assumes "user_space k root n ps" "buffer_outside (set (data_pages k root [0..<n])) src (unat len)"
  shows "\<exists>k'. copyout root dstva src len k = Ok (if range_acc k root (unat dstva) (unat len) then 0 else - 1, k') \<and>
    user_space k' root n ps \<and> vmap k' root = vmap k root \<and>
    changes (pmem k) (pmem k') (set (data_pages k root [0..<n])) \<and>
    (range_acc k root (unat dstva) (unat len) \<longrightarrow>
      (\<forall>va. vpn va < n \<longrightarrow> umem k' root va =
        (if unat dstva \<le> unat va \<and> unat va < unat dstva + unat len then pmem k (src + (va - dstva))
         else umem k root va)))"
  using copyout_spec [OF assms] unfolding copied_out_def .

theorem copyout_correct_witness:
  "\<exists>k'. copyout 0x80029000 100 0x80020000 16 demo_user = Ok (0, k') \<and> umem k' 0x80029000 103 = pmem demo_user 0x80020003"
proof -
  obtain ps where d: "uvm_inv demo_user 0x80029000 1 ps" "user_space demo_user 0x80029000 1 ps"
    "uacc demo_user 0x80029000 0" "kernel_end demo_user = 0x80021000" using demo_user_inv by blast
  have "buffer_outside (set (data_pages demo_user 0x80029000 [0..<1])) 0x80020000 (unat (16::u64))"
    using demo_buffer [OF d(1,4)] by (auto simp: buffer_outside_def space_pages_def)
  note c = copyout_correct [OF d(2) this, of 100]
  have acc: "range_acc demo_user 0x80029000 (unat (100::u64)) (unat (16::u64))" using d(3) by (simp add: range_acc_def)
  obtain k' where k': "copyout 0x80029000 100 0x80020000 16 demo_user = Ok (0, k')"
    "range_acc demo_user 0x80029000 (unat (100::u64)) (unat (16::u64)) \<longrightarrow> (\<forall>va. vpn va < 1 \<longrightarrow> umem k' 0x80029000 va =
      (if unat (100::u64) \<le> unat va \<and> unat va < unat (100::u64) + unat (16::u64) then pmem demo_user (0x80020000 + (va - 100))
       else umem demo_user 0x80029000 va))" using c unfolding if_P [OF acc] by (elim exE conjE)
  have "vpn 103 < 1" by simp
  from k'(2) [THEN mp, OF acc, THEN spec, THEN mp, OF this]
  have "umem k' 0x80029000 103 = pmem demo_user 0x80020003" by simp
  with k'(1) show ?thesis by (intro exI [of _ k'] conjI)
qed

text \<open>
  C23: \<open>copyin\<close> terminates without panic and returns 0 exactly when every byte of the source range
  lies in a page the user may access; then the kernel buffer holds the user's bytes. Nothing
  outside the buffer changes, so neither do page tables, user memory and the free list.
\<close>
theorem copyin_correct:
  assumes "user_space k root n ps" "buffer_outside (space_pages k root n ps) dst (unat len)"
  shows "\<exists>k'. copyin root dst srcva len k = Ok (if range_acc k root (unat srcva) (unat len) then 0 else - 1, k') \<and>
    user_space k' root n ps \<and> vmap k' root = vmap k root \<and>
    (\<forall>a. \<not> in_range dst (unat len) a \<longrightarrow> pmem k' a = pmem k a) \<and>
    (range_acc k root (unat srcva) (unat len) \<longrightarrow>
      (\<forall>i < unat len. pmem k' (dst + of_nat i) = umem k root (srcva + of_nat i)))"
  using copyin_spec [OF assms] unfolding copied_in_def .

theorem copyin_correct_witness:
  "\<exists>k'. copyin 0x80029000 0x80020000 4090 16 demo_user = Ok (- 1, k') \<and> vmap k' 0x80029000 = vmap demo_user 0x80029000"
proof -
  obtain ps where d: "uvm_inv demo_user 0x80029000 1 ps" "user_space demo_user 0x80029000 1 ps"
    "\<And>j. 0 < j \<Longrightarrow> \<not> pte_valid (vmap demo_user 0x80029000 j)" "kernel_end demo_user = 0x80021000"
    using demo_user_inv by blast
  have b: "buffer_outside (space_pages demo_user 0x80029000 1 ps) 0x80020000 (unat (16::u64))"
    using demo_buffer [OF d(1,4)] by simp
  have "\<not> uacc demo_user 0x80029000 ((unat (4090::u64) + 10) div 4096)" using d(3) by (simp add: uacc_def)
  then have acc: "\<not> range_acc demo_user 0x80029000 (unat (4090::u64)) (unat (16::u64))"
    unfolding range_acc_def by (auto intro!: exI [of _ 10])
  from copyin_correct [OF d(2) b, of 4090] show ?thesis unfolding if_not_P [OF acc] by blast
qed

text \<open>
  C24: \<open>copyinstr\<close> returns 0 exactly when the user string is terminated by a NUL within \<open>max\<close> bytes
  and every byte up to it is accessible, in which case the buffer holds the string with its NUL;
  otherwise it returns -1. It never writes outside the \<open>max\<close> bytes of the buffer.
\<close>
theorem copyinstr_correct:
  assumes "user_space k root n ps" "buffer_outside (space_pages k root n ps) dst (unat mx)"
  shows "\<exists>r k'. copyinstr root dst srcva mx k = Ok (r, k') \<and> user_space k' root n ps \<and> vmap k' root = vmap k root \<and>
    (\<forall>a. \<not> in_range dst (unat mx) a \<longrightarrow> pmem k' a = pmem k a) \<and>
    ((\<forall>j. \<not> ustr_len k root srcva (unat mx) j) \<longrightarrow> r = - 1) \<and>
    (\<forall>j. ustr_len k root srcva (unat mx) j \<longrightarrow> r = 0 \<and>
      (\<forall>i \<le> j. pmem k' (dst + of_nat i) = umem k root (srcva + of_nat i)))"
  using copyinstr_spec [OF assms] unfolding copied_str_def .

theorem copyinstr_correct_witness:
  "\<exists>r k'. copyinstr 0x80029000 0x80020000 0 16 demo_user = Ok (r, k') \<and> vmap k' 0x80029000 = vmap demo_user 0x80029000"
proof -
  obtain ps where d: "uvm_inv demo_user 0x80029000 1 ps" "user_space demo_user 0x80029000 1 ps"
    "kernel_end demo_user = 0x80021000" using demo_user_inv by blast
  have b: "buffer_outside (space_pages demo_user 0x80029000 1 ps) 0x80020000 (unat (16::u64))"
    using demo_buffer [OF d(1,3)] by simp
  from copyinstr_correct [OF d(2) b, of 0] show ?thesis by blast
qed

lemma copyout_space_pages:
  assumes us: "user_space k root n ps" and ch: "changes (pmem k) (pmem k') (set (data_pages k root [0..<n]))"
    and vm: "vmap k' root = vmap k root"
  shows "space_pages k' root n ps = space_pages k root n ps"
proof -
  have a: "as_inv k root [0..<n] ps" using us by (simp add: user_space_def uvm_inv_def)
  have al: "\<forall>p \<in> set (data_pages k root [0..<n]). page_aligned p"
  proof
    fix p assume "p \<in> set (data_pages k root [0..<n])"
    then have "p \<in> set_mset (own k root n ps)" unfolding own_set set_append by (intro UnI1 UnI2)
    then show "page_aligned p" using own_aligned us unfolding user_space_def by blast
  qed
  have pt: "\<forall>p \<in> set (pt_pages 2 (pmem k) root). page_aligned p" using pt_inv_aligned [OF as_inv_pt [OF a]] by simp
  have "distinct (pt_pages 2 (pmem k) root @ data_pages k root [0..<n] @ ps)" using a by (simp only: as_inv_def)
  then have dj: "set (pt_pages 2 (pmem k) root) \<inter> set (data_pages k root [0..<n]) = {}"
    unfolding distinct_append set_append by blast
  show ?thesis using pt_changes(1) [OF ch al pt dj] by (simp add: space_pages_def vm)
qed

text \<open>
  C25: writing a kernel buffer to user memory with \<open>copyout\<close> and reading it back with \<open>copyin\<close>
  gives the bytes that were written, when the user range is accessible.
\<close>
theorem copyout_copyin_roundtrip:
  assumes us: "user_space k root n ps" and acc: "range_acc k root (unat va) (unat len)"
    and src: "buffer_outside (space_pages k root n ps) src (unat len)"
    and dst: "buffer_outside (space_pages k root n ps) dst (unat len)"
  shows "\<exists>k1 k2. copyout root va src len k = Ok (0, k1) \<and> copyin root dst va len k1 = Ok (0, k2) \<and>
    (\<forall>i < unat len. pmem k2 (dst + of_nat i) = pmem k (src + of_nat i))"
proof -
  have "buffer_outside (set (data_pages k root [0..<n])) src (unat len)"
    using src by (auto simp: buffer_outside_def space_pages_def)
  from copyout_spec [OF us this, of va] acc
  obtain k1 where k1: "copyout root va src len k = Ok (0, k1)" "user_space k1 root n ps" "vmap k1 root = vmap k root"
    "changes (pmem k) (pmem k1) (set (data_pages k root [0..<n]))"
    "\<And>w. vpn w < n \<Longrightarrow> umem k1 root w = (if unat va \<le> unat w \<and> unat w < unat va + unat len then pmem k (src + (w - va))
       else umem k root w)" by (auto simp: copied_out_def)
  have "buffer_outside (space_pages k1 root n ps) dst (unat len)"
    using dst copyout_space_pages [OF us k1(4,3)] by simp
  moreover have acc1: "range_acc k1 root (unat va) (unat len)" using acc by (simp add: range_acc_def uacc_def k1(3))
  ultimately obtain k2 where k2: "copyin root dst va len k1 = Ok (0, k2)"
    "\<And>i. i < unat len \<Longrightarrow> pmem k2 (dst + of_nat i) = umem k1 root (va + of_nat i)"
    using copyin_spec [OF k1(2), of dst len va] by (auto simp: copied_in_def)
  have "umem k1 root (va + of_nat i) = pmem k (src + of_nat i)" if i: "i < unat len" for i
  proof -
    have u: "uacc k root ((unat va + i) div 4096)" using acc i by (simp add: range_acc_def)
    then have "(unat va + i) div 4096 < NVPN" by (simp add: uacc_def)
    then have v: "unat (va + of_nat i) = unat va + i"
      using i unsigned_less [of len] by (simp add: unat_add_u64 unat_of_nat NVPN_def)
    then show ?thesis using k1(5) [of "va + of_nat i"] u us i by (simp add: user_space_def)
  qed
  then show ?thesis using k1(1) k2 by auto
qed

theorem copyout_copyin_roundtrip_witness:
  "\<exists>k1 k2. copyout 0x80029000 100 0x80020000 16 demo_user = Ok (0, k1) \<and> copyin 0x80029000 0x80020000 100 16 k1 = Ok (0, k2)"
proof -
  obtain ps where d: "uvm_inv demo_user 0x80029000 1 ps" "user_space demo_user 0x80029000 1 ps"
    "uacc demo_user 0x80029000 0" "kernel_end demo_user = 0x80021000" using demo_user_inv by blast
  have b: "buffer_outside (space_pages demo_user 0x80029000 1 ps) 0x80020000 (unat (16::u64))"
    using demo_buffer [OF d(1,4)] by simp
  have "range_acc demo_user 0x80029000 (unat (100::u64)) (unat (16::u64))" using d(3) by (simp add: range_acc_def)
  note r = copyout_copyin_roundtrip [OF d(2) this b b]
  from r obtain k1 k2 where "copyout 0x80029000 100 0x80020000 16 demo_user = Ok (0, k1)"
    "copyin 0x80029000 0x80020000 100 16 k1 = Ok (0, k2)" by (elim exE conjE)
  then show ?thesis by (intro exI [of _ k1] exI [of _ k2] conjI)
qed

end
