(* ===== verification/Vm_Byte.thy ===== *)
theory Vm_Byte
  imports Vm_Correct
begin

text \<open>
  Single-byte transfers between a kernel variable and user memory, as the character devices and
  pipes use \<open>copyin\<close> and \<open>copyout\<close>.
\<close>

lemma chunk_1: "chunk va 1 = 1"
proof -
  have "unat va mod 4096 < 4096" by simp
  then have "1 \<le> 4096 - unat va mod 4096" by linarith
  then have "unat (chunk va 1) = unat (1 :: u64)" unfolding unat_chunk by (simp add: min.absorb2)
  then show ?thesis by (simp only: word_unat_eq_iff)
qed

lemma in_range_1: "in_range d (Suc 0) a \<longleftrightarrow> a = d"
  by (simp add: in_range_def unat_eq_zero)

lemma copyin_byte:
  assumes us: "user_space k root n ps" and out: "buffer_outside (space_pages k root n ps) ch 1"
  shows "copyin root ch va 1 k =
    (if uacc k root (vpn va) then Ok (0, k\<lparr>pmem := (pmem k)(ch := umem k root va)\<rparr>) else Ok (- 1, k))"
proof (cases "uacc k root (vpn va)")
  case True
  have "(0 :: u64) < 1" by simp
  have out': "buffer_outside (space_pages k root n ps) ch (unat (1 :: u64))" using out by simp
  note s = copyin_step [OF us \<open>(0 :: u64) < 1\<close> True out', unfolded chunk_1]
  let ?m = "memmove (pmem k) ch (upa k root va) (ucast (1 :: u64))"
  have "?m a = (if a = ch then umem k root va else pmem k a)" for a
    using s(6) [of a] s(7) [of 0] by (simp add: in_range_1)
  then have "?m = (pmem k)(ch := umem k root va)" by auto
  then show ?thesis using s(1) True by (simp add: copyin_0)
next
  case False
  have "vpn (PGROUNDDOWN va) = vpn va" by (simp add: unat_PGROUNDDOWN)
  then have "walkaddr root (PGROUNDDOWN va) k = Ok 0"
    using walkaddr_spec [OF us, of "PGROUNDDOWN va"] False by simp
  then show ?thesis using False by (simp add: copyin.simps [of root ch])
qed

lemma byte_write:
  fixes c :: u8
  assumes us: "user_space k root n ps" and out: "buffer_outside (space_pages k root n ps) ch 1"
  defines "k' \<equiv> k\<lparr>pmem := (pmem k)(ch := c)\<rparr>"
  shows "user_space k' root n ps" "vmap k' root = vmap k root" "space_pages k' root n ps = space_pages k root n ps"
    "\<And>va. vpn va < n \<Longrightarrow> umem k' root va = umem k root va" "uacc k' root = uacc k root"
proof -
  have "((pmem k)(ch := c)) a = pmem k a" if "\<not> in_range ch 1 a" for a using that by (simp add: in_range_1)
  note b = buffer_write [OF us out this]
  show "user_space k' root n ps" unfolding k'_def by (rule b(1))
  show vm: "vmap k' root = vmap k root" unfolding k'_def by (rule b(2))
  show "space_pages k' root n ps = space_pages k root n ps" unfolding k'_def by (rule b(3))
  show "umem k' root va = umem k root va" if "vpn va < n" for va unfolding k'_def by (rule b(4)) (use that in simp_all)
  show "uacc k' root = uacc k root" by (simp add: uacc_def fun_eq_iff vm)
qed

lemma copyout_byte:
  assumes us: "user_space k root n ps" and out: "buffer_outside (space_pages k root n ps) ch 1"
  shows "\<exists>k'. copyout root va ch 1 k = Ok (if uacc k root (vpn va) then 0 else - 1, k') \<and>
    user_space k' root n ps \<and> vmap k' root = vmap k root \<and> space_pages k' root n ps = space_pages k root n ps \<and>
    (uacc k root (vpn va) \<longrightarrow> (\<forall>w. vpn w < n \<longrightarrow> umem k' root w = (if w = va then pmem k ch else umem k root w))) \<and>
    (\<not> uacc k root (vpn va) \<longrightarrow> k' = k)"
proof (cases "uacc k root (vpn va)")
  case False
  have "vpn (PGROUNDDOWN va) = vpn va" by (simp add: unat_PGROUNDDOWN)
  then have "walkaddr root (PGROUNDDOWN va) k = Ok 0"
    using walkaddr_spec [OF us, of "PGROUNDDOWN va"] False by simp
  then have "copyout root va ch 1 k = Ok (- 1, k)" by (simp add: copyout.simps [of root va])
  then show ?thesis using False us by simp
next
  case True
  have "buffer_outside (set (data_pages k root [0..<n])) ch (unat (1 :: u64))"
    using out by (auto simp: buffer_outside_def space_pages_def)
  note c = copyout_spec [OF us this, of va]
  have acc: "range_acc k root (unat va) (unat (1 :: u64)) = uacc k root (vpn va)" by (simp add: range_acc_def)
  have eq: "(unat va \<le> unat w \<and> unat w < unat va + unat (1 :: u64)) = (w = va)" for w :: u64
    by (auto simp: word_unat_eq_iff)
  obtain k' where k': "copyout root va ch 1 k = Ok (if uacc k root (vpn va) then 0 else - 1, k')"
    "user_space k' root n ps" "vmap k' root = vmap k root" "changes (pmem k) (pmem k') (set (data_pages k root [0..<n]))"
    "uacc k root (vpn va) \<longrightarrow> (\<forall>w. vpn w < n \<longrightarrow> umem k' root w = (if w = va then pmem k (ch + (w - va)) else umem k root w))"
    using c unfolding copied_out_def acc eq by (elim exE conjE)
  have "umem k' root w = (if w = va then pmem k ch else umem k root w)" if "uacc k root (vpn va)" "vpn w < n" for w
    using k'(5) that by auto
  then show ?thesis using k' copyout_space_pages [OF us k'(4,3)] True by auto
qed

lemma uacc_vpn: "user_space k root n ps \<Longrightarrow> uacc k root (vpn va) \<Longrightarrow> vpn va < n"
  by (simp add: user_space_def)

text \<open>Byte \<open>i\<close> of a user buffer, and a block of it.\<close>

definition ubytes :: "kst \<Rightarrow> u64 \<Rightarrow> u64 \<Rightarrow> int \<Rightarrow> int \<Rightarrow> u8 list" where
  "ubytes k root addr i j = map (\<lambda>x. umem k root (addr + of_int x)) [i..j - 1]"

lemma ubytes_empty [simp]: "j \<le> i \<Longrightarrow> ubytes k root addr i j = []"
  by (simp add: ubytes_def)

lemma ubytes_Cons: "i < j \<Longrightarrow> ubytes k root addr i j = umem k root (addr + of_int i) # ubytes k root addr (i + 1) j"
  by (simp add: ubytes_def upto_rec1)

lemma ubytes_cong:
  assumes "\<And>x. i \<le> x \<Longrightarrow> x < j \<Longrightarrow> umem k root (addr + of_int x) = umem k' root (addr + of_int x)"
  shows "ubytes k root addr i j = ubytes k' root addr i j"
  using assms by (auto simp: ubytes_def)

section \<open>Either user or kernel addresses (kernel/proc.c)\<close>

definition either_copyout :: "u64 \<Rightarrow> bool \<Rightarrow> u64 \<Rightarrow> u64 \<Rightarrow> u64 \<Rightarrow> kst \<Rightarrow> (int \<times> kst) kres" where
  "either_copyout pagetable user_dst dst src len k =
     (if user_dst then copyout pagetable dst src len k
      else Ok (0, k\<lparr>pmem := memmove (pmem k) dst src (ucast len)\<rparr>))"

definition either_copyin :: "u64 \<Rightarrow> u64 \<Rightarrow> bool \<Rightarrow> u64 \<Rightarrow> u64 \<Rightarrow> kst \<Rightarrow> (int \<times> kst) kres" where
  "either_copyin pagetable dst user_src src len k =
     (if user_src then copyin pagetable dst src len k
      else Ok (0, k\<lparr>pmem := memmove (pmem k) dst src (ucast len)\<rparr>))"

end
