(* ===== verification/Console.thy ===== *)
theory Console
  imports Uart Vm_Byte
begin

text \<open>
  The console (kernel/console.c): the line discipline of the input interrupt handler and the device
  read and write functions. Output goes to the UART model; a call that waits for the device gives
  None when it never becomes ready. The text that \<open>procdump\<close> prints for the current process table
  is the argument \<open>dump\<close>. \<open>consoleread\<close> and \<open>consolewrite\<close> return at the point where they sleep, with
  what they need to continue.
\<close>

definition BACKSPACE :: int where "BACKSPACE = 0x100"
definition INPUT_BUF_SIZE :: u32 where "INPUT_BUF_SIZE = 128"

text \<open>\<^verbatim>\<open>C(x)\<close> on an upper-case letter.\<close>

definition ctrl :: "char \<Rightarrow> int" where
  "ctrl c = int (of_char c) - int (of_char CHR ''@'')"

definition consputc :: "device \<Rightarrow> bool \<Rightarrow> int \<Rightarrow> uart \<Rightarrow> uart option" where
  "consputc lsr panicked c u =
     (if c = BACKSPACE then
        Option.bind (uartputc_sync lsr panicked 8 u) (\<lambda>u.
        Option.bind (uartputc_sync lsr panicked 32 u) (\<lambda>u. uartputc_sync lsr panicked 8 u))
      else uartputc_sync lsr panicked (of_int c) u)"

record cons =
  cbuf :: "u8 list"
  cr :: u32
  cw :: u32
  ce :: u32

record cst =
  con :: cons
  out :: uart
  cwakes :: nat

definition cons_char :: "cons \<Rightarrow> u32 \<Rightarrow> u8" where
  "cons_char s i = cbuf s ! unat (i mod INPUT_BUF_SIZE)"

fun putall :: "device \<Rightarrow> bool \<Rightarrow> int list \<Rightarrow> uart \<Rightarrow> uart option" where
  "putall lsr panicked [] u = Some u"
| "putall lsr panicked (c # cs) u = Option.bind (consputc lsr panicked c u) (putall lsr panicked cs)"

function kill_line :: "device \<Rightarrow> bool \<Rightarrow> cst \<Rightarrow> cst option" where
  "kill_line lsr panicked s =
     (if ce (con s) \<noteq> cw (con s) \<and> cons_char (con s) (ce (con s) - 1) \<noteq> 10
      then Option.bind (consputc lsr panicked BACKSPACE (out s)) (\<lambda>u.
             kill_line lsr panicked (s\<lparr>con := (con s)\<lparr>ce := ce (con s) - 1\<rparr>, out := u\<rparr>))
      else Some s)"
  by pat_completeness auto
termination
proof (relation "measure (\<lambda>(lsr, p, s). unat (ce (con s) - cw (con s)))")
  fix lsr :: device and p s u
  assume "ce (con s) \<noteq> cw (con s) \<and> cons_char (con s) (ce (con s) - 1) \<noteq> 10"
  then show "((lsr, p, s\<lparr>con := (con s)\<lparr>ce := ce (con s) - 1\<rparr>, out := u\<rparr>), lsr, p, s)
      \<in> measure (\<lambda>(lsr, p, s). unat (ce (con s) - cw (con s)))"
    using unat_pred_less [of "ce (con s) - cw (con s)"] by (simp add: algebra_simps)
qed simp

declare kill_line.simps [simp del]

definition consoleintr :: "device \<Rightarrow> bool \<Rightarrow> int list \<Rightarrow> int \<Rightarrow> cst \<Rightarrow> cst option" where
  "consoleintr lsr panicked dump c s =
     (if c = ctrl CHR ''P'' then
        Option.bind (putall lsr panicked dump (out s)) (\<lambda>u. Some (s\<lparr>out := u\<rparr>))
      else if c = ctrl CHR ''U'' then kill_line lsr panicked s
      else if c = ctrl CHR ''H'' \<or> c = 0x7f then
        if ce (con s) \<noteq> cw (con s) then
          let s = s\<lparr>con := (con s)\<lparr>ce := ce (con s) - 1\<rparr>\<rparr>
          in Option.bind (consputc lsr panicked BACKSPACE (out s)) (\<lambda>u. Some (s\<lparr>out := u\<rparr>))
        else Some s
      else if c \<noteq> 0 \<and> ce (con s) - cr (con s) < INPUT_BUF_SIZE then
        let c = (if c = 13 then 10 else c)
        in Option.bind (consputc lsr panicked c (out s)) (\<lambda>u.
             let n = (con s)\<lparr>cbuf := (cbuf (con s))[unat (ce (con s) mod INPUT_BUF_SIZE) := of_int c], ce := ce (con s) + 1\<rparr>;
                 s = s\<lparr>con := n, out := u\<rparr>
             in if c = 10 \<or> c = ctrl CHR ''D'' \<or> ce n - cr n = INPUT_BUF_SIZE
                then Some (s\<lparr>con := n\<lparr>cw := ce n\<rparr>, cwakes := Suc (cwakes s)\<rparr>)
                else Some s)
      else Some s)"

text \<open>\<open>uartintr\<close> of uart.c: it goes on as long as the device has input.\<close>

partial_function (option) uartintr_loop :: "device \<Rightarrow> device \<Rightarrow> bool \<Rightarrow> int list \<Rightarrow> cst \<Rightarrow> cst option" where
  "uartintr_loop lsr rhr panicked dump s =
     (let (c, u) = uartgetc lsr rhr (out s); s = s\<lparr>out := u\<rparr>
      in if c = - 1 then Some s
         else Option.bind (consoleintr lsr panicked dump c s) (uartintr_loop lsr rhr panicked dump))"

definition uartintr :: "device \<Rightarrow> device \<Rightarrow> bool \<Rightarrow> int list \<Rightarrow> cst \<Rightarrow> cst option" where
  "uartintr lsr rhr panicked dump s =
     Option.bind (uartintr_loop lsr rhr panicked dump s) (\<lambda>s. Some (s\<lparr>out := uartstart lsr (out s)\<rparr>))"

section \<open>Device read and write\<close>

datatype read_res = RDone int | RSleep u64 int

function consoleread_loop ::
  "bool \<Rightarrow> u64 \<Rightarrow> u64 \<Rightarrow> bool \<Rightarrow> int \<Rightarrow> u64 \<Rightarrow> int \<Rightarrow> cons \<Rightarrow> kst \<Rightarrow> (read_res \<times> cons \<times> kst) kres" where
  "consoleread_loop killed pagetable cbufa user_dst target dst n s k =
     (if n > 0 then
        if cr s = cw s then
          if killed then Ok (RDone (- 1), s, k) else Ok (RSleep dst n, s, k)
        else
          let c = cons_char s (cr s);
              s = s\<lparr>cr := cr s + 1\<rparr>
          in if int (unat c) = ctrl CHR ''D'' then
               let s = (if n < target then s\<lparr>cr := cr s - 1\<rparr> else s)
               in Ok (RDone (target - n), s, k)
             else
               kbind (either_copyout pagetable user_dst dst cbufa 1 (k\<lparr>pmem := (pmem k)(cbufa := c)\<rparr>)) (\<lambda>(r, k).
                 if r = - 1 then Ok (RDone (target - n), s, k)
                 else if c = 10 then Ok (RDone (target - (n - 1)), s, k)
                 else consoleread_loop killed pagetable cbufa user_dst target (dst + 1) (n - 1) s k)
      else Ok (RDone (target - n), s, k))"
  by pat_completeness auto
termination
  by (relation "measure (\<lambda>(kl, pt, cb, ud, t, dst, n, s, k). nat n)") auto

declare consoleread_loop.simps [simp del]

definition consoleread :: "bool \<Rightarrow> u64 \<Rightarrow> u64 \<Rightarrow> bool \<Rightarrow> u64 \<Rightarrow> int \<Rightarrow> cons \<Rightarrow> kst \<Rightarrow> (read_res \<times> cons \<times> kst) kres" where
  "consoleread killed pagetable cbufa user_dst dst n s k =
     consoleread_loop killed pagetable cbufa user_dst n dst n s k"

datatype write_res = WDone int | WSleep int u8 | WSpin

function consolewrite_loop ::
  "device \<Rightarrow> bool \<Rightarrow> u64 \<Rightarrow> u64 \<Rightarrow> bool \<Rightarrow> u64 \<Rightarrow> int \<Rightarrow> int \<Rightarrow> uart \<Rightarrow> kst \<Rightarrow> (write_res \<times> uart \<times> kst) kres" where
  "consolewrite_loop lsr panicked pagetable ca user_src src n i u k =
     (if i < n then
        kbind (either_copyin pagetable ca user_src (src + of_int i) 1 k) (\<lambda>(r, k).
          if r = - 1 then Ok (WDone i, u, k)
          else case uartputc lsr panicked (ucast (pmem k ca)) u of
            Put u \<Rightarrow> consolewrite_loop lsr panicked pagetable ca user_src src n (i + 1) u k
          | Sleep u \<Rightarrow> Ok (WSleep i (pmem k ca), u, k)
          | Spin \<Rightarrow> Ok (WSpin, u, k))
      else Ok (WDone i, u, k))"
  by pat_completeness auto
termination
  by (relation "measure (\<lambda>(l, p, pt, ca, us, src, n, i, u, k). nat (n - i))") auto

declare consolewrite_loop.simps [simp del]

definition consolewrite ::
  "device \<Rightarrow> bool \<Rightarrow> u64 \<Rightarrow> u64 \<Rightarrow> bool \<Rightarrow> u64 \<Rightarrow> int \<Rightarrow> uart \<Rightarrow> kst \<Rightarrow> (write_res \<times> uart \<times> kst) kres" where
  "consolewrite lsr panicked pagetable ca user_src src n u k =
     consolewrite_loop lsr panicked pagetable ca user_src src n 0 u k"

text \<open>\<open>consoleinit\<close> initialises the UART and registers the two functions for the console's device number.\<close>

datatype devfun = Consoleread | Consolewrite

record devsw =
  dread :: "devfun option"
  dwrite :: "devfun option"

definition CONSOLE :: nat where "CONSOLE = 1"

definition consoleinit :: "uart \<Rightarrow> devsw list \<Rightarrow> uart \<times> devsw list" where
  "consoleinit u sw =
     (uartinit u, sw[CONSOLE := (sw ! CONSOLE)\<lparr>dread := Some Consoleread, dwrite := Some Consolewrite\<rparr>])"

unbundle bit_operations_syntax

section \<open>The line discipline\<close>

text \<open>
  The buffer holds the committed input (\<open>r\<close> to \<open>w\<close>), which \<open>consoleread\<close> may consume, followed by the
  line being edited (\<open>w\<close> to \<open>e\<close>).
\<close>

definition committed :: "cons \<Rightarrow> u8 list" where
  "committed s = ring_list 128 (cbuf s) (cr s) (cw s)"

definition edited :: "cons \<Rightarrow> u8 list" where
  "edited s = ring_list 128 (cbuf s) (cw s) (ce s)"

definition cons_ok :: "cons \<Rightarrow> bool" where
  "cons_ok s \<longleftrightarrow> length (cbuf s) = 128 \<and> unat (cw s - cr s) + unat (ce s - cw s) \<le> 128 \<and> 10 \<notin> set (edited s)"

fun line_disc :: "int \<Rightarrow> u8 list \<times> u8 list \<Rightarrow> u8 list \<times> u8 list" where
  "line_disc c (q, l) =
     (if c = ctrl CHR ''P'' then (q, l)
      else if c = ctrl CHR ''U'' then (q, [])
      else if c = ctrl CHR ''H'' \<or> c = 0x7f then (q, butlast l)
      else if c \<noteq> 0 \<and> length q + length l < 128 then
        let b = (if c = 13 then 10 else c)
        in if b = 10 \<or> b = ctrl CHR ''D'' \<or> length q + length l = 127 then (q @ l @ [of_int b], [])
           else (q, l @ [of_int b])
      else (q, l))"

lemma ctrl_eval [simp]: "ctrl CHR ''P'' = 16" "ctrl CHR ''U'' = 21" "ctrl CHR ''H'' = 8" "ctrl CHR ''D'' = 4"
  by (simp_all add: ctrl_def)

lemma ring_list_snoc_pop:
  fixes r e :: "'l::len word"
  assumes "e \<noteq> r"
  shows "ring_list N buf r (e - 1) = butlast (ring_list N buf r e)"
    "last (ring_list N buf r e) = buf ! (unat (e - 1) mod N)"
proof -
  have n: "unat (e - r) = Suc (unat (e - 1 - r))"
    using unat_pred_less [of "e - r"] assms by (simp add: algebra_simps)
  have l: "r + of_nat (unat (e - 1 - r)) = e - 1" by simp
  show "ring_list N buf r (e - 1) = butlast (ring_list N buf r e)"
    unfolding ring_list_def n by simp
  show "last (ring_list N buf r e) = buf ! (unat (e - 1) mod N)"
    unfolding ring_list_def n using l by simp
qed

lemma ring_list_append:
  fixes r w e :: "'l::len word"
  assumes "unat (w - r) + unat (e - w) < 2 ^ LENGTH('l)"
  shows "ring_list N buf r e = ring_list N buf r w @ ring_list N buf w e"
proof -
  have "unat (e - r) = unat (w - r) + unat (e - w)"
    using assms unat_add_lem [of "w - r" "e - w"] by (simp add: algebra_simps)
  moreover have "r + of_nat i = w + of_nat (i - unat (w - r))" if "unat (w - r) \<le> i" for i
    using that by (simp add: of_nat_diff algebra_simps)
  ultimately show ?thesis by (intro nth_equalityI) (auto simp: ring_list_def nth_append add.commute)
qed

lemma unat_mod_IN: "unat (x mod INPUT_BUF_SIZE) = unat x mod 128"
  by (simp add: INPUT_BUF_SIZE_def unat_mod)

lemma cons_ok_total:
  assumes "cons_ok s"
  shows "unat (ce s - cr s) = length (committed s) + length (edited s)" "length (committed s) + length (edited s) \<le> 128"
    "ring_list 128 (cbuf s) (cr s) (ce s) = committed s @ edited s"
proof -
  have b: "unat (cw s - cr s) + unat (ce s - cw s) \<le> 128" using assms by (simp add: cons_ok_def)
  then show t: "ring_list 128 (cbuf s) (cr s) (ce s) = committed s @ edited s"
    unfolding committed_def edited_def by (intro ring_list_append) simp
  then have "length (ring_list 128 (cbuf s) (cr s) (ce s)) = length (committed s @ edited s)" by simp
  then show "unat (ce s - cr s) = length (committed s) + length (edited s)" by simp
  show "length (committed s) + length (edited s) \<le> 128" using b by (simp add: committed_def edited_def)
qed

lemma edit_put:
  fixes b :: u8
  assumes ok: "cons_ok s" and room: "length (committed s) + length (edited s) < 128"
  defines "s' \<equiv> s\<lparr>cbuf := (cbuf s)[unat (ce s mod INPUT_BUF_SIZE) := b], ce := ce s + 1\<rparr>"
  shows "committed s' = committed s" "edited s' = edited s @ [b]"
    "unat (cw s - cr s) + unat (ce s' - cw s) \<le> 128"
proof -
  have len: "length (cbuf s) = 128" using ok by (simp add: cons_ok_def)
  have d: "128 dvd (2::nat) ^ LENGTH(32)" "128 < (2::nat) ^ LENGTH(32)" by simp_all
  have r: "unat (ce s - cr s) < 128" "unat (ce s - cw s) < 128"
    using cons_ok_total(1) [OF ok] room by (simp_all add: edited_def)
  have e: "edited s' = edited s @ [b]"
    unfolding s'_def edited_def by (simp add: unat_mod_IN) (rule ring_list_put [OF _ d len r(2)], simp)
  have "unat (ce s' - cw s') = length (edited s')" by (simp add: edited_def)
  then have le: "unat (ce s' - cw s) = Suc (length (edited s))" unfolding e by (simp add: s'_def)
  show "edited s' = edited s @ [b]" by (rule e)
  show bnd: "unat (cw s - cr s) + unat (ce s' - cw s) \<le> 128" using le room by (simp add: committed_def)
  have "ring_list 128 (cbuf s') (cr s) (ce s') = ring_list 128 (cbuf s) (cr s) (ce s) @ [b]"
    unfolding s'_def by (simp add: unat_mod_IN) (rule ring_list_put [OF _ d len r(1)], simp)
  moreover have "ring_list 128 (cbuf s') (cr s) (ce s') = committed s' @ edited s'"
    using bnd ring_list_append [of "cw s" "cr s" "ce s'" 128 "cbuf s'"] by (simp add: committed_def edited_def s'_def)
  ultimately show "committed s' = committed s" using e cons_ok_total(3) [OF ok] by simp
qed

lemma edit_pop:
  assumes ok: "cons_ok s" and ne: "ce s \<noteq> cw s"
  defines "s' \<equiv> s\<lparr>ce := ce s - 1\<rparr>"
  shows "committed s' = committed s" "edited s' = butlast (edited s)" "cons_ok s'" "cons_char s (ce s - 1) \<noteq> 10"
proof -
  note p = ring_list_snoc_pop [OF ne, of 128 "cbuf s"]
  show "committed s' = committed s" by (simp add: committed_def s'_def)
  show e: "edited s' = butlast (edited s)" using p(1) by (simp add: edited_def s'_def)
  have "unat (ce s' - cw s') = length (edited s')" by (simp add: edited_def)
  then have "unat (ce s' - cw s) \<le> unat (ce s - cw s)" unfolding e by (simp add: edited_def s'_def)
  moreover have "10 \<notin> set (edited s')" using ok in_set_butlastD unfolding e cons_ok_def by metis
  ultimately show "cons_ok s'" using ok by (simp add: cons_ok_def s'_def)
  have "length (edited s) \<noteq> 0" using ne by (simp add: edited_def unat_eq_zero)
  then have "last (edited s) \<in> set (edited s)" by simp
  then show "cons_char s (ce s - 1) \<noteq> 10"
    using p(2) ok by (auto simp: cons_ok_def cons_char_def unat_mod_IN edited_def)
qed

lemma edited_Nil: "edited s = [] \<longleftrightarrow> ce s = cw s"
proof -
  have "edited s = [] \<longleftrightarrow> unat (ce s - cw s) = 0" by (metis edited_def length_ring_list length_0_conv)
  then show ?thesis by (simp add: unat_eq_zero)
qed

definition device_alive :: "device \<Rightarrow> bool" where
  "device_alive lsr \<longleftrightarrow> (\<forall>i. \<exists>j \<ge> i. lsr j AND LSR_TX_IDLE \<noteq> 0)"

lemma consputc_returns:
  assumes "device_alive lsr"
  shows "\<exists>u'. consputc lsr False c u = Some u'"
proof -
  have "\<exists>u'. uartputc_sync lsr False c u = Some u'" for c u
  proof -
    obtain j where "lsr_reads u \<le> j" "lsr j AND LSR_TX_IDLE \<noteq> 0" using assms unfolding device_alive_def by blast
    then obtain d where "lsr (lsr_reads u + d) AND LSR_TX_IDLE \<noteq> 0" using le_Suc_ex by blast
    then show ?thesis using wait_idle_returns by (force simp: uartputc_sync_def)
  qed
  then show ?thesis unfolding consputc_def by (metis Option.bind.bind_lunit)
qed

lemma putall_returns: "device_alive lsr \<Longrightarrow> \<exists>u'. putall lsr False cs u = Some u'"
proof (induction cs arbitrary: u)
  case (Cons c cs)
  then show ?case using consputc_returns [of lsr c u] by (auto simp: Option.bind.bind_lunit)
qed simp

lemma kill_line_spec:
  assumes "device_alive lsr" "cons_ok (con s)"
  shows "\<exists>s'. kill_line lsr False s = Some s' \<and> cons_ok (con s') \<and> committed (con s') = committed (con s) \<and> edited (con s') = []"
  using assms(2)
proof (induction "length (edited (con s))" arbitrary: s)
  case 0
  then have "ce (con s) = cw (con s)" using edited_Nil by simp
  then show ?case using 0 by (simp add: kill_line.simps [of lsr])
next
  case (Suc n)
  then have ne: "ce (con s) \<noteq> cw (con s)" using edited_Nil [of "con s"] by auto
  obtain u where u: "consputc lsr False BACKSPACE (out s) = Some u" using consputc_returns [OF assms(1)] by blast
  define s1 where "s1 = s\<lparr>con := (con s)\<lparr>ce := ce (con s) - 1\<rparr>, out := u\<rparr>"
  note p = edit_pop [OF Suc.prems ne]
  have "n = length (edited (con s1))" using Suc.hyps(2) p(2) by (simp add: s1_def)
  from Suc.hyps(1) [OF this] p(1,3) have "\<exists>s'. kill_line lsr False s1 = Some s' \<and> cons_ok (con s') \<and>
      committed (con s') = committed (con s) \<and> edited (con s') = []" by (simp add: s1_def)
  moreover have "kill_line lsr False s = kill_line lsr False s1"
    using ne p(4) u by (simp add: kill_line.simps [of lsr False s] s1_def)
  ultimately show ?case by simp
qed

lemma commit_line:
  assumes "unat (cw n - cr n) + unat (ce n - cw n) \<le> 128" "length (cbuf n) = 128"
  shows "committed (n\<lparr>cw := ce n\<rparr>) = committed n @ edited n" "edited (n\<lparr>cw := ce n\<rparr>) = []" "cons_ok (n\<lparr>cw := ce n\<rparr>)"
    "unat (ce n - cr n) = length (committed n) + length (edited n)"
proof -
  have a: "ring_list 128 (cbuf n) (cr n) (ce n) = committed n @ edited n"
    unfolding committed_def edited_def using assms by (intro ring_list_append) simp
  then show "committed (n\<lparr>cw := ce n\<rparr>) = committed n @ edited n" by (simp add: committed_def)
  show e: "edited (n\<lparr>cw := ce n\<rparr>) = []" by (simp add: edited_def)
  show t: "unat (ce n - cr n) = length (committed n) + length (edited n)" by (metis a length_append length_ring_list)
  show "cons_ok (n\<lparr>cw := ce n\<rparr>)" using e assms t by (simp add: cons_ok_def committed_def edited_def)
qed

section \<open>Properties\<close>

text \<open>
  C6: the input interrupt handler implements the line discipline on the pair of committed input and
  line being edited, for every character and also when the 32-bit indices wrap: backspace and
  delete drop the last character of the current line only, control-U drops the whole line, newline,
  carriage return, control-D and a full buffer commit it, and committed input is never altered. The
  handler returns whenever the device keeps becoming idle.
\<close>
theorem consoleintr_refines:
  assumes alive: "device_alive lsr" and ok: "cons_ok (con s)" and c: "0 \<le> c" "c < 256"
  shows "\<exists>s'. consoleintr lsr False dump c s = Some s' \<and> cons_ok (con s') \<and>
    (committed (con s'), edited (con s')) = line_disc c (committed (con s), edited (con s))"
proof -
  consider (P) "c = 16" | (U) "c = 21" | (H) "c = 8 \<or> c = 127" | (put) "c \<notin> {16, 21, 8, 127}" by blast
  then show ?thesis
  proof cases
    case P
    then show ?thesis using ok putall_returns [OF alive, of dump "out s"] by (auto simp: consoleintr_def)
  next
    case U
    then show ?thesis using kill_line_spec [OF alive ok] by (auto simp: consoleintr_def)
  next
    case H
    obtain u where "consputc lsr False BACKSPACE (out s) = Some u" using consputc_returns [OF alive] by blast
    then show ?thesis using H ok edit_pop [OF ok] edited_Nil [of "con s"] by (auto simp: consoleintr_def)
  next
    case put
    let ?n = "length (committed (con s)) + length (edited (con s))"
    let ?b = "if c = 13 then 10 else c"
    have room: "ce (con s) - cr (con s) < INPUT_BUF_SIZE \<longleftrightarrow> ?n < 128"
      using cons_ok_total(1) [OF ok] by (simp add: word_less_nat_alt INPUT_BUF_SIZE_def)
    show ?thesis
    proof (cases "c \<noteq> 0 \<and> ?n < 128")
      case False
      then show ?thesis using put ok room by (auto simp: consoleintr_def)
    next
      case True
      obtain u where u: "consputc lsr False ?b (out s) = Some u" using consputc_returns [OF alive] by blast
      define n where "n = (con s)\<lparr>cbuf := (cbuf (con s))[unat (ce (con s) mod INPUT_BUF_SIZE) := of_int ?b], ce := ce (con s) + 1\<rparr>"
      have n: "committed n = committed (con s)" "edited n = edited (con s) @ [of_int ?b]"
        "unat (cw (con s) - cr (con s)) + unat (ce n - cw (con s)) \<le> 128"
        unfolding n_def using True by (intro edit_put [OF ok]; simp)+
      have fields: "cw n = cw (con s)" "cr n = cr (con s)" "length (cbuf n) = 128"
        using ok by (simp_all add: n_def cons_ok_def)
      have bnd: "unat (cw n - cr n) + unat (ce n - cw n) \<le> 128" using n(3) fields by simp
      note cm = commit_line [OF bnd fields(3)]
      have full: "ce n - cr n = INPUT_BUF_SIZE \<longleftrightarrow> ?n = 127"
        using cm(4) n(1,2) by (simp add: word_unat_eq_iff INPUT_BUF_SIZE_def)
      have b10: "(of_int ?b :: u8) = 10 \<longleftrightarrow> ?b = 10" using c word_of_int_eq_iff [where 'a = 8, of ?b 10]
        by (simp add: take_bit_int_eq_self)
      have run: "consoleintr lsr False dump c s = Some (if ?b = 10 \<or> ?b = 4 \<or> ?n = 127
          then s\<lparr>con := n\<lparr>cw := ce n\<rparr>, out := u, cwakes := Suc (cwakes s)\<rparr> else s\<lparr>con := n, out := u\<rparr>)"
        unfolding consoleintr_def using True put room u full by (simp add: n_def Let_def)
      have "cons_ok n" if "?b \<noteq> 10"
        using that ok bnd fields(3) b10 by (simp add: cons_ok_def n(2))
      then show ?thesis unfolding run using True put cm n(1,2) by (auto simp: Let_def)
    qed
  qed
qed

theorem consoleintr_refines_witness:
  "let n = \<lparr>cbuf = replicate 128 0, cr = - 1, cw = - 1, ce = - 1\<rparr>;
       u = \<lparr>uart_tx_buf = replicate 32 0, uart_tx_w = 0, uart_tx_r = 0, lsr_reads = 0, rhr_reads = 0, reg_writes = [], tx_wakeups = 0\<rparr>
   in \<exists>s'. consoleintr (\<lambda>_. 32) False [] 13 \<lparr>con = n, out = u, cwakes = 0\<rparr> = Some s' \<and> committed (con s') = [10]"
proof -
  let ?n = "\<lparr>cbuf = replicate 128 0, cr = - 1, cw = - 1, ce = - 1\<rparr> :: cons"
  let ?u = "\<lparr>uart_tx_buf = replicate 32 0, uart_tx_w = 0, uart_tx_r = 0, lsr_reads = 0, rhr_reads = 0, reg_writes = [], tx_wakeups = 0\<rparr> :: uart"
  have "device_alive (\<lambda>_. 32)" by (auto simp: device_alive_def LSR_TX_IDLE_def push_bit_eq_mult)
  moreover have "cons_ok ?n" "committed ?n = []" "edited ?n = []" by (simp_all add: cons_ok_def committed_def edited_def)
  ultimately show ?thesis
    using consoleintr_refines [of "\<lambda>_. 32" "\<lparr>con = ?n, out = ?u, cwakes = 0\<rparr>" 13 "[]"] by auto
qed

end
