(* ===== verification/Block.thy ===== *)
theory Block
  imports Bytes
begin

text \<open>
  Disk blocks. A block is the function from offsets below \<open>BSIZE\<close> to bytes; integers are stored in it
  in little-endian order, as the C code reads and writes them through pointers into the buffer.
\<close>

section \<open>Constants (kernel/param.h, kernel/fs.h)\<close>

definition MAXOPBLOCKS :: nat where "MAXOPBLOCKS = 10"
definition NBUF :: nat where "NBUF = MAXOPBLOCKS * 3"
definition LOGSIZE :: nat where "LOGSIZE = MAXOPBLOCKS * 3"
definition BSIZE :: nat where "BSIZE = 1024"

type_synonym block = "nat \<Rightarrow> u8"

section \<open>Integers in a block\<close>

definition bbytes :: "block \<Rightarrow> nat \<Rightarrow> nat \<Rightarrow> u8 list" where
  "bbytes b off n = map (\<lambda>i. b (off + i)) [0..<n]"

definition bput :: "nat \<Rightarrow> u8 list \<Rightarrow> block \<Rightarrow> block" where
  "bput off xs b = (\<lambda>i. if off \<le> i \<and> i < off + length xs then xs ! (i - off) else b i)"

definition get32 :: "block \<Rightarrow> nat \<Rightarrow> u32" where
  "get32 b off = le_word (bbytes b off 4)"

definition put32 :: "nat \<Rightarrow> u32 \<Rightarrow> block \<Rightarrow> block" where
  "put32 off v = bput off (le_bytes 4 v)"

definition get16 :: "block \<Rightarrow> nat \<Rightarrow> u16" where
  "get16 b off = le_word (bbytes b off 2)"

definition put16 :: "nat \<Rightarrow> u16 \<Rightarrow> block \<Rightarrow> block" where
  "put16 off v = bput off (le_bytes 2 v)"

lemma length_bbytes [simp]: "length (bbytes b off n) = n"
  by (simp add: bbytes_def)

lemma nth_bbytes [simp]: "i < n \<Longrightarrow> bbytes b off n ! i = b (off + i)"
  by (simp add: bbytes_def)

lemma bbytes_bput_same [simp]: "n = length xs \<Longrightarrow> bbytes (bput off xs b) off n = xs"
  by (rule nth_equalityI) (auto simp: bput_def)

lemma bbytes_bput_other:
  "off + n \<le> off' \<or> off' + length xs \<le> off \<Longrightarrow> bbytes (bput off' xs b) off n = bbytes b off n"
  by (rule nth_equalityI) (auto simp: bput_def)

lemma bbytes_cong: "(\<And>i. i < n \<Longrightarrow> b (off + i) = b' (off + i)) \<Longrightarrow> bbytes b off n = bbytes b' off n"
  by (simp add: bbytes_def)

lemma get_put_same [simp]: "get32 (put32 off v b) off = v" "get16 (put16 off w b) off = w"
  by (simp_all add: get32_def put32_def get16_def put16_def le_word_le_bytes)

lemma get_put_other:
  "off + 4 \<le> off' \<or> off' + 4 \<le> off \<Longrightarrow> get32 (put32 off' v b) off = get32 b off"
  "off + 4 \<le> off' \<or> off' + 2 \<le> off \<Longrightarrow> get32 (put16 off' w b) off = get32 b off"
  "off + 2 \<le> off' \<or> off' + 4 \<le> off \<Longrightarrow> get16 (put32 off' v b) off = get16 b off"
  "off + 2 \<le> off' \<or> off' + 2 \<le> off \<Longrightarrow> get16 (put16 off' w b) off = get16 b off"
  by (simp_all add: get32_def put32_def get16_def put16_def bbytes_bput_other)

end
