(* ===== verification/Bio.thy ===== *)
theory Bio
  imports Block
begin

text \<open>
  The buffer cache (kernel/bio.c). Buffers are addressed by their index in \<open>bcache.buf\<close>; the list
  head has the index \<open>NBUF\<close>. The doubly linked list is kept as in the code, through the \<open>prev\<close> and
  \<open>next\<close> fields. The disk driver
  enters through its contract: \<open>virtio_disk_rw\<close> transfers one block, and the writes it makes are
  recorded in order. The model follows one process: a sleep-lock that is held makes it wait.
\<close>

section \<open>The cache\<close>

record buf =
  valid :: bool
  bdev :: u32
  blockno :: u32
  lkd :: bool
  refcnt :: u32
  bprev :: nat
  bnext :: nat
  bdata :: block

record bst =
  bufs :: "nat \<Rightarrow> buf"
  disk :: "u32 \<Rightarrow> block"
  dwrites :: "(u32 \<times> block) list"

abbreviation HEAD :: nat where
  "HEAD \<equiv> NBUF"

definition upd_buf :: "nat \<Rightarrow> (buf \<Rightarrow> buf) \<Rightarrow> bst \<Rightarrow> bst" where
  "upd_buf i f s = s\<lparr>bufs := (bufs s)(i := f (bufs s i))\<rparr>"

definition set_next :: "nat \<Rightarrow> nat \<Rightarrow> bst \<Rightarrow> bst" where
  "set_next i v = upd_buf i (\<lambda>b. b\<lparr>bnext := v\<rparr>)"

definition set_prev :: "nat \<Rightarrow> nat \<Rightarrow> bst \<Rightarrow> bst" where
  "set_prev i v = upd_buf i (\<lambda>b. b\<lparr>bprev := v\<rparr>)"

definition virtio_disk_rw :: "nat \<Rightarrow> bool \<Rightarrow> bst \<Rightarrow> bst" where
  "virtio_disk_rw b write s =
     (if write then s\<lparr>disk := (disk s)(blockno (bufs s b) := bdata (bufs s b)),
                      dwrites := dwrites s @ [(blockno (bufs s b), bdata (bufs s b))]\<rparr>
      else upd_buf b (\<lambda>x. x\<lparr>bdata := disk s (blockno x)\<rparr>) s)"

text \<open>Linking buffer \<open>b\<close> in front of the list, as \<open>binit\<close> and \<open>brelse\<close> do.\<close>

definition push_front :: "nat \<Rightarrow> bst \<Rightarrow> bst" where
  "push_front b s =
     (let s = set_next b (bnext (bufs s HEAD)) s;
          s = set_prev b HEAD s;
          s = set_prev (bnext (bufs s HEAD)) b s
      in set_next HEAD b s)"

definition unlink :: "nat \<Rightarrow> bst \<Rightarrow> bst" where
  "unlink b s =
     (let s = set_prev (bnext (bufs s b)) (bprev (bufs s b)) s
      in set_next (bprev (bufs s b)) (bnext (bufs s b)) s)"

definition binit :: "bst \<Rightarrow> bst" where
  "binit s =
     (let s = set_prev HEAD HEAD s;
          s = set_next HEAD HEAD s
      in fold (\<lambda>b s. upd_buf b (\<lambda>x. x\<lparr>lkd := False\<rparr>) (push_front b s)) [0..<NBUF] s)"

fun bget_cached :: "nat \<Rightarrow> u32 \<Rightarrow> u32 \<Rightarrow> nat \<Rightarrow> bst \<Rightarrow> nat option option" where
  "bget_cached 0 dev bno b s = None"
| "bget_cached (Suc fuel) dev bno b s =
     (if b = HEAD then Some None
      else if bdev (bufs s b) = dev \<and> blockno (bufs s b) = bno then Some (Some b)
      else bget_cached fuel dev bno (bnext (bufs s b)) s)"

fun bget_lru :: "nat \<Rightarrow> nat \<Rightarrow> bst \<Rightarrow> nat option option" where
  "bget_lru 0 b s = None"
| "bget_lru (Suc fuel) b s =
     (if b = HEAD then Some None
      else if refcnt (bufs s b) = 0 then Some (Some b)
      else bget_lru fuel (bprev (bufs s b)) s)"

definition acquiresleep_buf :: "nat \<Rightarrow> bst \<Rightarrow> bst kres" where
  "acquiresleep_buf b s =
     (if lkd (bufs s b) then Wait ''acquiresleep'' else Ok (upd_buf b (\<lambda>x. x\<lparr>lkd := True\<rparr>) s))"

text \<open>A list that never returns to its head keeps the loops running, which is a wait without end.\<close>

definition bget :: "u32 \<Rightarrow> u32 \<Rightarrow> bst \<Rightarrow> (nat \<times> bst) kres" where
  "bget dev bno s =
     (case bget_cached (Suc NBUF) dev bno (bnext (bufs s HEAD)) s of
        None \<Rightarrow> NoReturn
      | Some (Some b) \<Rightarrow>
          kbind (acquiresleep_buf b (upd_buf b (\<lambda>x. x\<lparr>refcnt := refcnt x + 1\<rparr>) s)) (\<lambda>s. Ok (b, s))
      | Some None \<Rightarrow>
          (case bget_lru (Suc NBUF) (bprev (bufs s HEAD)) s of
             None \<Rightarrow> NoReturn
           | Some (Some b) \<Rightarrow>
               kbind (acquiresleep_buf b (upd_buf b (\<lambda>x. x\<lparr>bdev := dev, blockno := bno, valid := False, refcnt := 1\<rparr>) s))
                 (\<lambda>s. Ok (b, s))
           | Some None \<Rightarrow> Panic ''bget: no buffers''))"

definition bread :: "u32 \<Rightarrow> u32 \<Rightarrow> bst \<Rightarrow> (nat \<times> bst) kres" where
  "bread dev bno s =
     kbind (bget dev bno s) (\<lambda>(b, s).
       if \<not> valid (bufs s b)
       then Ok (b, upd_buf b (\<lambda>x. x\<lparr>valid := True\<rparr>) (virtio_disk_rw b False s))
       else Ok (b, s))"

definition bwrite :: "nat \<Rightarrow> bst \<Rightarrow> bst kres" where
  "bwrite b s = (if \<not> lkd (bufs s b) then Panic ''bwrite'' else Ok (virtio_disk_rw b True s))"

definition brelse :: "nat \<Rightarrow> bst \<Rightarrow> bst kres" where
  "brelse b s =
     (if \<not> lkd (bufs s b) then Panic ''brelse''
      else
        let s = upd_buf b (\<lambda>x. x\<lparr>lkd := False\<rparr>) s;
            s = upd_buf b (\<lambda>x. x\<lparr>refcnt := refcnt x - 1\<rparr>) s
        in Ok (if refcnt (bufs s b) = 0 then push_front b (unlink b s) else s))"

definition bpin :: "nat \<Rightarrow> bst \<Rightarrow> bst" where
  "bpin b = upd_buf b (\<lambda>x. x\<lparr>refcnt := refcnt x + 1\<rparr>)"

definition bunpin :: "nat \<Rightarrow> bst \<Rightarrow> bst" where
  "bunpin b = upd_buf b (\<lambda>x. x\<lparr>refcnt := refcnt x - 1\<rparr>)"

section \<open>The linked list\<close>

text \<open>Consecutive pairs along \<open>a\<close>, \<open>xs\<close>, \<open>z\<close>.\<close>

definition path :: "'a \<Rightarrow> 'a list \<Rightarrow> 'a \<Rightarrow> ('a \<times> 'a) list" where
  "path a xs z = zip (a # xs) (xs @ [z])"

lemma path_Nil [simp]: "path a [] z = [(a, z)]"
  by (simp add: path_def)

lemma path_Cons [simp]: "path a (x # xs) z = (a, x) # path x xs z"
  by (simp add: path_def)

lemma path_append: "path a (xs @ b # ys) z = path a xs b @ path b ys z"
  by (induction xs arbitrary: a) auto

lemma path_fst: "(x, y) \<in> set (path a xs z) \<Longrightarrow> x \<in> set (a # xs)"
  by (induction xs arbitrary: a) auto

lemma path_snd: "(x, y) \<in> set (path a xs z) \<Longrightarrow> y \<in> set (xs @ [z])"
  by (induction xs arbitrary: a) auto

lemma path_functional:
  "distinct (a # xs) \<Longrightarrow> (x, y) \<in> set (path a xs z) \<Longrightarrow> (x, y') \<in> set (path a xs z) \<Longrightarrow> y = y'"
  by (induction xs arbitrary: a) (auto dest: path_fst)

lemma path_injective:
  "distinct xs \<Longrightarrow> z \<notin> set xs \<Longrightarrow> (x, y) \<in> set (path a xs z) \<Longrightarrow> (x', y) \<in> set (path a xs z) \<Longrightarrow> x = x'"
  by (induction xs arbitrary: a) (auto dest: path_snd)

definition links :: "('a \<Rightarrow> 'a) \<Rightarrow> ('a \<Rightarrow> 'a) \<Rightarrow> 'a \<Rightarrow> 'a list \<Rightarrow> 'a \<Rightarrow> bool" where
  "links nx pv a xs z \<longleftrightarrow> (\<forall>(x, y) \<in> set (path a xs z). nx x = y \<and> pv y = x)"

lemma links_Nil [simp]: "links nx pv a [] z \<longleftrightarrow> nx a = z \<and> pv z = a"
  by (simp add: links_def)

lemma links_Cons [simp]: "links nx pv a (x # xs) z \<longleftrightarrow> nx a = x \<and> pv x = a \<and> links nx pv x xs z"
  by (auto simp: links_def)

lemma links_append: "links nx pv a (xs @ b # ys) z \<longleftrightarrow> links nx pv a xs b \<and> links nx pv b ys z"
  by (simp only: links_def path_append set_append ball_Un)

lemma links_cong:
  assumes "\<And>x. x \<in> set (a # xs) \<Longrightarrow> nx x = nx' x" "\<And>x. x \<in> set (xs @ [z]) \<Longrightarrow> pv x = pv' x"
  shows "links nx pv a xs z \<longleftrightarrow> links nx' pv' a xs z"
  using assms unfolding links_def by (metis (no_types, lifting) case_prodI2 case_prodD path_fst path_snd)

lemma links_unlink:
  assumes l: "links nx pv z (xs @ b # ys) z" and d: "distinct (z # xs @ b # ys)"
  shows "links (nx(pv b := nx b)) (pv(nx b := pv b)) z (xs @ ys) z"
proof -
  let ?nx = "nx(pv b := nx b)" and ?pv = "pv(nx b := pv b)"
  have l2: "links nx pv z xs b" "links nx pv b ys z" using l by (simp_all add: links_append)
  show ?thesis
  proof (cases xs rule: rev_cases)
    case Nil
    then have p: "pv b = z" using l2(1) by simp
    show ?thesis
    proof (cases ys)
      case (Cons q ys')
      have "links nx pv q ys' z" "nx b = q" using l2(2) Cons by simp_all
      moreover from this have "links ?nx ?pv q ys' z \<longleftrightarrow> links nx pv q ys' z"
        using d Nil Cons p by (intro links_cong) auto
      ultimately show ?thesis using Nil Cons p by simp
    qed (use Nil p l2 in simp)
  next
    case (snoc xs' p)
    then have p: "pv b = p" "nx p = b" "links nx pv z xs' p" using l2(1) by (simp_all add: links_append)
    show ?thesis
    proof (cases ys)
      case Nil
      then have q: "nx b = z" using l2(2) by simp
      have "links ?nx ?pv z xs' p \<longleftrightarrow> links nx pv z xs' p" using d snoc Nil p(1) q by (intro links_cong) auto
      then show ?thesis using snoc Nil p q by (simp add: links_append)
    next
      case (Cons q ys')
      then have q: "nx b = q" "links nx pv q ys' z" using l2(2) by simp_all
      have "links ?nx ?pv z xs' p \<longleftrightarrow> links nx pv z xs' p" "links ?nx ?pv q ys' z \<longleftrightarrow> links nx pv q ys' z"
        using d snoc Cons p(1) q(1) by (auto intro!: links_cong)
      then show ?thesis using snoc Cons p q by (simp add: links_append)
    qed
  qed
qed

lemma links_push:
  assumes l: "links nx pv z xs z" and d: "distinct (b # z # xs)"
  shows "links ((nx(b := nx z))(z := b)) ((pv(b := z))(nx z := b)) z (b # xs) z"
proof (cases xs)
  case Nil
  then show ?thesis using l d by simp
next
  case (Cons c cs)
  have "links ((nx(b := nx z))(z := b)) ((pv(b := z))(nx z := b)) c cs z \<longleftrightarrow> links nx pv c cs z"
    using l d Cons by (intro links_cong) auto
  then show ?thesis using l d Cons by simp
qed

text \<open>The two pointer fields as functions.\<close>

abbreviation nx :: "bst \<Rightarrow> nat \<Rightarrow> nat" where
  "nx s \<equiv> \<lambda>i. bnext (bufs s i)"

abbreviation pv :: "bst \<Rightarrow> nat \<Rightarrow> nat" where
  "pv s \<equiv> \<lambda>i. bprev (bufs s i)"

text \<open>The list holds exactly the buffers, most recently used first.\<close>

definition lru_list :: "bst \<Rightarrow> nat list \<Rightarrow> bool" where
  "lru_list s bs \<longleftrightarrow> distinct bs \<and> set bs = {..<NBUF} \<and> links (nx s) (pv s) HEAD bs HEAD"

lemma set_link_simps [simp]:
  "bnext (bufs (set_next i v s) j) = (if j = i then v else bnext (bufs s j))" "bprev (bufs (set_next i v s) j) = bprev (bufs s j)"
  "bnext (bufs (set_prev i v s) j) = bnext (bufs s j)" "bprev (bufs (set_prev i v s) j) = (if j = i then v else bprev (bufs s j))"
  by (auto simp: set_next_def set_prev_def upd_buf_def)

lemma push_front_links:
  assumes "links (nx s) (pv s) HEAD xs HEAD" "distinct (b # HEAD # xs)"
  shows "links (nx (push_front b s)) (pv (push_front b s)) HEAD (b # xs) HEAD"
proof -
  have "nx (push_front b s) = ((nx s)(b := nx s HEAD))(HEAD := b)" "pv (push_front b s) = ((pv s)(b := HEAD))(nx s HEAD := b)"
    using assms(2) by (auto simp: push_front_def Let_def fun_eq_iff)
  then show ?thesis using links_push [OF assms] by metis
qed

lemma unlink_links:
  assumes "links (nx s) (pv s) HEAD (xs @ b # ys) HEAD" "distinct (HEAD # xs @ b # ys)"
  shows "links (nx (unlink b s)) (pv (unlink b s)) HEAD (xs @ ys) HEAD"
proof -
  have "bnext (bufs s b) \<noteq> b"
    using assms by (cases ys) (auto simp: links_append)
  then have "nx (unlink b s) = (nx s)(pv s b := nx s b)" "pv (unlink b s) = (pv s)(nx s b := pv s b)"
    by (auto simp: unlink_def Let_def fun_eq_iff)
  then show ?thesis using links_unlink [OF assms] by metis
qed

text \<open>The other fields of a buffer, and the disk, do not change when it is moved in the list.\<close>

definition body :: "buf \<Rightarrow> bool \<times> u32 \<times> u32 \<times> bool \<times> u32 \<times> block" where
  "body b = (valid b, bdev b, blockno b, lkd b, refcnt b, bdata b)"

lemma relink_body [simp]:
  "body (bufs (set_next i v s) j) = body (bufs s j)" "body (bufs (set_prev i v s) j) = body (bufs s j)"
  "body (bufs (push_front b s) j) = body (bufs s j)" "body (bufs (unlink b s) j) = body (bufs s j)"
  "disk (set_next i v s) = disk s" "disk (set_prev i v s) = disk s" "disk (push_front b s) = disk s" "disk (unlink b s) = disk s"
  "dwrites (set_next i v s) = dwrites s" "dwrites (set_prev i v s) = dwrites s" "dwrites (push_front b s) = dwrites s" "dwrites (unlink b s) = dwrites s"
  by (auto simp: set_next_def set_prev_def push_front_def unlink_def upd_buf_def body_def Let_def)

lemma body_fields:
  assumes "body x = body y"
  shows "valid x = valid y" "bdev x = bdev y" "blockno x = blockno y" "lkd x = lkd y" "refcnt x = refcnt y" "bdata x = bdata y"
  using assms by (simp_all add: body_def)

lemma lru_list_cong:
  assumes "nx s = nx s'" "pv s = pv s'"
  shows "lru_list s bs = lru_list s' bs"
  using assms by (simp add: lru_list_def)

lemma upd_buf_links:
  assumes "\<And>x. bnext (f x) = bnext x" "\<And>x. bprev (f x) = bprev x"
  shows "lru_list (upd_buf i f s) bs = lru_list s bs"
  by (rule lru_list_cong) (auto simp: upd_buf_def assms)

lemma lru_list_touch:
  assumes "lru_list s bs" "b < NBUF"
  shows "lru_list (push_front b (unlink b s)) (b # remove1 b bs)"
proof -
  have l: "distinct bs" "set bs = {..<NBUF}" "links (nx s) (pv s) HEAD bs HEAD" using assms(1) by (simp_all add: lru_list_def)
  have "b \<in> set bs" using l(2) assms(2) by simp
  then obtain xs ys where bs: "bs = xs @ b # ys" "b \<notin> set xs" by (metis split_list_first)
  have d: "distinct (HEAD # xs @ b # ys)" using l(1,2) bs by auto
  have "links (nx (unlink b s)) (pv (unlink b s)) HEAD (xs @ ys) HEAD"
    using unlink_links [OF _ d] l(3) bs by simp
  then have "links (nx (push_front b (unlink b s))) (pv (push_front b (unlink b s))) HEAD (b # xs @ ys) HEAD"
    using d by (intro push_front_links) auto
  moreover have "b # remove1 b bs = b # xs @ ys" using bs by (simp add: remove1_append)
  ultimately show ?thesis using l bs d by (auto simp: lru_list_def)
qed

lemma binit_lru: "lru_list (binit s) (rev [0..<NBUF])"
proof -
  define step where "step = (\<lambda>b s. upd_buf b (\<lambda>x. x\<lparr>lkd := False\<rparr>) (push_front b s))"
  have "links (nx (fold step [0..<n] s)) (pv (fold step [0..<n] s)) HEAD (rev [0..<n]) HEAD"
    if "n \<le> NBUF" "links (nx s) (pv s) HEAD [] HEAD" for n s
    using that
  proof (induction n)
    case (Suc n)
    let ?s = "fold step [0..<n] s"
    have "links (nx (push_front n ?s)) (pv (push_front n ?s)) HEAD (n # rev [0..<n]) HEAD"
      using Suc by (intro push_front_links) auto
    moreover have "nx (step n ?s) = nx (push_front n ?s)" "pv (step n ?s) = pv (push_front n ?s)"
      by (auto simp: step_def upd_buf_def)
    ultimately show ?case by simp
  qed simp
  from this [of NBUF "set_next HEAD HEAD (set_prev HEAD HEAD s)"] show ?thesis
    by (auto simp: lru_list_def binit_def Let_def step_def)
qed

section \<open>Searching the list\<close>

lemma bget_cached_find:
  assumes "links (nx s) (pv s) a xs HEAD" "HEAD \<notin> set xs" "length xs < fuel"
  shows "bget_cached fuel dev bno (bnext (bufs s a)) s = Some (find (\<lambda>b. bdev (bufs s b) = dev \<and> blockno (bufs s b) = bno) xs)"
  using assms
proof (induction xs arbitrary: a fuel)
  case Nil
  then show ?case by (cases fuel) auto
next
  case (Cons x xs)
  then show ?case by (cases fuel) auto
qed

lemma bget_lru_find:
  assumes "links (nx s) (pv s) HEAD xs a" "HEAD \<notin> set xs" "length xs < fuel"
  shows "bget_lru fuel (bprev (bufs s a)) s = Some (find (\<lambda>b. refcnt (bufs s b) = 0) (rev xs))"
  using assms
proof (induction xs arbitrary: a fuel rule: rev_induct)
  case Nil
  then show ?case by (cases fuel) auto
next
  case (snoc x xs)
  have "links (nx s) (pv s) HEAD xs x" "bprev (bufs s a) = x" using snoc.prems(1) by (simp_all add: links_append)
  then show ?case using snoc.IH [of x] snoc.prems by (cases fuel) auto
qed

text \<open>What \<open>bget\<close> does, on the list order instead of the pointers.\<close>

lemma bget_abs:
  assumes "lru_list s bs"
  shows "bget dev bno s =
    (case find (\<lambda>b. bdev (bufs s b) = dev \<and> blockno (bufs s b) = bno) bs of
       Some b \<Rightarrow> kbind (acquiresleep_buf b (upd_buf b (\<lambda>x. x\<lparr>refcnt := refcnt x + 1\<rparr>) s)) (\<lambda>s. Ok (b, s))
     | None \<Rightarrow> (case find (\<lambda>b. refcnt (bufs s b) = 0) (rev bs) of
         Some b \<Rightarrow> kbind (acquiresleep_buf b (upd_buf b (\<lambda>x. x\<lparr>bdev := dev, blockno := bno, valid := False, refcnt := 1\<rparr>) s))
                    (\<lambda>s. Ok (b, s))
       | None \<Rightarrow> Panic ''bget: no buffers''))"
proof -
  have l: "links (nx s) (pv s) HEAD bs HEAD" "HEAD \<notin> set bs" using assms by (auto simp: lru_list_def)
  have "length bs = NBUF"
    using assms distinct_card [of bs] by (simp add: lru_list_def)
  then have "length bs < Suc NBUF" by simp
  from bget_cached_find [OF l this] bget_lru_find [OF l this] show ?thesis
    unfolding bget_def by (simp add: option.case_eq_if)
qed

section \<open>The cache shows the disk\<close>

definition ROOTDEV :: u32 where "ROOTDEV = 1"

definition holds_block :: "bst \<Rightarrow> u32 \<Rightarrow> nat \<Rightarrow> bool" where
  "holds_block s bno i \<longleftrightarrow> bdev (bufs s i) = ROOTDEV \<and> blockno (bufs s i) = bno"

text \<open>
  The invariant of the cache: the list is intact, a block has at most one buffer, a buffer nobody
  uses has nothing that the disk does not have, and locked buffers are in use. Buffers that were
  never used have device 0.
\<close>

definition cinv :: "bst \<Rightarrow> nat list \<Rightarrow> bool" where
  "cinv s bs \<longleftrightarrow> lru_list s bs \<and>
     (\<forall>i < NBUF. bdev (bufs s i) = 0 \<or> bdev (bufs s i) = ROOTDEV) \<and>
     (\<forall>i < NBUF. valid (bufs s i) \<longrightarrow> bdev (bufs s i) = ROOTDEV) \<and>
     (\<forall>i < NBUF. \<forall>j < NBUF. \<forall>bno. holds_block s bno i \<and> holds_block s bno j \<longrightarrow> i = j) \<and>
     (\<forall>i < NBUF. valid (bufs s i) \<and> refcnt (bufs s i) = 0 \<longrightarrow> bdata (bufs s i) = disk s (blockno (bufs s i))) \<and>
     (\<forall>i < NBUF. lkd (bufs s i) \<longrightarrow> refcnt (bufs s i) \<noteq> 0)"

lemma cinv_unique:
  "cinv s bs \<Longrightarrow> i < NBUF \<Longrightarrow> j < NBUF \<Longrightarrow> holds_block s n i \<Longrightarrow> holds_block s n j \<Longrightarrow> i = j"
  unfolding cinv_def by blast

lemma cinv_fields:
  assumes "cinv s bs" "i < NBUF"
  shows "valid (bufs s i) \<Longrightarrow> bdev (bufs s i) = ROOTDEV" "lkd (bufs s i) \<Longrightarrow> refcnt (bufs s i) \<noteq> 0"
    "valid (bufs s i) \<Longrightarrow> refcnt (bufs s i) = 0 \<Longrightarrow> bdata (bufs s i) = disk s (blockno (bufs s i))"
  using assms unfolding cinv_def by blast+

text \<open>The contents of the blocks as the cache presents them.\<close>

definition view :: "bst \<Rightarrow> u32 \<Rightarrow> block" where
  "view s bno = (case find (\<lambda>i. holds_block s bno i \<and> valid (bufs s i)) [0..<NBUF] of
     Some i \<Rightarrow> bdata (bufs s i) | None \<Rightarrow> disk s bno)"

lemma view_cached:
  assumes "cinv s bs" "i < NBUF" "holds_block s bno i" "valid (bufs s i)"
  shows "view s bno = bdata (bufs s i)"
proof (cases "find (\<lambda>i. holds_block s bno i \<and> valid (bufs s i)) [0..<NBUF]")
  case None
  then show ?thesis using assms by (auto simp: find_None_iff)
next
  case (Some j)
  then have "j < NBUF" "holds_block s bno j" by (auto simp: find_Some_iff)
  then have "j = i" using assms unfolding cinv_def by blast
  then show ?thesis using Some by (simp add: view_def)
qed

lemma view_uncached:
  assumes "\<And>i. i < NBUF \<Longrightarrow> holds_block s bno i \<Longrightarrow> \<not> valid (bufs s i)"
  shows "view s bno = disk s bno"
proof -
  have "find (\<lambda>i. holds_block s bno i \<and> valid (bufs s i)) [0..<NBUF] = None"
    using assms by (auto simp: find_None_iff)
  then show ?thesis by (simp add: view_def)
qed

lemma view_cong:
  assumes "\<And>j. j < NBUF \<Longrightarrow> (holds_block s' n j \<and> valid (bufs s' j)) = (holds_block s n j \<and> valid (bufs s j))"
    "\<And>j. j < NBUF \<Longrightarrow> holds_block s n j \<Longrightarrow> valid (bufs s j) \<Longrightarrow> bdata (bufs s' j) = bdata (bufs s j)"
    "disk s' n = disk s n"
  shows "view s' n = view s n"
proof -
  have f: "find (\<lambda>i. holds_block s' n i \<and> valid (bufs s' i)) [0..<NBUF] = find (\<lambda>i. holds_block s n i \<and> valid (bufs s i)) [0..<NBUF]"
    by (rule find_cong) (use assms(1) in auto)
  show ?thesis
  proof (cases "find (\<lambda>i. holds_block s n i \<and> valid (bufs s i)) [0..<NBUF]")
    case None
    then show ?thesis unfolding view_def f using assms(3) by simp
  next
    case (Some i)
    moreover from this have "i < NBUF" "holds_block s n i" "valid (bufs s i)" by (auto simp: find_Some_iff)
    ultimately show ?thesis unfolding view_def f using assms(2) by simp
  qed
qed

text \<open>Changes that keep the bodies of all buffers and the disk keep the invariant and the view.\<close>

lemma same_body:
  assumes "\<And>i. body (bufs s' i) = body (bufs s i)" "disk s' = disk s"
  shows "view s' = view s" "lru_list s' bs' \<Longrightarrow> cinv s bs \<Longrightarrow> cinv s' bs'"
proof -
  note b = body_fields [OF assms(1)]
  have h: "holds_block s' bno i = holds_block s bno i" for bno i by (simp add: holds_block_def b)
  show "view s' = view s" by (simp add: view_def h b assms(2) fun_eq_iff cong: option.case_cong)
  show "lru_list s' bs' \<Longrightarrow> cinv s bs \<Longrightarrow> cinv s' bs'" unfolding cinv_def h b assms(2) by blast
qed

definition bread_ready :: "bst \<Rightarrow> u32 \<Rightarrow> bool" where
  "bread_ready s bno \<longleftrightarrow>
     (\<exists>i < NBUF. holds_block s bno i \<and> \<not> lkd (bufs s i) \<and> refcnt (bufs s i) + 1 \<noteq> 0) \<or>
     (\<forall>i < NBUF. \<not> holds_block s bno i) \<and> (\<exists>i < NBUF. refcnt (bufs s i) = 0)"

text \<open>The buffer that \<open>bread\<close> returns and the state after it.\<close>

definition got :: "bst \<Rightarrow> u32 \<Rightarrow> nat \<Rightarrow> bst \<Rightarrow> bool" where
  "got s bno b s' \<longleftrightarrow> b < NBUF \<and> holds_block s' bno b \<and> valid (bufs s' b) \<and> lkd (bufs s' b) \<and> \<not> lkd (bufs s b) \<and>
     bdata (bufs s' b) = view s bno \<and>
     refcnt (bufs s' b) = (if holds_block s bno b then refcnt (bufs s b) + 1 else 1) \<and>
     (\<not> holds_block s bno b \<longrightarrow> refcnt (bufs s b) = 0) \<and>
     (\<forall>j. j \<noteq> b \<longrightarrow> bufs s' j = bufs s j) \<and> view s' = view s \<and> disk s' = disk s \<and> dwrites s' = dwrites s"

lemma bread_hit:
  assumes ci: "cinv s bs" and i: "i < NBUF" "holds_block s bno i" "\<not> lkd (bufs s i)" "refcnt (bufs s i) + 1 \<noteq> 0"
  shows "\<exists>s'. bread ROOTDEV bno s = Ok (i, s') \<and> cinv s' bs \<and> got s bno i s'"
proof -
  have bs: "set bs = {..<NBUF}" "lru_list s bs" using ci by (simp_all add: cinv_def lru_list_def)
  have uq: "\<And>j. j < NBUF \<Longrightarrow> holds_block s bno j \<Longrightarrow> j = i" using ci i unfolding cinv_def by blast
  have "find (\<lambda>b. bdev (bufs s b) = ROOTDEV \<and> blockno (bufs s b) = bno) bs = Some i"
  proof (cases "find (\<lambda>b. bdev (bufs s b) = ROOTDEV \<and> blockno (bufs s b) = bno) bs")
    case None
    then show ?thesis using bs i by (auto simp: find_None_iff holds_block_def)
  next
    case (Some j)
    then have "j \<in> set bs" "holds_block s bno j" by (auto simp: find_Some_iff holds_block_def)
    then show ?thesis using uq [of j] bs(1) Some by auto
  qed
  then have g: "bget ROOTDEV bno s = Ok (i, upd_buf i (\<lambda>x. x\<lparr>lkd := True\<rparr>) (upd_buf i (\<lambda>x. x\<lparr>refcnt := refcnt x + 1\<rparr>) s))"
    using i(3) by (simp add: bget_abs [OF bs(2)] acquiresleep_buf_def upd_buf_def)
  define s' where "s' = upd_buf i (\<lambda>x. x\<lparr>lkd := True, refcnt := refcnt x + 1, valid := True,
    bdata := if valid x then bdata x else disk s (blockno x)\<rparr>) s"
  have r: "bread ROOTDEV bno s = Ok (i, s')"
    unfolding bread_def g by (cases "bufs s i") (auto simp: s'_def upd_buf_def virtio_disk_rw_def)
  have vi: "view s bno = (if valid (bufs s i) then bdata (bufs s i) else disk s bno)"
    using view_cached [OF ci i(1,2)] view_uncached [of s bno] uq by auto
  have h: "holds_block s' n j = holds_block s n j" for n j by (simp add: holds_block_def s'_def upd_buf_def)
  have ll: "lru_list s' bs" using bs(2) by (simp add: s'_def upd_buf_links)
  have ci': "cinv s' bs"
    using ci i(2,4) ll unfolding cinv_def h
    by (auto simp: s'_def upd_buf_def holds_block_def)
  have "view s' n = view s n" for n
  proof (cases "n = bno")
    case True
    then show ?thesis using view_cached [OF ci' i(1), of bno] vi i(2) h by (auto simp: s'_def upd_buf_def holds_block_def)
  next
    case False
    then have "holds_block s n j \<longrightarrow> j \<noteq> i" for j using i(2) by (auto simp: holds_block_def)
    then show ?thesis by (intro view_cong) (auto simp: h, auto simp: s'_def upd_buf_def)
  qed
  then have "got s bno i s'"
    using i vi h by (auto simp: got_def s'_def upd_buf_def holds_block_def)
  then show ?thesis using r ci' by blast
qed

lemma bread_miss:
  assumes ci: "cinv s bs" and no: "\<forall>i < NBUF. \<not> holds_block s bno i" and fr: "\<exists>i < NBUF. refcnt (bufs s i) = 0"
  shows "\<exists>b s'. bread ROOTDEV bno s = Ok (b, s') \<and> cinv s' bs \<and> got s bno b s'"
proof -
  have bs: "set bs = {..<NBUF}" "lru_list s bs" using ci by (simp_all add: cinv_def lru_list_def)
  have n: "find (\<lambda>b. bdev (bufs s b) = ROOTDEV \<and> blockno (bufs s b) = bno) bs = None"
    using no bs(1) by (auto simp: find_None_iff holds_block_def)
  obtain b where f: "find (\<lambda>b. refcnt (bufs s b) = 0) (rev bs) = Some b"
    using fr bs(1) by (cases "find (\<lambda>b. refcnt (bufs s b) = 0) (rev bs)") (auto simp: find_None_iff)
  then have "b \<in> set (rev bs)" "refcnt (bufs s b) = 0" unfolding find_Some_iff by (metis nth_mem)+
  then have b: "b < NBUF" "refcnt (bufs s b) = 0" using bs(1) by auto
  then have lk: "\<not> lkd (bufs s b)" using ci by (auto simp: cinv_def)
  define s' where "s' = upd_buf b (\<lambda>x. x\<lparr>lkd := True, bdev := ROOTDEV, blockno := bno, valid := True, refcnt := 1, bdata := disk s bno\<rparr>) s"
  have r: "bread ROOTDEV bno s = Ok (b, s')"
    using lk unfolding bread_def bget_abs [OF bs(2)] n f
    by (cases "bufs s b") (auto simp: s'_def upd_buf_def virtio_disk_rw_def acquiresleep_buf_def)
  have h: "holds_block s' m j = (if j = b then m = bno else holds_block s m j)" for m j
    by (auto simp: holds_block_def s'_def upd_buf_def)
  have ll: "lru_list s' bs" using bs(2) by (simp add: s'_def upd_buf_links)
  have uq: "\<forall>i < NBUF. \<forall>j < NBUF. \<forall>m. holds_block s' m i \<and> holds_block s' m j \<longrightarrow> i = j"
  proof (intro allI impI)
    fix i j m assume a: "i < NBUF" "j < NBUF" "holds_block s' m i \<and> holds_block s' m j"
    show "i = j"
    proof (cases "i = b \<or> j = b")
      case True
      then show ?thesis using a no unfolding h by (auto split: if_splits)
    next
      case False
      then have "holds_block s m i" "holds_block s m j" using a(3) by (simp_all add: h)
      then show ?thesis using cinv_unique [OF ci a(1,2)] by blast
    qed
  qed
  have ci': "cinv s' bs"
    using ci ll uq unfolding cinv_def by (auto simp: s'_def upd_buf_def)
  have vw: "view s' m = view s m" for m
  proof (cases "m = bno")
    case True
    then show ?thesis
      using view_cached [OF ci' b(1), of bno] view_uncached [of s bno] no h by (auto simp: s'_def upd_buf_def)
  next
    case ne: False
    show ?thesis
    proof (cases "holds_block s m b \<and> valid (bufs s b)")
      case True
      then have "view s m = disk s m"
        using view_cached [OF ci b(1), of m] cinv_fields(3) [OF ci b(1)] b(2) by (auto simp: holds_block_def)
      moreover have "view s' m = disk s' m"
      proof (rule view_uncached)
        fix i assume "i < NBUF" "holds_block s' m i"
        then have "i \<noteq> b" "holds_block s m i" using ne by (auto simp: h split: if_splits)
        then have False using cinv_unique [OF ci \<open>i < NBUF\<close> b(1), of m] True by blast
        then show "\<not> valid (bufs s' i)" ..
      qed
      ultimately show ?thesis by (simp add: s'_def upd_buf_def)
    next
      case False
      then show ?thesis using ne by (intro view_cong) (auto simp: h, auto simp: s'_def upd_buf_def)
    qed
  qed
  have "view s bno = disk s bno" using no by (intro view_uncached) auto
  then have "got s bno b s'" using b lk no h vw by (auto simp: got_def s'_def upd_buf_def)
  then show ?thesis using r ci' by blast
qed

lemma bread_spec:
  assumes "cinv s bs" "bread_ready s bno"
  shows "\<exists>b s'. bread ROOTDEV bno s = Ok (b, s') \<and> cinv s' bs \<and> got s bno b s'"
  using assms(2) bread_hit [OF assms(1)] bread_miss [OF assms(1)] unfolding bread_ready_def by blast

text \<open>Modifying the data of a locked buffer.\<close>

definition set_data :: "nat \<Rightarrow> block \<Rightarrow> bst \<Rightarrow> bst" where
  "set_data b d = upd_buf b (\<lambda>x. x\<lparr>bdata := d\<rparr>)"

lemma set_data_spec:
  assumes ci: "cinv s bs" and b: "b < NBUF" "holds_block s bno b" "valid (bufs s b)" "refcnt (bufs s b) \<noteq> 0"
  shows "cinv (set_data b d s) bs" "view (set_data b d s) = (view s)(bno := d)"
proof -
  have h: "holds_block (set_data b d s) m j = holds_block s m j" for m j by (simp add: holds_block_def set_data_def upd_buf_def)
  have ll: "lru_list (set_data b d s) bs" using ci by (simp add: set_data_def upd_buf_links cinv_def)
  show ci': "cinv (set_data b d s) bs"
    using ci b(4) ll unfolding cinv_def h by (auto simp: set_data_def upd_buf_def)
  have "view (set_data b d s) m = ((view s)(bno := d)) m" for m
  proof (cases "m = bno")
    case True
    then show ?thesis using view_cached [OF ci' b(1), of bno] b(2,3) h by (auto simp: set_data_def upd_buf_def)
  next
    case False
    then have "holds_block s m j \<longrightarrow> j \<noteq> b" for j using b(2) by (auto simp: holds_block_def)
    then have "view (set_data b d s) m = view s m" by (intro view_cong) (auto simp: h, auto simp: set_data_def upd_buf_def)
    then show ?thesis using False by simp
  qed
  then show "view (set_data b d s) = (view s)(bno := d)" by blast
qed

lemma bwrite_spec:
  assumes ci: "cinv s bs" and b: "b < NBUF" "holds_block s bno b" "valid (bufs s b)" "lkd (bufs s b)"
  shows "\<exists>s'. bwrite b s = Ok s' \<and> cinv s' bs \<and> bufs s' = bufs s \<and> view s' = view s \<and>
    disk s' = (disk s)(bno := bdata (bufs s b)) \<and> dwrites s' = dwrites s @ [(bno, bdata (bufs s b))]"
proof -
  define s' where "s' = virtio_disk_rw b True s"
  have bno: "blockno (bufs s b) = bno" using b(2) by (simp add: holds_block_def)
  have f: "bufs s' = bufs s" "disk s' = (disk s)(bno := bdata (bufs s b))" "dwrites s' = dwrites s @ [(bno, bdata (bufs s b))]"
    by (simp_all add: s'_def virtio_disk_rw_def bno)
  have h: "holds_block s' m j = holds_block s m j" for m j by (simp add: holds_block_def f)
  have rc: "refcnt (bufs s b) \<noteq> 0" using ci b by (simp add: cinv_def)
  have other: "blockno (bufs s i) \<noteq> bno" if "i < NBUF" "valid (bufs s i)" "i \<noteq> b" for i
    using cinv_unique [OF ci that(1) b(1), of bno] cinv_fields(1) [OF ci that(1)] b(2) that(2,3) by (auto simp: holds_block_def)
  have ll: "lru_list s' bs" using ci lru_list_cong [of s' s] by (simp add: f cinv_def)
  have cl: "\<forall>i < NBUF. valid (bufs s i) \<and> refcnt (bufs s i) = 0 \<longrightarrow> bdata (bufs s i) = disk s' (blockno (bufs s i))"
    using ci other rc unfolding cinv_def f by (metis fun_upd_apply)
  have ci': "cinv s' bs" using ci ll cl unfolding cinv_def h f(1) by blast
  have "view s' m = view s m" for m
  proof (cases "m = bno")
    case True
    then show ?thesis using view_cached [OF ci' b(1), of bno] view_cached [OF ci b(1,2,3)] b(2,3) h f by simp
  next
    case False
    then show ?thesis by (intro view_cong) (auto simp: h f)
  qed
  then show ?thesis using b(4) ci' f by (auto simp: bwrite_def s'_def)
qed

text \<open>Changing the reference count and the lock of one buffer.\<close>

lemma count_spec:
  assumes ci: "cinv s bs" and b: "b < NBUF"
    and lk: "l \<longrightarrow> n \<noteq> 0" and clean: "n = 0 \<longrightarrow> valid (bufs s b) \<longrightarrow> bdata (bufs s b) = disk s (blockno (bufs s b))"
  defines "s' \<equiv> upd_buf b (\<lambda>x. x\<lparr>lkd := l, refcnt := n\<rparr>) s"
  shows "cinv s' bs" "view s' = view s"
proof -
  have h: "holds_block s' m j = holds_block s m j" for m j by (simp add: holds_block_def s'_def upd_buf_def)
  have ll: "lru_list s' bs" using ci by (simp add: s'_def upd_buf_links cinv_def)
  have f: "valid (bufs s' j) = valid (bufs s j)" "bdev (bufs s' j) = bdev (bufs s j)" "blockno (bufs s' j) = blockno (bufs s j)"
    "bdata (bufs s' j) = bdata (bufs s j)" "disk s' = disk s"
    "lkd (bufs s' j) = (if j = b then l else lkd (bufs s j))" "refcnt (bufs s' j) = (if j = b then n else refcnt (bufs s j))" for j
    by (simp_all add: s'_def upd_buf_def)
  have "\<forall>i < NBUF. valid (bufs s i) \<and> refcnt (bufs s' i) = 0 \<longrightarrow> bdata (bufs s i) = disk s (blockno (bufs s i))"
    "\<forall>i < NBUF. lkd (bufs s' i) \<longrightarrow> refcnt (bufs s' i) \<noteq> 0"
    using cinv_fields(2,3) [OF ci] lk clean by (auto simp: f)
  then show "cinv s' bs" using ci ll unfolding cinv_def h f(1-5) by blast
  show "view s' = view s" by (rule ext, rule view_cong) (simp_all add: h f)
qed

lemma brelse_spec:
  assumes ci: "cinv s bs" and b: "b < NBUF" "lkd (bufs s b)"
    and clean: "refcnt (bufs s b) = 1 \<Longrightarrow> valid (bufs s b) \<Longrightarrow> bdata (bufs s b) = disk s (blockno (bufs s b))"
  shows "\<exists>s' bs'. brelse b s = Ok s' \<and> cinv s' bs' \<and> view s' = view s \<and> disk s' = disk s \<and> dwrites s' = dwrites s \<and>
    body (bufs s' b) = body ((bufs s b)\<lparr>lkd := False, refcnt := refcnt (bufs s b) - 1\<rparr>) \<and>
    (\<forall>j. j \<noteq> b \<longrightarrow> body (bufs s' j) = body (bufs s j)) \<and>
    bs' = (if refcnt (bufs s b) = 1 then b # remove1 b bs else bs)"
proof -
  define s1 where "s1 = upd_buf b (\<lambda>x. x\<lparr>lkd := False, refcnt := refcnt (bufs s b) - 1\<rparr>) s"
  have s1: "cinv s1 bs" "view s1 = view s"
    unfolding s1_def using count_spec [OF ci b(1), of False "refcnt (bufs s b) - 1"] clean by auto
  have f: "disk s1 = disk s" "dwrites s1 = dwrites s" "refcnt (bufs s1 b) = refcnt (bufs s b) - 1"
    "body (bufs s1 b) = body ((bufs s b)\<lparr>lkd := False, refcnt := refcnt (bufs s b) - 1\<rparr>)" "\<And>j. j \<noteq> b \<Longrightarrow> bufs s1 j = bufs s j"
    by (simp_all add: s1_def upd_buf_def body_def)
  have e: "upd_buf b (\<lambda>x. x\<lparr>refcnt := refcnt x - 1\<rparr>) (upd_buf b (\<lambda>x. x\<lparr>lkd := False\<rparr>) s) = s1"
    by (cases "bufs s b") (simp add: s1_def upd_buf_def)
  have r: "brelse b s = Ok (if refcnt (bufs s b) = 1 then push_front b (unlink b s1) else s1)"
    unfolding brelse_def Let_def e using b(2) f(3) by simp
  show ?thesis
  proof (cases "refcnt (bufs s b) = 1")
    case True
    let ?s = "push_front b (unlink b s1)"
    have "lru_list s1 bs" using s1(1) by (simp add: cinv_def)
    from lru_list_touch [OF this b(1)] same_body [of ?s s1] s1
    have "cinv ?s (b # remove1 b bs)" "view ?s = view s" by simp_all
    then show ?thesis using True r f by auto
  next
    case False
    then show ?thesis using r f s1 by auto
  qed
qed

lemma bpin_spec:
  assumes ci: "cinv s bs" and b: "b < NBUF" "refcnt (bufs s b) + 1 \<noteq> 0"
  shows "cinv (bpin b s) bs" "view (bpin b s) = view s"
proof -
  have "bpin b s = upd_buf b (\<lambda>x. x\<lparr>lkd := lkd (bufs s b), refcnt := refcnt (bufs s b) + 1\<rparr>) s"
    by (cases "bufs s b") (simp add: bpin_def upd_buf_def)
  then show "cinv (bpin b s) bs" "view (bpin b s) = view s"
    using count_spec [OF ci b(1), of "lkd (bufs s b)" "refcnt (bufs s b) + 1"] b(2) by simp_all
qed

lemma bunpin_spec:
  assumes ci: "cinv s bs" and b: "b < NBUF" "refcnt (bufs s b) - 1 \<noteq> 0"
  shows "cinv (bunpin b s) bs" "view (bunpin b s) = view s"
proof -
  have "bunpin b s = upd_buf b (\<lambda>x. x\<lparr>lkd := lkd (bufs s b), refcnt := refcnt (bufs s b) - 1\<rparr>) s"
    by (cases "bufs s b") (simp add: bunpin_def upd_buf_def)
  then show "cinv (bunpin b s) bs" "view (bunpin b s) = view s"
    using count_spec [OF ci b(1), of "lkd (bufs s b)" "refcnt (bufs s b) - 1"] b(2) by simp_all
qed

section \<open>Properties\<close>

text \<open>A machine as it boots: static storage is zero, the list is not yet linked.\<close>

definition zero_bst :: "(u32 \<Rightarrow> block) \<Rightarrow> bst" where
  "zero_bst d = \<lparr>bufs = (\<lambda>_. \<lparr>valid = False, bdev = 0, blockno = 0, lkd = False, refcnt = 0, bprev = 0, bnext = 0, bdata = (\<lambda>_. 0)\<rparr>),
     disk = d, dwrites = []\<rparr>"

lemma binit_body: "body (bufs (binit s) i) = (if i < NBUF then body ((bufs s i)\<lparr>lkd := False\<rparr>) else body (bufs s i)) \<and>
  disk (binit s) = disk s \<and> dwrites (binit s) = dwrites s"
proof -
  define step where "step = (\<lambda>b s. upd_buf b (\<lambda>x. x\<lparr>lkd := False\<rparr>) (push_front b s))"
  have u: "body (bufs (upd_buf b (\<lambda>x. x\<lparr>lkd := False\<rparr>) s) i) = (if i = b then body ((bufs s i)\<lparr>lkd := False\<rparr>) else body (bufs s i))"
    "disk (upd_buf b (\<lambda>x. x\<lparr>lkd := False\<rparr>) s) = disk s" "dwrites (upd_buf b (\<lambda>x. x\<lparr>lkd := False\<rparr>) s) = dwrites s" for b i s
    by (simp_all add: upd_buf_def)
  have b: "body x = body y \<Longrightarrow> body (x\<lparr>lkd := False\<rparr>) = body (y\<lparr>lkd := False\<rparr>)" for x y by (simp add: body_def)
  have "body (bufs (fold step [0..<n] s) i) = (if i < n then body ((bufs s i)\<lparr>lkd := False\<rparr>) else body (bufs s i)) \<and>
      disk (fold step [0..<n] s) = disk s \<and> dwrites (fold step [0..<n] s) = dwrites s" for n s i
  proof (induction n)
    case (Suc n)
    then show ?case by (auto simp: step_def u less_Suc_eq intro: b)
  qed simp
  from this [of NBUF "set_next HEAD HEAD (set_prev HEAD HEAD s)" i] show ?thesis
    by (auto simp: binit_def Let_def step_def intro: b)
qed

lemma binit_cinv: "cinv (binit (zero_bst d)) (rev [0..<NBUF])"
proof -
  have f: "valid (bufs (binit (zero_bst d)) i) = False" "bdev (bufs (binit (zero_bst d)) i) = 0" "lkd (bufs (binit (zero_bst d)) i) = False"
    "refcnt (bufs (binit (zero_bst d)) i) = 0" for i
    using binit_body [of "zero_bst d" i] by (simp_all add: body_def zero_bst_def split: if_splits)
  then show ?thesis using binit_lru by (simp add: cinv_def holds_block_def f ROOTDEV_def)
qed

lemma binit_view: "view (binit (zero_bst d)) = d" "bread_ready (binit (zero_bst d)) bno"
proof -
  have f: "valid (bufs (binit (zero_bst d)) i) = False" "bdev (bufs (binit (zero_bst d)) i) = 0" "refcnt (bufs (binit (zero_bst d)) i) = 0"
    "disk (binit (zero_bst d)) = d" for i
    using binit_body [of "zero_bst d" i] by (simp_all add: body_def zero_bst_def split: if_splits)
  show "view (binit (zero_bst d)) = d" by (rule ext, subst view_uncached) (simp_all add: f)
  show "bread_ready (binit (zero_bst d)) bno"
    by (auto simp: bread_ready_def holds_block_def f ROOTDEV_def NBUF_def MAXOPBLOCKS_def intro: exI [of _ 0])
qed

text \<open>
  C29: \<open>bget\<close>, which follows the \<open>next\<close> and \<open>prev\<close> pointers of the buffer list, is the search of the
  list of buffers in order of last use: the buffer that already holds the block, or else the least
  recently used buffer that is free, or else the panic; it always ends.
\<close>
theorem bget_refines_lru:
  assumes "lru_list s bs"
  shows "bget dev bno s =
    (case find (\<lambda>b. bdev (bufs s b) = dev \<and> blockno (bufs s b) = bno) bs of
       Some b \<Rightarrow> kbind (acquiresleep_buf b (upd_buf b (\<lambda>x. x\<lparr>refcnt := refcnt x + 1\<rparr>) s)) (\<lambda>s. Ok (b, s))
     | None \<Rightarrow> (case find (\<lambda>b. refcnt (bufs s b) = 0) (rev bs) of
         Some b \<Rightarrow> kbind (acquiresleep_buf b (upd_buf b (\<lambda>x. x\<lparr>bdev := dev, blockno := bno, valid := False, refcnt := 1\<rparr>) s))
                    (\<lambda>s. Ok (b, s))
       | None \<Rightarrow> Panic ''bget: no buffers''))"
  using assms by (rule bget_abs)

theorem bget_refines_lru_witness:
  "\<exists>b s'. bget 1 7 (binit (zero_bst (\<lambda>_ _. 0))) = Ok (b, s')"
proof -
  let ?s = "binit (zero_bst (\<lambda>_ _. 0))"
  have f: "bdev (bufs ?s i) = 0" "lkd (bufs ?s i) = False" "refcnt (bufs ?s i) = 0" for i
    using binit_body [of "zero_bst (\<lambda>_ _. 0)" i] by (simp_all add: body_def zero_bst_def split: if_splits)
  have "find (\<lambda>b. bdev (bufs ?s b) = 1 \<and> blockno (bufs ?s b) = 7) (rev [0..<NBUF]) = None" by (simp add: find_None_iff f)
  moreover have "find (\<lambda>b. refcnt (bufs ?s b) = 0) (rev (rev [0..<NBUF])) = Some 0"
    by (simp add: f NBUF_def MAXOPBLOCKS_def upt_rec)
  ultimately show ?thesis
    using bget_refines_lru [OF binit_lru, of 1 7 "zero_bst (\<lambda>_ _. 0)"] f by (simp add: acquiresleep_buf_def upd_buf_def)
qed

text \<open>
  C12: reading a block through the cache, changing it and releasing it. \<open>bread\<close> returns a locked buffer
  with the current contents of the block, from the cache or from the disk, and changes no other
  buffer and the contents of no block; when the data are written with \<open>bwrite\<close> before \<open>brelse\<close>, the
  block has the new contents, in the cache and on the disk, every other block is unchanged, and the
  cache invariant (one buffer per block, unused buffers clean, intact list) holds again.
\<close>
theorem bread_modify_release:
  assumes ci: "cinv s bs" and rdy: "bread_ready s bno"
  shows "\<exists>b s1 s2 s3 bs'. bread ROOTDEV bno s = Ok (b, s1) \<and> bdata (bufs s1 b) = view s bno \<and>
    bwrite b (set_data b d s1) = Ok s2 \<and> brelse b s2 = Ok s3 \<and> cinv s3 bs' \<and>
    view s3 = (view s)(bno := d) \<and> disk s3 = (disk s)(bno := d) \<and> dwrites s3 = dwrites s @ [(bno, d)] \<and>
    (\<forall>j. j \<noteq> b \<longrightarrow> body (bufs s3 j) = body (bufs s j))"
proof -
  obtain b s1 where s1: "bread ROOTDEV bno s = Ok (b, s1)" "cinv s1 bs" "got s bno b s1"
    using bread_spec [OF ci rdy] by blast
  have g: "b < NBUF" "holds_block s1 bno b" "valid (bufs s1 b)" "lkd (bufs s1 b)" "bdata (bufs s1 b) = view s bno"
    "\<And>j. j \<noteq> b \<Longrightarrow> bufs s1 j = bufs s j" "view s1 = view s" "disk s1 = disk s" "dwrites s1 = dwrites s"
    using s1(3) by (simp_all add: got_def)
  have rc: "refcnt (bufs s1 b) \<noteq> 0" using cinv_fields(2) [OF s1(2) g(1)] g(4) by blast
  let ?sd = "set_data b d s1"
  note sd = set_data_spec [OF s1(2) g(1-3) rc, of d]
  have fd: "holds_block ?sd bno b" "valid (bufs ?sd b)" "lkd (bufs ?sd b)" "bdata (bufs ?sd b) = d" "\<And>j. j \<noteq> b \<Longrightarrow> bufs ?sd j = bufs s j"
    "disk ?sd = disk s" "dwrites ?sd = dwrites s"
    using g by (simp_all add: set_data_def upd_buf_def holds_block_def)
  obtain s2 where s2: "bwrite b ?sd = Ok s2" "cinv s2 bs" "bufs s2 = bufs ?sd" "view s2 = view ?sd"
    "disk s2 = (disk s)(bno := d)" "dwrites s2 = dwrites s @ [(bno, d)]"
    using bwrite_spec [OF sd(1) g(1) fd(1-3)] fd by auto
  have "lkd (bufs s2 b)" "bdata (bufs s2 b) = disk s2 (blockno (bufs s2 b))"
    using s2(3,5) fd(1,3,4) by (simp_all add: holds_block_def)
  then obtain s3 bs' where "brelse b s2 = Ok s3" "cinv s3 bs'" "view s3 = view s2" "disk s3 = disk s2" "dwrites s3 = dwrites s2"
    "\<forall>j. j \<noteq> b \<longrightarrow> body (bufs s3 j) = body (bufs s2 j)"
    using brelse_spec [OF s2(2) g(1)] by blast
  then show ?thesis using s1(1) g(5,7) s2 sd(2) fd(5) by metis
qed

theorem bread_modify_release_witness:
  "\<exists>b s1 s2 s3. bread ROOTDEV 7 (binit (zero_bst (\<lambda>_ _. 3))) = Ok (b, s1) \<and> bwrite b (set_data b (\<lambda>_. 5) s1) = Ok s2 \<and>
     brelse b s2 = Ok s3 \<and> view s3 7 = (\<lambda>_. 5) \<and> view s3 8 = (\<lambda>_. 3)"
proof -
  obtain b s1 s2 s3 where "bread ROOTDEV 7 (binit (zero_bst (\<lambda>_ _. 3))) = Ok (b, s1)" "bwrite b (set_data b (\<lambda>_. 5) s1) = Ok s2"
    "brelse b s2 = Ok s3" "view s3 = (view (binit (zero_bst (\<lambda>_ _. 3))))(7 := (\<lambda>_. 5))"
    using bread_modify_release [OF binit_cinv binit_view(2), of 7 "\<lambda>_ _. 3" "\<lambda>_. 5"] by blast
  then show ?thesis unfolding binit_view(1) by auto
qed

section \<open>The contract of the cache\<close>

text \<open>
  For its clients the cache is: the contents \<open>V\<close> of the blocks as they see them, the contents \<open>D\<close> of
  the disk, the set \<open>P\<close> of blocks that are pinned and the set \<open>H\<close> of blocks that are locked by the
  client. A block that is neither pinned nor locked has the same contents in both.
\<close>

definition buffer :: "bst \<Rightarrow> nat \<Rightarrow> u32 \<Rightarrow> bool" where
  "buffer s b bno \<longleftrightarrow> b < NBUF \<and> holds_block s bno b \<and> valid (bufs s b)"

definition cache :: "bst \<Rightarrow> (u32 \<Rightarrow> block) \<Rightarrow> (u32 \<Rightarrow> block) \<Rightarrow> u32 set \<Rightarrow> u32 set \<Rightarrow> bool" where
  "cache s V D P H \<longleftrightarrow> (\<exists>bs. cinv s bs) \<and> V = view s \<and> D = disk s \<and> finite P \<and> finite H \<and>
     (\<forall>bno \<in> P \<union> H. \<exists>b. buffer s b bno) \<and>
     (\<forall>b < NBUF. lkd (bufs s b) = (\<exists>bno \<in> H. holds_block s bno b) \<and>
        refcnt (bufs s b) = (if \<exists>bno \<in> P. holds_block s bno b then 1 else 0) + (if \<exists>bno \<in> H. holds_block s bno b then 1 else 0))"

lemma holds_block_fun: "holds_block s m b \<Longrightarrow> holds_block s n b \<longleftrightarrow> n = m"
  by (auto simp: holds_block_def)

lemma holds_ex: "holds_block s m b \<Longrightarrow> (\<exists>n \<in> X. holds_block s n b) \<longleftrightarrow> m \<in> X"
  by (auto simp: holds_block_def)

lemma cache_view_disk:
  assumes "cache s V D P H" "bno \<notin> P \<union> H"
  shows "V bno = D bno"
proof -
  obtain bs where ci: "cinv s bs" and V: "V = view s" "D = disk s" using assms(1) by (auto simp: cache_def)
  show ?thesis
  proof (cases "\<exists>b. buffer s b bno")
    case True
    then obtain b where b: "b < NBUF" "holds_block s bno b" "valid (bufs s b)" by (auto simp: buffer_def)
    have "refcnt (bufs s b) = 0" using assms b(1) holds_ex [OF b(2)] by (simp add: cache_def)
    then show ?thesis using view_cached [OF ci b] cinv_fields(3) [OF ci b(1,3)] b(2) V by (simp add: holds_block_def)
  next
    case False
    then show ?thesis unfolding V by (intro view_uncached) (auto simp: buffer_def)
  qed
qed

lemma cache_buffer: "cache s V D P H \<Longrightarrow> bno \<in> P \<union> H \<Longrightarrow> \<exists>b. buffer s b bno"
  unfolding cache_def by blast

lemma cache_free_buffer:
  assumes c: "cache s V D P H" and card: "card (P \<union> H) < NBUF"
  shows "\<exists>b < NBUF. refcnt (bufs s b) = 0"
proof (rule ccontr)
  assume no: "\<not> ?thesis"
  obtain bs where ci: "cinv s bs" using c by (auto simp: cache_def)
  have "\<exists>bno \<in> P \<union> H. holds_block s bno b" if "b < NBUF" for b
    using c no that unfolding cache_def by fastforce
  then obtain f where f: "\<And>b. b < NBUF \<Longrightarrow> f b \<in> P \<union> H \<and> holds_block s (f b) b" by metis
  have "inj_on f {..<NBUF}" using f cinv_unique [OF ci] by (metis inj_onI lessThan_iff)
  moreover have "f ` {..<NBUF} \<subseteq> P \<union> H" using f by auto
  moreover have "finite (P \<union> H)" using c by (simp add: cache_def)
  ultimately have "card {..<NBUF} \<le> card (P \<union> H)" by (metis card_inj_on_le)
  then show False using card by simp
qed

lemma cache_bread:
  assumes c: "cache s V D P H" and H: "bno \<notin> H" and room: "bno \<in> P \<or> card (P \<union> H) < NBUF"
  shows "\<exists>b s'. bread ROOTDEV bno s = Ok (b, s') \<and> cache s' V D P (insert bno H) \<and> buffer s' b bno \<and>
    bdata (bufs s' b) = V bno \<and> dwrites s' = dwrites s \<and>
    (\<forall>c n. buffer s c n \<and> n \<in> P \<union> H \<longrightarrow> buffer s' c n \<and> bdata (bufs s' c) = bdata (bufs s c))"
proof -
  obtain bs where ci: "cinv s bs" and V: "V = view s" "D = disk s" using c by (auto simp: cache_def)
  have cnt: "\<And>b. b < NBUF \<Longrightarrow> lkd (bufs s b) = (\<exists>n \<in> H. holds_block s n b) \<and>
        refcnt (bufs s b) = (if \<exists>n \<in> P. holds_block s n b then 1 else 0) + (if \<exists>n \<in> H. holds_block s n b then 1 else 0)"
    using c unfolding cache_def by blast
  have "bread_ready s bno"
  proof (cases "\<exists>i < NBUF. holds_block s bno i")
    case True
    then obtain i where i: "i < NBUF" "holds_block s bno i" by blast
    then show ?thesis using cnt [OF i(1)] holds_ex [OF i(2)] H unfolding bread_ready_def by (intro disjI1 exI [of _ i]) auto
  next
    case False
    then have "bno \<notin> P" using cache_buffer [OF c, of bno] by (auto simp: buffer_def)
    then show ?thesis using False cache_free_buffer [OF c] room unfolding bread_ready_def by blast
  qed
  from bread_spec [OF ci this] obtain b s' where r: "bread ROOTDEV bno s = Ok (b, s')" "cinv s' bs" "got s bno b s'" by blast
  then have g: "b < NBUF" "holds_block s' bno b" "valid (bufs s' b)" "lkd (bufs s' b)" "\<not> lkd (bufs s b)" "bdata (bufs s' b) = view s bno"
    "refcnt (bufs s' b) = (if holds_block s bno b then refcnt (bufs s b) + 1 else 1)"
    "\<not> holds_block s bno b \<longrightarrow> refcnt (bufs s b) = 0" "\<And>j. j \<noteq> b \<Longrightarrow> bufs s' j = bufs s j" "view s' = view s" "disk s' = disk s" "dwrites s' = dwrites s"
    by (simp_all add: got_def)
  have same: "holds_block s' n j = holds_block s n j" if "j \<noteq> b" for n j using g(9) [OF that] by (simp add: holds_block_def)
  have keep: "buffer s' x n \<and> bdata (bufs s' x) = bdata (bufs s x)" if "buffer s x n" "n \<in> P \<union> H" for x n
  proof (cases "x = b")
    case False
    then show ?thesis using that(1) same g(9) by (auto simp: buffer_def)
  next
    case True
    have h: "holds_block s n b" "valid (bufs s b)" using that True by (simp_all add: buffer_def)
    have "refcnt (bufs s b) \<noteq> 0" using cnt [OF g(1)] holds_ex [OF h(1)] that(2) by auto
    then have "n = bno" using g(8) h(1) by (auto simp: holds_block_def)
    then show ?thesis using True g(1,2,3,6) view_cached [OF ci g(1), of bno] h by (auto simp: buffer_def)
  qed
  have b: "buffer s' b bno" using g(1-3) by (simp add: buffer_def)
  have cnt': "lkd (bufs s' j) = (\<exists>n \<in> insert bno H. holds_block s' n j) \<and>
      refcnt (bufs s' j) = (if \<exists>n \<in> P. holds_block s' n j then 1 else 0) + (if \<exists>n \<in> insert bno H. holds_block s' n j then 1 else 0)"
    if j: "j < NBUF" for j
  proof (cases "j = b")
    case True
    have "refcnt (bufs s b) = (if bno \<in> P then 1 else 0)" if "holds_block s bno b"
      using cnt [OF g(1)] holds_ex [OF that] H by simp
    moreover have "bno \<notin> P" if "\<not> holds_block s bno b"
    proof
      assume "bno \<in> P"
      then obtain x where "buffer s x bno" using cache_buffer [OF c] by blast
      then have "buffer s' x bno" "x \<noteq> b" using keep \<open>bno \<in> P\<close> that by (auto simp: buffer_def)
      then show False using cinv_unique [OF r(2) _ g(1) _ g(2)] by (auto simp: buffer_def)
    qed
    ultimately show ?thesis using True g(4,7) holds_ex [OF g(2)] by auto
  next
    case False
    have "\<not> holds_block s bno j" using cinv_unique [OF r(2) j g(1) _ g(2)] same [OF False] False by blast
    then have "(\<exists>n \<in> insert bno H. holds_block s n j) = (\<exists>n \<in> H. holds_block s n j)" by auto
    then show ?thesis using cnt [OF j] g(9) [OF False] unfolding same [OF False] by simp
  qed
  have bu: "\<forall>n \<in> P \<union> insert bno H. \<exists>x. buffer s' x n" using cache_buffer [OF c] keep b by blast
  have fin: "finite P" "finite H" using c by (simp_all add: cache_def)
  have "cache s' V D P (insert bno H)"
    unfolding cache_def using r(2) V g(10,11) fin bu cnt' by (intro conjI) (blast, simp_all)
  then show ?thesis using r(1) b g(6,12) V keep by blast
qed

lemma cache_dest:
  assumes "cache s V D P H"
  shows "\<exists>bs. cinv s bs" "V = view s" "D = disk s" "finite P" "finite H" "\<And>n. n \<in> P \<union> H \<Longrightarrow> \<exists>b. buffer s b n"
    "\<And>b. b < NBUF \<Longrightarrow> lkd (bufs s b) = (\<exists>n \<in> H. holds_block s n b)"
    "\<And>b. b < NBUF \<Longrightarrow> refcnt (bufs s b) = (if \<exists>n \<in> P. holds_block s n b then 1 else 0) + (if \<exists>n \<in> H. holds_block s n b then 1 else 0)"
  using assms unfolding cache_def by blast+

lemma cacheI:
  assumes "cinv s bs" "V = view s" "D = disk s" "finite P" "finite H" "\<And>n. n \<in> P \<union> H \<Longrightarrow> \<exists>b. buffer s b n"
    "\<And>b. b < NBUF \<Longrightarrow> lkd (bufs s b) = (\<exists>n \<in> H. holds_block s n b)"
    "\<And>b. b < NBUF \<Longrightarrow> refcnt (bufs s b) = (if \<exists>n \<in> P. holds_block s n b then 1 else 0) + (if \<exists>n \<in> H. holds_block s n b then 1 else 0)"
  shows "cache s V D P H"
  using assms unfolding cache_def by blast

text \<open>The buffer of a locked block.\<close>

lemma cache_locked:
  assumes "cache s V D P H" "bno \<in> H" "buffer s b bno"
  shows "b < NBUF" "holds_block s bno b" "valid (bufs s b)" "lkd (bufs s b)" "bdata (bufs s b) = V bno"
    "refcnt (bufs s b) = (if bno \<in> P then 2 else 1)"
proof -
  show b: "b < NBUF" "holds_block s bno b" "valid (bufs s b)" using assms(3) by (simp_all add: buffer_def)
  note p = cache_dest [OF assms(1)]
  obtain bs where ci: "cinv s bs" using p(1) by blast
  show "lkd (bufs s b)" using p(7) [OF b(1)] holds_ex [OF b(2)] assms(2) by blast
  show "bdata (bufs s b) = V bno" using view_cached [OF ci b] p(2) by simp
  show "refcnt (bufs s b) = (if bno \<in> P then 2 else 1)" using p(8) [OF b(1)] assms(2) unfolding holds_ex [OF b(2)] by simp
qed

lemma cache_set_data:
  fixes d :: block
  assumes c: "cache s V D P H" and H: "bno \<in> H" and b: "buffer s b bno"
  defines "s' \<equiv> set_data b d s"
  shows "cache s' (V(bno := d)) D P H" "bdata (bufs s' b) = d" "dwrites s' = dwrites s"
    "\<And>x n. buffer s' x n = buffer s x n" "\<And>x. x \<noteq> b \<Longrightarrow> bdata (bufs s' x) = bdata (bufs s x)"
proof -
  note l = cache_locked [OF c H b]
  have rc: "refcnt (bufs s b) \<noteq> 0" using l(6) by simp
  have f: "holds_block s' n x = holds_block s n x" "valid (bufs s' x) = valid (bufs s x)" "lkd (bufs s' x) = lkd (bufs s x)"
    "refcnt (bufs s' x) = refcnt (bufs s x)" "disk s' = disk s" "dwrites s' = dwrites s"
    "bdata (bufs s' x) = (if x = b then d else bdata (bufs s x))" for n x
    by (simp_all add: s'_def set_data_def upd_buf_def holds_block_def)
  show "bdata (bufs s' b) = d" "dwrites s' = dwrites s" "\<And>x. x \<noteq> b \<Longrightarrow> bdata (bufs s' x) = bdata (bufs s x)" by (simp_all add: f)
  show bf: "buffer s' x n = buffer s x n" for x n by (simp add: buffer_def f)
  note p = cache_dest [OF c]
  obtain bs where ci: "cinv s bs" using p(1) by blast
  note sd = set_data_spec [OF ci l(1-3) rc, of d, folded s'_def]
  show "cache s' (V(bno := d)) D P H"
    by (rule cacheI [OF sd(1)]) (use p sd(2) in \<open>simp_all add: f bf\<close>)
qed

lemma cache_bwrite:
  assumes c: "cache s V D P H" and H: "bno \<in> H" and b: "buffer s b bno"
  shows "\<exists>s'. bwrite b s = Ok s' \<and> cache s' V (D(bno := V bno)) P H \<and> bufs s' = bufs s \<and> dwrites s' = dwrites s @ [(bno, V bno)]"
proof -
  note l = cache_locked [OF c H b]
  note p = cache_dest [OF c]
  obtain bs where ci: "cinv s bs" using p(1) by blast
  obtain s' where w: "bwrite b s = Ok s'" "cinv s' bs" "bufs s' = bufs s" "view s' = view s"
    "disk s' = (disk s)(bno := bdata (bufs s b))" "dwrites s' = dwrites s @ [(bno, bdata (bufs s b))]"
    using bwrite_spec [OF ci l(1-4)] by blast
  have f: "holds_block s' n x = holds_block s n x" "buffer s' x n = buffer s x n" for n x by (simp_all add: holds_block_def buffer_def w(3))
  have "cache s' V (D(bno := V bno)) P H"
    by (rule cacheI [OF w(2)]) (use p w l(5) in \<open>simp_all add: f\<close>)
  then show ?thesis using w l(5) by metis
qed

lemma cache_brelse:
  assumes c: "cache s V D P H" and H: "bno \<in> H" and b: "buffer s b bno" and cl: "bno \<notin> P \<Longrightarrow> V bno = D bno"
  shows "\<exists>s'. brelse b s = Ok s' \<and> cache s' V D P (H - {bno}) \<and> dwrites s' = dwrites s \<and>
    (\<forall>x n. buffer s' x n = buffer s x n) \<and> (\<forall>x. bdata (bufs s' x) = bdata (bufs s x))"
proof -
  note l = cache_locked [OF c H b]
  note p = cache_dest [OF c]
  obtain bs where ci: "cinv s bs" using p(1) by blast
  have "bdata (bufs s b) = disk s (blockno (bufs s b))" if "refcnt (bufs s b) = 1"
    using that l(2,5,6) cl p(3) by (auto simp: holds_block_def split: if_splits)
  then obtain s' bs' where r: "brelse b s = Ok s'" "cinv s' bs'" "view s' = view s" "disk s' = disk s" "dwrites s' = dwrites s"
    "body (bufs s' b) = body ((bufs s b)\<lparr>lkd := False, refcnt := refcnt (bufs s b) - 1\<rparr>)"
    "\<And>j. j \<noteq> b \<Longrightarrow> body (bufs s' j) = body (bufs s j)"
    using brelse_spec [OF ci l(1,4)] by blast
  note bb = body_fields [OF r(6)] and bj = body_fields [OF r(7)]
  have f: "holds_block s' n x = holds_block s n x" "valid (bufs s' x) = valid (bufs s x)" "bdata (bufs s' x) = bdata (bufs s x)" for n x
    using bb bj by (cases "x = b"; simp add: holds_block_def)+
  have bf: "buffer s' x n = buffer s x n" for x n by (simp add: buffer_def f)
  have ex: "(\<exists>n \<in> H - {bno}. holds_block s n x) = (x \<noteq> b \<and> (\<exists>n \<in> H. holds_block s n x))" if "x < NBUF" for x
    using cinv_unique [OF ci that l(1), of bno] l(2) holds_ex by (auto simp: holds_block_fun)
  have "cache s' V D P (H - {bno})"
  proof (rule cacheI [OF r(2)])
    show "lkd (bufs s' x) = (\<exists>n \<in> H - {bno}. holds_block s' n x)" if "x < NBUF" for x
      unfolding f ex [OF that] using bb(4) bj(4) p(7) [OF that] by (cases "x = b") auto
    show "refcnt (bufs s' x) = (if \<exists>n \<in> P. holds_block s' n x then 1 else 0) + (if \<exists>n \<in> H - {bno}. holds_block s' n x then 1 else 0)"
      if "x < NBUF" for x
    proof (cases "x = b")
      case True
      then show ?thesis unfolding f ex [OF that] True holds_ex [OF l(2)] using bb(5) l(6) by simp
    next
      case False
      then show ?thesis unfolding f ex [OF that] using bj(5) [OF False] p(8) [OF that] by simp
    qed
  qed (use p r in \<open>auto simp: bf\<close>)
  then show ?thesis using r(1,5) bf f(3) by blast
qed

lemma cache_pin:
  assumes c: "cache s V D P H" and H: "bno \<in> H" "bno \<notin> P" and b: "buffer s b bno"
  shows "cache (bpin b s) V D (insert bno P) H" "dwrites (bpin b s) = dwrites s" "\<And>x n. buffer (bpin b s) x n = buffer s x n"
    "\<And>x. bdata (bufs (bpin b s) x) = bdata (bufs s x)"
proof -
  note l = cache_locked [OF c H(1) b]
  note p = cache_dest [OF c]
  obtain bs where ci: "cinv s bs" using p(1) by blast
  have f: "holds_block (bpin b s) n x = holds_block s n x" "buffer (bpin b s) x n = buffer s x n" "lkd (bufs (bpin b s) x) = lkd (bufs s x)"
    "refcnt (bufs (bpin b s) x) = (if x = b then refcnt (bufs s x) + 1 else refcnt (bufs s x))"
    "disk (bpin b s) = disk s" "dwrites (bpin b s) = dwrites s" "bdata (bufs (bpin b s) x) = bdata (bufs s x)" for n x
    by (simp_all add: bpin_def upd_buf_def holds_block_def buffer_def)
  show "dwrites (bpin b s) = dwrites s" "\<And>x n. buffer (bpin b s) x n = buffer s x n" "\<And>x. bdata (bufs (bpin b s) x) = bdata (bufs s x)"
    by (simp_all add: f)
  have "refcnt (bufs s b) + 1 \<noteq> 0" using l(6) H(2) by simp
  note bp = bpin_spec [OF ci l(1) this]
  have ex: "(\<exists>n \<in> insert bno P. holds_block s n x) = (x = b \<or> (\<exists>n \<in> P. holds_block s n x))" if "x < NBUF" for x
    using cinv_unique [OF ci that l(1), of bno] l(2) by auto
  show "cache (bpin b s) V D (insert bno P) H"
  proof (rule cacheI [OF bp(1)])
    show "refcnt (bufs (bpin b s) x) = (if \<exists>n \<in> insert bno P. holds_block (bpin b s) n x then 1 else 0) + (if \<exists>n \<in> H. holds_block (bpin b s) n x then 1 else 0)"
      if "x < NBUF" for x
    proof (cases "x = b")
      case True
      then show ?thesis unfolding f ex [OF that] unfolding True holds_ex [OF l(2)] using H l(6) by simp
    next
      case False
      then show ?thesis unfolding f ex [OF that] using p(8) [OF that] by simp
    qed
  qed (use p bp(2) H in \<open>auto simp: f\<close>)
qed

lemma cache_unpin:
  assumes c: "cache s V D P H" and H: "bno \<in> H" "bno \<in> P" and b: "buffer s b bno"
  shows "cache (bunpin b s) V D (P - {bno}) H" "dwrites (bunpin b s) = dwrites s" "\<And>x n. buffer (bunpin b s) x n = buffer s x n"
    "\<And>x. bdata (bufs (bunpin b s) x) = bdata (bufs s x)"
proof -
  note l = cache_locked [OF c H(1) b]
  note p = cache_dest [OF c]
  obtain bs where ci: "cinv s bs" using p(1) by blast
  have f: "holds_block (bunpin b s) n x = holds_block s n x" "buffer (bunpin b s) x n = buffer s x n" "lkd (bufs (bunpin b s) x) = lkd (bufs s x)"
    "refcnt (bufs (bunpin b s) x) = (if x = b then refcnt (bufs s x) - 1 else refcnt (bufs s x))"
    "disk (bunpin b s) = disk s" "dwrites (bunpin b s) = dwrites s" "bdata (bufs (bunpin b s) x) = bdata (bufs s x)" for n x
    by (simp_all add: bunpin_def upd_buf_def holds_block_def buffer_def)
  show "dwrites (bunpin b s) = dwrites s" "\<And>x n. buffer (bunpin b s) x n = buffer s x n" "\<And>x. bdata (bufs (bunpin b s) x) = bdata (bufs s x)"
    by (simp_all add: f)
  have "refcnt (bufs s b) - 1 \<noteq> 0" using l(6) H(2) by simp
  note bp = bunpin_spec [OF ci l(1) this]
  have ex: "(\<exists>n \<in> P - {bno}. holds_block s n x) = (x \<noteq> b \<and> (\<exists>n \<in> P. holds_block s n x))" if "x < NBUF" for x
    using cinv_unique [OF ci that l(1), of bno] l(2) by (auto simp: holds_block_fun)
  show "cache (bunpin b s) V D (P - {bno}) H"
  proof (rule cacheI [OF bp(1)])
    show "refcnt (bufs (bunpin b s) x) = (if \<exists>n \<in> P - {bno}. holds_block (bunpin b s) n x then 1 else 0) + (if \<exists>n \<in> H. holds_block (bunpin b s) n x then 1 else 0)"
      if "x < NBUF" for x
    proof (cases "x = b")
      case True
      then show ?thesis unfolding f ex [OF that] unfolding True holds_ex [OF l(2)] using H l(6) by simp
    next
      case False
      then show ?thesis unfolding f ex [OF that] using p(8) [OF that] by simp
    qed
  qed (use p bp(2) H in \<open>auto simp: f\<close>)
qed

lemma cache_boot: "cache (binit (zero_bst d)) d d {} {}"
proof -
  have f: "lkd (bufs (binit (zero_bst d)) i) = False" "refcnt (bufs (binit (zero_bst d)) i) = 0" "disk (binit (zero_bst d)) = d" for i
    using binit_body [of "zero_bst d" i] by (simp_all add: body_def zero_bst_def split: if_splits)
  show ?thesis by (rule cacheI [OF binit_cinv]) (simp_all add: f binit_view)
qed

text \<open>
  The contract as an interface: what a client of the cache may rely on. \<open>has b n s\<close> says that buffer
  \<open>b\<close> holds block \<open>n\<close>, \<open>rel s V D P H\<close> relates the state to the contents, pinned and locked blocks.
\<close>

locale block_cache =
  fixes rel :: "'s \<Rightarrow> (u32 \<Rightarrow> block) \<Rightarrow> (u32 \<Rightarrow> block) \<Rightarrow> u32 set \<Rightarrow> u32 set \<Rightarrow> bool"
    and has :: "'s \<Rightarrow> nat \<Rightarrow> u32 \<Rightarrow> bool"
    and contents :: "'s \<Rightarrow> nat \<Rightarrow> block"
    and writes :: "'s \<Rightarrow> (u32 \<times> block) list"
    and capacity :: nat
    and rd :: "u32 \<Rightarrow> 's \<Rightarrow> (nat \<times> 's) kres"
    and fill :: "nat \<Rightarrow> block \<Rightarrow> 's \<Rightarrow> 's"
    and wr :: "nat \<Rightarrow> 's \<Rightarrow> 's kres"
    and relse :: "nat \<Rightarrow> 's \<Rightarrow> 's kres"
  assumes rd: "rel s V D P H \<Longrightarrow> n \<notin> H \<Longrightarrow> n \<in> P \<or> card (P \<union> H) < capacity \<Longrightarrow>
      \<exists>b s'. rd n s = Ok (b, s') \<and> rel s' V D P (insert n H) \<and> has s' b n \<and> contents s' b = V n \<and> writes s' = writes s \<and>
        (\<forall>c m. has s c m \<and> m \<in> P \<union> H \<longrightarrow> has s' c m \<and> contents s' c = contents s c)"
    and fill: "rel s V D P H \<Longrightarrow> n \<in> H \<Longrightarrow> has s b n \<Longrightarrow> rel (fill b d s) (V(n := d)) D P H"
      "rel s V D P H \<Longrightarrow> n \<in> H \<Longrightarrow> has s b n \<Longrightarrow> writes (fill b d s) = writes s"
      "rel s V D P H \<Longrightarrow> n \<in> H \<Longrightarrow> has s b n \<Longrightarrow> has (fill b d s) c m = has s c m"
    and wr: "rel s V D P H \<Longrightarrow> n \<in> H \<Longrightarrow> has s b n \<Longrightarrow>
      \<exists>s'. wr b s = Ok s' \<and> rel s' V (D(n := V n)) P H \<and> writes s' = writes s @ [(n, V n)] \<and> (\<forall>c m. has s' c m = has s c m)"
    and relse: "rel s V D P H \<Longrightarrow> n \<in> H \<Longrightarrow> has s b n \<Longrightarrow> (n \<notin> P \<Longrightarrow> V n = D n) \<Longrightarrow>
      \<exists>s'. relse b s = Ok s' \<and> rel s' V D P (H - {n}) \<and> writes s' = writes s \<and> (\<forall>c m. has s' c m = has s c m)"
begin

text \<open>Copying the contents of block \<open>a\<close> to block \<open>n\<close> and writing it to the disk.\<close>

lemma copy_block:
  assumes r: "rel s V D P {}" and n: "a \<noteq> n" and room: "card P < capacity"
    and room2: "n \<in> P \<or> card (insert a P) < capacity"
  shows "\<exists>x s1 y s2 s4. rd a s = Ok (x, s1) \<and> rd n s1 = Ok (y, s2) \<and> wr y (fill y (contents s2 x) s2) = Ok s4 \<and>
    rel s4 (V(n := V a)) (D(n := V a)) P {a, n} \<and> has s4 x a \<and> has s4 y n \<and> writes s4 = writes s @ [(n, V a)]"
proof -
  have "a \<in> P \<or> card (P \<union> {}) < capacity" using room by simp
  from rd [OF r _ this] obtain x s1 where s1: "rd a s = Ok (x, s1)" "rel s1 V D P {a}" "has s1 x a" "contents s1 x = V a" "writes s1 = writes s"
    by auto
  have "n \<in> P \<or> card (P \<union> {a}) < capacity" "n \<notin> {a}" using room2 n by auto
  from rd [OF s1(2) this(2,1)] s1(3) obtain y s2 where s2: "rd n s1 = Ok (y, s2)" "rel s2 V D P {n, a}" "has s2 y n" "writes s2 = writes s1"
    "has s2 x a" "contents s2 x = contents s1 x" by blast
  let ?s3 = "fill y (contents s2 x) s2"
  have s3: "rel ?s3 (V(n := V a)) D P {n, a}" "writes ?s3 = writes s" "\<And>c m. has ?s3 c m = has s2 c m"
    using fill [OF s2(2) _ s2(3), of "V a"] s1(4,5) s2(4,6) by auto
  have "has ?s3 y n" using s3(3) s2(3) by simp
  have e: "D(n := (V(n := V a)) n) = D(n := V a)" "[(n, (V(n := V a)) n)] = [(n, V a)]" by simp_all
  have "n \<in> {n, a}" by simp
  from wr [OF s3(1) this \<open>has ?s3 y n\<close>, unfolded e] obtain s4 where s4: "wr y ?s3 = Ok s4" "rel s4 (V(n := V a)) (D(n := V a)) P {n, a}"
    "writes s4 = writes s @ [(n, V a)]" "\<forall>c m. has s4 c m = has ?s3 c m" unfolding s3(2) by blast
  have h: "has s4 x a" "has s4 y n" using s4(4) s3(3) s2(3,5) by simp_all
  have "rel s4 (V(n := V a)) (D(n := V a)) P {a, n}" using s4(2) by (simp add: insert_commute)
  then show ?thesis using s1(1) s2(1) s4(1,3) h by blast
qed

lemma copy_block_to:
  assumes r: "rel s V D P {}" and n: "a \<noteq> n" and room: "card P < capacity" and a: "a \<in> P"
  shows "\<exists>x s1 y s2 s4. rd n s = Ok (y, s1) \<and> rd a s1 = Ok (x, s2) \<and> wr y (fill y (contents s2 x) s2) = Ok s4 \<and>
    rel s4 (V(n := V a)) (D(n := V a)) P {a, n} \<and> has s4 x a \<and> has s4 y n \<and> writes s4 = writes s @ [(n, V a)]"
proof -
  have "n \<in> P \<or> card (P \<union> {}) < capacity" using room by simp
  from rd [OF r _ this] obtain y s1 where s1: "rd n s = Ok (y, s1)" "rel s1 V D P {n}" "has s1 y n" "writes s1 = writes s"
    by auto
  have "a \<notin> {n}" using n by auto
  from rd [OF s1(2) this disjI1 [OF a]] s1(3) obtain x s2 where s2: "rd a s1 = Ok (x, s2)" "rel s2 V D P {a, n}" "has s2 x a" "writes s2 = writes s1"
    "has s2 y n" "contents s2 x = V a" by blast
  have nh: "n \<in> {a, n}" by simp
  let ?s3 = "fill y (contents s2 x) s2"
  have s3: "rel ?s3 (V(n := V a)) D P {a, n}" "writes ?s3 = writes s" "\<And>c m. has ?s3 c m = has s2 c m"
    using fill [OF s2(2) nh s2(5), of "V a"] s1(4) s2(4,6) by auto
  have "has ?s3 y n" using s3(3) s2(5) by simp
  have e: "D(n := (V(n := V a)) n) = D(n := V a)" "[(n, (V(n := V a)) n)] = [(n, V a)]" by simp_all
  from wr [OF s3(1) nh \<open>has ?s3 y n\<close>, unfolded e] obtain s4 where s4: "wr y ?s3 = Ok s4" "rel s4 (V(n := V a)) (D(n := V a)) P {a, n}"
    "writes s4 = writes s @ [(n, V a)]" "\<forall>c m. has s4 c m = has ?s3 c m" unfolding s3(2) by blast
  have h: "has s4 x a" "has s4 y n" using s4(4) s3(3) s2(3,5) by simp_all
  then show ?thesis using s1(1) s2(1) s4 by blast
qed

text \<open>Reading one block, replacing its contents and writing it through.\<close>

lemma update_block:
  assumes r: "rel s V D P {}" and room: "card P < capacity" and n: "n \<notin> P"
  shows "\<exists>x s1 s3 s4. rd n s = Ok (x, s1) \<and> contents s1 x = V n \<and> wr x (fill x d s1) = Ok s3 \<and> relse x s3 = Ok s4 \<and>
    rel s4 (V(n := d)) (D(n := d)) P {} \<and> writes s4 = writes s @ [(n, d)]"
proof -
  have "n \<in> P \<or> card (P \<union> {}) < capacity" using room by simp
  from rd [OF r _ this] obtain x s1 where s1: "rd n s = Ok (x, s1)" "rel s1 V D P {n}" "has s1 x n" "contents s1 x = V n" "writes s1 = writes s"
    by auto
  have nh: "n \<in> {n}" by simp
  let ?s2 = "fill x d s1"
  have s2: "rel ?s2 (V(n := d)) D P {n}" "writes ?s2 = writes s" "has ?s2 x n" using fill [OF s1(2) nh s1(3), of d] s1(3,5) by auto
  have e: "D(n := (V(n := d)) n) = D(n := d)" "[(n, (V(n := d)) n)] = [(n, d)]" by simp_all
  from wr [OF s2(1) nh s2(3), unfolded e] obtain s3 where s3: "wr x ?s2 = Ok s3" "rel s3 (V(n := d)) (D(n := d)) P {n}"
    "writes s3 = writes s @ [(n, d)]" "has s3 x n" unfolding s2(2) using s2(3) by blast
  from relse [OF s3(2) nh s3(4)] obtain s4 where "relse x s3 = Ok s4" "rel s4 (V(n := d)) (D(n := d)) P {}" "writes s4 = writes s @ [(n, d)]"
    unfolding s3(3) by auto
  then show ?thesis using s1 s3(1) by blast
qed

end

lemma cache_write_release:
  assumes c: "cache s V D P H" and H: "n \<in> H" and b: "buffer s b n"
  shows "\<exists>s'. bwrite b s = Ok s' \<and> cache s' V (D(n := V n)) P H \<and> dwrites s' = dwrites s @ [(n, V n)] \<and> (\<forall>c m. buffer s' c m = buffer s c m)"
proof -
  obtain s' where s': "bwrite b s = Ok s'" "cache s' V (D(n := V n)) P H" "bufs s' = bufs s" "dwrites s' = dwrites s @ [(n, V n)]"
    using cache_bwrite [OF assms] by blast
  then show ?thesis by (intro exI [of _ s']) (simp add: buffer_def holds_block_def)
qed

lemma cache_release:
  assumes c: "cache s V D P H" and H: "n \<in> H" and b: "buffer s b n" and cl: "n \<notin> P \<Longrightarrow> V n = D n"
  shows "\<exists>s'. brelse b s = Ok s' \<and> cache s' V D P (H - {n}) \<and> dwrites s' = dwrites s \<and> (\<forall>c m. buffer s' c m = buffer s c m)"
  using cache_brelse [OF assms] by blast

interpretation bc: block_cache cache buffer "\<lambda>s b. bdata (bufs s b)" dwrites NBUF "bread ROOTDEV" set_data bwrite brelse
  apply unfold_locales
  subgoal by (rule cache_bread)
  subgoal by (rule cache_set_data(1))
  subgoal by (rule cache_set_data(3))
  subgoal by (rule cache_set_data(4))
  subgoal by (rule cache_write_release)
  subgoal by (rule cache_release)
  done

end
