(* ===== verification/Log.thy ===== *)
theory Log
  imports Bio
begin

text \<open>
  The redo log of the file system (kernel/log.c) on top of the buffer cache. The in-memory log header
  is part of the state; the on-disk header is block \<open>log.start\<close>, its integers little-endian. The code
  keeps \<open>log.lh.block\<close> as an array of \<open>LOGSIZE\<close> ints, here a function of the index. A call of
  \<open>sleep\<close> in \<open>begin_op\<close> is a wait. The order of the disk writes, which decides what a crash leaves
  behind, is the order in which the cache records them.
\<close>

section \<open>Definitions\<close>

record superblock =
  magic :: u32
  fsize :: u32
  nblocks :: u32
  ninodes :: u32
  nlog :: u32
  logstart :: u32
  inodestart :: u32
  bmapstart :: u32

record lst =
  lbc :: bst
  lstart :: u32
  lsize :: int
  outstanding :: int
  committing :: bool
  ldev :: u32
  lhn :: int
  lhblock :: "nat \<Rightarrow> u32"
  lwakes :: nat

function install_trans_loop :: "bool \<Rightarrow> int \<Rightarrow> lst \<Rightarrow> lst kres" where
  "install_trans_loop recovering tail s =
     (if tail < lhn s then
        kbind (bread (ldev s) (lstart s + of_int tail + 1) (lbc s)) (\<lambda>(lbuf, c).
        kbind (bread (ldev s) (lhblock s (nat tail)) c) (\<lambda>(dbuf, c).
        kbind (bwrite dbuf (set_data dbuf (bdata (bufs c lbuf)) c)) (\<lambda>c.
          let c = (if \<not> recovering then bunpin dbuf c else c) in
        kbind (brelse lbuf c) (\<lambda>c.
        kbind (brelse dbuf c) (\<lambda>c. install_trans_loop recovering (tail + 1) (s\<lparr>lbc := c\<rparr>))))))
      else Ok s)"
  by pat_completeness auto
termination
  by (relation "measure (\<lambda>(r, tail, s). nat (lhn s - tail))") auto

declare install_trans_loop.simps [simp del]

definition install_trans :: "bool \<Rightarrow> lst \<Rightarrow> lst kres" where
  "install_trans recovering s = install_trans_loop recovering 0 s"

definition head_n :: "block \<Rightarrow> int" where
  "head_n b = sint (get32 b 0)"

definition head_block :: "block \<Rightarrow> nat \<Rightarrow> u32" where
  "head_block b i = get32 b (4 + 4 * i)"

definition read_head :: "lst \<Rightarrow> lst kres" where
  "read_head s =
     kbind (bread (ldev s) (lstart s) (lbc s)) (\<lambda>(b, c).
       let d = bdata (bufs c b);
           s = s\<lparr>lhn := head_n d\<rparr>;
           s = fold (\<lambda>i s. s\<lparr>lhblock := (lhblock s)(i := head_block d i)\<rparr>) [0..<nat (lhn s)] s
       in kbind (brelse b c) (\<lambda>c. Ok (s\<lparr>lbc := c\<rparr>)))"

definition write_head :: "lst \<Rightarrow> lst kres" where
  "write_head s =
     kbind (bread (ldev s) (lstart s) (lbc s)) (\<lambda>(b, c).
       let d = put32 0 (of_int (lhn s)) (bdata (bufs c b));
           d = fold (\<lambda>i d. put32 (4 + 4 * i) (lhblock s i) d) [0..<nat (lhn s)] d
       in kbind (bwrite b (set_data b d c)) (\<lambda>c.
          kbind (brelse b c) (\<lambda>c. Ok (s\<lparr>lbc := c\<rparr>))))"

definition recover_from_log :: "lst \<Rightarrow> lst kres" where
  "recover_from_log s =
     kbind (read_head s) (\<lambda>s.
     kbind (install_trans True s) (\<lambda>s.
     write_head (s\<lparr>lhn := 0\<rparr>)))"

text \<open>\<^verbatim>\<open>sizeof(struct logheader)\<close>: the count and \<open>LOGSIZE\<close> block numbers.\<close>

definition sizeof_logheader :: nat where
  "sizeof_logheader = 4 + 4 * LOGSIZE"

definition initlog :: "u32 \<Rightarrow> superblock \<Rightarrow> lst \<Rightarrow> lst kres" where
  "initlog dev sb s =
     (if sizeof_logheader \<ge> BSIZE then Panic ''initlog: too big logheader''
      else recover_from_log (s\<lparr>lstart := logstart sb, lsize := sint (nlog sb), ldev := dev\<rparr>))"

definition begin_op :: "lst \<Rightarrow> lst kres" where
  "begin_op s =
     (if committing s then Wait ''begin_op: committing''
      else if lhn s + (outstanding s + 1) * int MAXOPBLOCKS > int LOGSIZE then Wait ''begin_op: log space''
      else Ok (s\<lparr>outstanding := outstanding s + 1\<rparr>))"

function write_log_loop :: "int \<Rightarrow> lst \<Rightarrow> lst kres" where
  "write_log_loop tail s =
     (if tail < lhn s then
        kbind (bread (ldev s) (lstart s + of_int tail + 1) (lbc s)) (\<lambda>(to, c).
        kbind (bread (ldev s) (lhblock s (nat tail)) c) (\<lambda>(from, c).
        kbind (bwrite to (set_data to (bdata (bufs c from)) c)) (\<lambda>c.
        kbind (brelse from c) (\<lambda>c.
        kbind (brelse to c) (\<lambda>c. write_log_loop (tail + 1) (s\<lparr>lbc := c\<rparr>))))))
      else Ok s)"
  by pat_completeness auto
termination
  by (relation "measure (\<lambda>(tail, s). nat (lhn s - tail))") auto

declare write_log_loop.simps [simp del]

definition write_log :: "lst \<Rightarrow> lst kres" where
  "write_log s = write_log_loop 0 s"

definition commit :: "lst \<Rightarrow> lst kres" where
  "commit s =
     (if lhn s > 0 then
        kbind (write_log s) (\<lambda>s.
        kbind (write_head s) (\<lambda>s.
        kbind (install_trans False s) (\<lambda>s.
        write_head (s\<lparr>lhn := 0\<rparr>))))
      else Ok s)"

definition end_op :: "lst \<Rightarrow> lst kres" where
  "end_op s =
     (let s = s\<lparr>outstanding := outstanding s - 1\<rparr>
      in if committing s then Panic ''log.committing''
         else if outstanding s = 0 then
           kbind (commit (s\<lparr>committing := True\<rparr>)) (\<lambda>s. Ok (s\<lparr>committing := False, lwakes := Suc (lwakes s)\<rparr>))
         else Ok (s\<lparr>lwakes := Suc (lwakes s)\<rparr>))"

text \<open>The index at which the search of \<open>log_write\<close> stops.\<close>

fun absorb_index :: "(nat \<Rightarrow> u32) \<Rightarrow> u32 \<Rightarrow> nat \<Rightarrow> nat \<Rightarrow> nat" where
  "absorb_index blk bno n 0 = n"
| "absorb_index blk bno n (Suc k) =
     (if blk (n - Suc k) = bno then n - Suc k else absorb_index blk bno n k)"

definition log_write :: "nat \<Rightarrow> lst \<Rightarrow> lst kres" where
  "log_write b s =
     (if lhn s \<ge> int LOGSIZE \<or> lhn s \<ge> lsize s - 1 then Panic ''too big a transaction''
      else if outstanding s < 1 then Panic ''log_write outside of trans''
      else
        let bno = blockno (bufs (lbc s) b);
            i = absorb_index (lhblock s) bno (nat (lhn s)) (nat (lhn s));
            s = s\<lparr>lhblock := (lhblock s)(i := bno)\<rparr>
        in if int i = lhn s then Ok (s\<lparr>lbc := bpin b (lbc s), lhn := lhn s + 1\<rparr>) else Ok s)"

section \<open>Single steps\<close>

text \<open>One iteration of \<open>install_trans\<close> and of \<open>write_log\<close>.\<close>

definition install_one :: "bool \<Rightarrow> u32 \<Rightarrow> u32 \<Rightarrow> bst \<Rightarrow> bst kres" where
  "install_one recovering lb db c =
     kbind (bread ROOTDEV lb c) (\<lambda>(lbuf, c).
     kbind (bread ROOTDEV db c) (\<lambda>(dbuf, c).
     kbind (bwrite dbuf (set_data dbuf (bdata (bufs c lbuf)) c)) (\<lambda>c.
       let c = (if \<not> recovering then bunpin dbuf c else c) in
     kbind (brelse lbuf c) (brelse dbuf))))"

definition write_one :: "u32 \<Rightarrow> u32 \<Rightarrow> bst \<Rightarrow> bst kres" where
  "write_one lb hb c =
     kbind (bread ROOTDEV lb c) (\<lambda>(to, c).
     kbind (bread ROOTDEV hb c) (\<lambda>(from, c).
     kbind (bwrite to (set_data to (bdata (bufs c from)) c)) (\<lambda>c.
     kbind (brelse from c) (brelse to))))"

lemma install_trans_loop_step:
  "ldev s = ROOTDEV \<Longrightarrow> install_trans_loop recovering tail s =
     (if tail < lhn s then kbind (install_one recovering (lstart s + of_int tail + 1) (lhblock s (nat tail)) (lbc s))
        (\<lambda>c. install_trans_loop recovering (tail + 1) (s\<lparr>lbc := c\<rparr>)) else Ok s)"
  by (subst install_trans_loop.simps) (simp add: install_one_def kbind_assoc split_def Let_def)

lemma write_log_loop_step:
  "ldev s = ROOTDEV \<Longrightarrow> write_log_loop tail s =
     (if tail < lhn s then kbind (write_one (lstart s + of_int tail + 1) (lhblock s (nat tail)) (lbc s))
        (\<lambda>c. write_log_loop (tail + 1) (s\<lparr>lbc := c\<rparr>)) else Ok s)"
  by (subst write_log_loop.simps) (simp add: write_one_def kbind_assoc split_def)

lemma install_one_spec:
  assumes c: "cache c V D P {}" and ne: "lb \<noteq> db" and lb: "lb \<notin> P" and room: "card P < NBUF"
    and db: "if recovering then card (insert lb P) < NBUF \<and> db \<notin> P else db \<in> P"
  shows "\<exists>c'. install_one recovering lb db c = Ok c' \<and> cache c' (V(db := V lb)) (D(db := V lb)) (P - {db}) {} \<and>
    dwrites c' = dwrites c @ [(db, V lb)]"
proof -
  have VD: "V lb = D lb" using cache_view_disk [OF c] lb by simp
  have "db \<in> P \<or> card (insert lb P) < NBUF" using db by (cases recovering) auto
  from bc.copy_block [OF c ne room this] obtain x s1 y s2 s4 where s: "bread ROOTDEV lb c = Ok (x, s1)" "bread ROOTDEV db s1 = Ok (y, s2)"
    "bwrite y (set_data y (bdata (bufs s2 x)) s2) = Ok s4" "cache s4 (V(db := V lb)) (D(db := V lb)) P {lb, db}"
    "buffer s4 x lb" "buffer s4 y db" "dwrites s4 = dwrites c @ [(db, V lb)]" by blast
  define s5 where "s5 = (if \<not> recovering then bunpin y s4 else s4)"
  have s5: "cache s5 (V(db := V lb)) (D(db := V lb)) (P - {db}) {lb, db}" "buffer s5 x lb" "buffer s5 y db" "dwrites s5 = dwrites s4"
    using cache_unpin [OF s(4) _ _ s(6)] s(4-6) db unfolding s5_def by (cases recovering; simp)+
  have lh: "lb \<in> {lb, db}" "db \<in> {lb, db} - {lb}" using ne by auto
  have vl: "(V(db := V lb)) lb = (D(db := V lb)) lb" using VD ne by simp
  obtain s6 where s6: "brelse x s5 = Ok s6" "cache s6 (V(db := V lb)) (D(db := V lb)) (P - {db}) ({lb, db} - {lb})"
    "dwrites s6 = dwrites s5" "\<And>c m. buffer s6 c m = buffer s5 c m" using bc.relse [OF s5(1) lh(1) s5(2) vl] by blast
  have "buffer s6 y db" using s6(4) s5(3) by simp
  moreover have "(V(db := V lb)) db = (D(db := V lb)) db" by simp
  ultimately obtain s7 where s7: "brelse y s6 = Ok s7" "cache s7 (V(db := V lb)) (D(db := V lb)) (P - {db}) ({lb, db} - {lb} - {db})"
    "dwrites s7 = dwrites s6" using bc.relse [OF s6(2) lh(2)] by blast
  have "install_one recovering lb db c = Ok s7" by (simp add: install_one_def s(1-3) Let_def s5_def [symmetric] s6(1) s7(1))
  moreover have e: "{lb, db} - {lb} - {db} = {}" by auto
  ultimately show ?thesis using s7(2) [unfolded e] s7(3) s6(3) s5(4) s(7) by (intro exI [of _ s7]) simp
qed

lemma write_one_spec:
  assumes c: "cache c V D P {}" and ne: "hb \<noteq> lb" and lb: "lb \<notin> P" and hb: "hb \<in> P" and room: "card P < NBUF"
  shows "\<exists>c'. write_one lb hb c = Ok c' \<and> cache c' (V(lb := V hb)) (D(lb := V hb)) P {} \<and> dwrites c' = dwrites c @ [(lb, V hb)]"
proof -
  from bc.copy_block_to [OF c ne room hb] obtain x s1 y s2 s4 where s: "bread ROOTDEV lb c = Ok (y, s1)" "bread ROOTDEV hb s1 = Ok (x, s2)"
    "bwrite y (set_data y (bdata (bufs s2 x)) s2) = Ok s4" "cache s4 (V(lb := V hb)) (D(lb := V hb)) P {hb, lb}"
    "buffer s4 x hb" "buffer s4 y lb" "dwrites s4 = dwrites c @ [(lb, V hb)]" by blast
  have lh: "hb \<in> {hb, lb}" "lb \<in> {hb, lb} - {hb}" using ne by auto
  obtain s5 where s5: "brelse x s4 = Ok s5" "cache s5 (V(lb := V hb)) (D(lb := V hb)) P ({hb, lb} - {hb})"
    "dwrites s5 = dwrites s4" "\<And>c m. buffer s5 c m = buffer s4 c m" using bc.relse [OF s(4) lh(1) s(5)] hb by blast
  have "buffer s5 y lb" using s5(4) s(6) by simp
  moreover have "(V(lb := V hb)) lb = (D(lb := V hb)) lb" by simp
  ultimately obtain s6 where s6: "brelse y s5 = Ok s6" "cache s6 (V(lb := V hb)) (D(lb := V hb)) P ({hb, lb} - {hb} - {lb})"
    "dwrites s6 = dwrites s5" using bc.relse [OF s5(2) lh(2)] by blast
  have "write_one lb hb c = Ok s6" by (simp add: write_one_def s(1-3) s5(1) s6(1))
  moreover have e: "{hb, lb} - {hb} - {lb} = {}" by auto
  ultimately show ?thesis using s6(2) [unfolded e] s6(3) s5(3) s(7) by (intro exI [of _ s6]) simp
qed

section \<open>The header block\<close>

definition enc_head :: "nat \<Rightarrow> (nat \<Rightarrow> u32) \<Rightarrow> block \<Rightarrow> block" where
  "enc_head n blk d = fold (\<lambda>i d. put32 (4 + 4 * i) (blk i) d) [0..<n] (put32 0 (of_nat n) d)"

lemma enc_head_get:
  "i < n \<Longrightarrow> get32 (fold (\<lambda>i d. put32 (4 + 4 * i) (blk i) d) [0..<n] d) (4 + 4 * i) = blk i"
  "get32 (fold (\<lambda>i d. put32 (4 + 4 * i) (blk i) d) [0..<n] d) 0 = get32 d 0"
  by (induction n) (auto simp: less_Suc_eq get_put_other)

lemma head_enc:
  assumes "n < 2 ^ 31"
  shows "head_n (enc_head n blk d) = int n" "i < n \<Longrightarrow> head_block (enc_head n blk d) i = blk i"
proof -
  have "sint (of_nat n :: u32) = int n" using assms by (simp add: signed_of_nat signed_take_bit_int_eq_self)
  then show "head_n (enc_head n blk d) = int n" by (simp add: head_n_def enc_head_def enc_head_get(2))
  show "i < n \<Longrightarrow> head_block (enc_head n blk d) i = blk i" by (simp add: head_block_def enc_head_def enc_head_get(1))
qed

lemma write_head_spec:
  assumes c: "cache (lbc s) V D P {}" and dev: "ldev s = ROOTDEV" and n: "lhn s = int n" and st: "lstart s \<notin> P" and room: "card P < NBUF"
  shows "\<exists>c'. write_head s = Ok (s\<lparr>lbc := c'\<rparr>) \<and>
    cache c' (V(lstart s := enc_head n (lhblock s) (V (lstart s)))) (D(lstart s := enc_head n (lhblock s) (V (lstart s)))) P {} \<and>
    dwrites c' = dwrites (lbc s) @ [(lstart s, enc_head n (lhblock s) (V (lstart s)))]"
  using bc.update_block [OF c room st, of "enc_head n (lhblock s) (V (lstart s))"]
  by (auto simp: write_head_def dev n enc_head_def Let_def)

lemma read_head_blocks:
  "fold (\<lambda>i s. s\<lparr>lhblock := (lhblock s)(i := f i)\<rparr>) [0..<n] s = s\<lparr>lhblock := (\<lambda>i. if i < n then f i else lhblock s i)\<rparr>"
proof (induction n)
  case (Suc n)
  have "((\<lambda>i. if i < n then f i else lhblock s i)(n := f n)) = (\<lambda>i. if i < Suc n then f i else lhblock s i)"
    by (auto simp: less_Suc_eq)
  then show ?case using Suc by (simp del: fun_upd_apply)
qed simp

lemma read_head_spec:
  assumes c: "cache (lbc s) V D P {}" and dev: "ldev s = ROOTDEV" and st: "lstart s \<notin> P" and room: "card P < NBUF"
  shows "\<exists>c'. read_head s = Ok (s\<lparr>lhn := head_n (V (lstart s)),
      lhblock := (\<lambda>i. if i < nat (head_n (V (lstart s))) then head_block (V (lstart s)) i else lhblock s i), lbc := c'\<rparr>) \<and>
    cache c' V D P {} \<and> dwrites c' = dwrites (lbc s)"
proof -
  have rm: "lstart s \<in> P \<or> card (P \<union> {}) < NBUF" using room by simp
  from bc.rd [OF c _ rm] obtain b s1 where s1: "bread ROOTDEV (lstart s) (lbc s) = Ok (b, s1)" "cache s1 V D P {lstart s}" "buffer s1 b (lstart s)"
    "bdata (bufs s1 b) = V (lstart s)" "dwrites s1 = dwrites (lbc s)" by auto
  have "V (lstart s) = D (lstart s)" using cache_view_disk [OF c] st by simp
  then obtain s2 where "brelse b s1 = Ok s2" "cache s2 V D P {}" "dwrites s2 = dwrites s1"
    using bc.relse [OF s1(2) _ s1(3)] by auto
  then show ?thesis using s1 by (intro exI [of _ s2]) (simp add: read_head_def dev read_head_blocks Let_def cong: if_cong)
qed

section \<open>Loops\<close>

text \<open>
  Blocks of the log: the header and the \<open>LOGSIZE\<close> - 1 data blocks behind it, \<open>LOGSIZE\<close> blocks in all,
  as mkfs lays the log out. The block after them is the first inode block.
\<close>

definition logblk :: "u32 \<Rightarrow> nat \<Rightarrow> u32" where
  "logblk st i = st + of_nat i + 1"

definition log_region :: "u32 \<Rightarrow> u32 set" where
  "log_region st = insert st (logblk st ` {..<LOGSIZE - 1})"

lemma logblk_inj: "i < LOGSIZE \<Longrightarrow> j < LOGSIZE \<Longrightarrow> logblk st i = logblk st j \<longleftrightarrow> i = j"
proof -
  assume a: "i < LOGSIZE" "j < LOGSIZE"
  have "unat (of_nat i :: u32) = i" "unat (of_nat j :: u32) = j" using a by (simp_all add: unat_of_nat LOGSIZE_def MAXOPBLOCKS_def)
  then have "(of_nat i :: u32) = of_nat j \<longleftrightarrow> i = j" by (metis word_unat_eq_iff)
  then show ?thesis by (simp add: logblk_def)
qed

lemma logblk_start: "i < LOGSIZE \<Longrightarrow> logblk st i \<noteq> st"
proof
  assume i: "i < LOGSIZE" and "logblk st i = st"
  then have "(of_nat (Suc i) :: u32) = 0" by (simp add: logblk_def add.commute)
  then have "unat (of_nat (Suc i) :: u32) = 0" by (simp only: unat_0)
  then show False using i by (simp add: unat_of_nat LOGSIZE_def MAXOPBLOCKS_def del: of_nat_Suc)
qed

lemma logblk_region: "Suc i < LOGSIZE \<Longrightarrow> logblk st i \<in> log_region st" "st \<in> log_region st"
  by (auto simp: log_region_def)

lemma tail_block: "st + of_int (int k) + 1 = logblk st k"
  by (simp add: logblk_def)

text \<open>A log of \<open>n\<close> blocks whose home locations \<open>hb 0\<close>, \<open>hb 1\<close>, ... are outside the log.\<close>

definition log_ok :: "u32 \<Rightarrow> nat \<Rightarrow> (nat \<Rightarrow> u32) \<Rightarrow> bool" where
  "log_ok st n hb \<longleftrightarrow> n < LOGSIZE \<and> inj_on hb {..<n} \<and> (\<forall>i < n. hb i \<notin> log_region st)"

text \<open>Contents after blocks \<open>f 0\<close>, ..., \<open>f (n - 1)\<close> were set to \<open>d 0\<close>, ....\<close>

definition upd_all :: "(u32 \<Rightarrow> block) \<Rightarrow> (nat \<Rightarrow> u32) \<Rightarrow> (nat \<Rightarrow> block) \<Rightarrow> nat \<Rightarrow> u32 \<Rightarrow> block" where
  "upd_all V f d n = fold (\<lambda>i V. V(f i := d i)) [0..<n] V"

lemma upd_all_0 [simp]: "upd_all V f d 0 = V"
  by (simp add: upd_all_def)

lemma upd_all_Suc [simp]: "upd_all V f d (Suc n) = (upd_all V f d n)(f n := d n)"
  by (simp add: upd_all_def)

lemma upd_all_other: "(\<And>i. i < n \<Longrightarrow> f i \<noteq> b) \<Longrightarrow> upd_all V f d n b = V b"
  by (induction n) auto

lemma upd_all_at: "inj_on f {..<n} \<Longrightarrow> i < n \<Longrightarrow> upd_all V f d n (f i) = d i"
  by (induction n) (auto simp: less_Suc_eq inj_on_def)

lemma write_log_spec:
  assumes c: "cache (lbc s) V D P {}" and s: "ldev s = ROOTDEV" "lhn s = int n" and ok: "log_ok (lstart s) n (lhblock s)"
    and P: "P = lhblock s ` {..<n}"
  shows "\<exists>c'. write_log s = Ok (s\<lparr>lbc := c'\<rparr>) \<and>
    cache c' (upd_all V (logblk (lstart s)) (\<lambda>i. V (lhblock s i)) n) (upd_all D (logblk (lstart s)) (\<lambda>i. V (lhblock s i)) n) P {} \<and>
    dwrites c' = dwrites (lbc s) @ map (\<lambda>i. (logblk (lstart s) i, V (lhblock s i))) [0..<n]"
proof -
  let ?st = "lstart s" and ?h = "lhblock s"
  let ?V = "\<lambda>k. upd_all V (logblk ?st) (\<lambda>i. V (?h i)) k" and ?D = "\<lambda>k. upd_all D (logblk ?st) (\<lambda>i. V (?h i)) k"
  have n: "n < LOGSIZE" "\<And>i. i < n \<Longrightarrow> ?h i \<notin> log_region ?st" using ok by (simp_all add: log_ok_def)
  have card: "card P < NBUF"
    using card_image_le [of "{..<n}" ?h] n(1) unfolding P by (simp add: NBUF_def LOGSIZE_def)
  have lp: "\<exists>c'. write_log_loop (int k) (s\<lparr>lbc := c\<rparr>) = Ok (s\<lparr>lbc := c'\<rparr>) \<and> cache c' (?V n) (?D n) P {} \<and>
      dwrites c' = dwrites c @ map (\<lambda>i. (logblk ?st i, V (?h i))) [k..<n]"
    if "k \<le> n" "cache c (?V k) (?D k) P {}" for k c
    using that
  proof (induction "n - k" arbitrary: k c)
    case 0
    then have "k = n" by simp
    then show ?case using 0 s by (intro exI [of _ c]) (simp add: write_log_loop_step)
  next
    case (Suc d)
    then have k: "k < n" "d = n - Suc k" and e: "int (Suc k) = int k + 1" by simp_all
    have lk: "logblk ?st k \<in> log_region ?st" using k n(1) logblk_region by simp
    have ne: "?h k \<noteq> logblk ?st k" using n(2) [OF k(1)] lk by metis
    have lb: "logblk ?st k \<notin> P" using n(2) lk unfolding P by auto
    have hk: "?h k \<in> P" using k(1) by (auto simp: P)
    have "logblk ?st i \<in> log_region ?st" if "i < k" for i using that k(1) n(1) by (intro logblk_region) simp
    then have Vk: "?V k (?h k) = V (?h k)" using n(2) [OF k(1)] by (intro upd_all_other) metis
    obtain c1 where c1: "write_one (logblk ?st k) (?h k) c = Ok c1" "cache c1 (?V (Suc k)) (?D (Suc k)) P {}"
      "dwrites c1 = dwrites c @ [(logblk ?st k, V (?h k))]"
      using write_one_spec [OF Suc.prems(2) ne lb hk card] unfolding Vk by auto
    have "Suc k \<le> n" using k by simp
    from Suc.hyps(1) [OF k(2) this c1(2)] obtain c' where c': "write_log_loop (int (Suc k)) (s\<lparr>lbc := c1\<rparr>) = Ok (s\<lparr>lbc := c'\<rparr>)"
      "cache c' (?V n) (?D n) P {}" "dwrites c' = dwrites c1 @ map (\<lambda>i. (logblk ?st i, V (?h i))) [Suc k..<n]" by blast
    have "write_log_loop (int k) (s\<lparr>lbc := c\<rparr>) = Ok (s\<lparr>lbc := c'\<rparr>)"
      using c'(1) [unfolded e] c1(1) k(1) s by (subst write_log_loop_step) (simp_all add: tail_block del: of_int_of_nat_eq)
    moreover have "dwrites c' = dwrites c @ map (\<lambda>i. (logblk ?st i, V (?h i))) [k..<n]"
      using c'(3) c1(3) k(1) by (simp add: upt_conv_Cons)
    ultimately show ?case using c'(2) by blast
  qed
  from lp [of 0 "lbc s"] c show ?thesis by (simp add: write_log_def)
qed

lemma install_trans_spec:
  assumes c: "cache (lbc s) V D P {}" and s: "ldev s = ROOTDEV" "lhn s = int n"
    and n: "n < LOGSIZE" "\<forall>i < n. lhblock s i \<notin> log_region (lstart s)"
    and P: "if recovering then P = {} else inj_on (lhblock s) {..<n} \<and> P = lhblock s ` {..<n}"
  shows "\<exists>c'. install_trans recovering s = Ok (s\<lparr>lbc := c'\<rparr>) \<and>
    cache c' (upd_all V (lhblock s) (\<lambda>i. V (logblk (lstart s) i)) n) (upd_all D (lhblock s) (\<lambda>i. V (logblk (lstart s) i)) n) {} {} \<and>
    dwrites c' = dwrites (lbc s) @ map (\<lambda>i. (lhblock s i, V (logblk (lstart s) i))) [0..<n]"
proof -
  let ?st = "lstart s" and ?h = "lhblock s"
  let ?V = "\<lambda>k. upd_all V ?h (\<lambda>i. V (logblk ?st i)) k" and ?D = "\<lambda>k. upd_all D ?h (\<lambda>i. V (logblk ?st i)) k"
  define Q where "Q k = (if recovering then {} else ?h ` {k..<n})" for k
  have lp: "\<exists>c'. install_trans_loop recovering (int k) (s\<lparr>lbc := c\<rparr>) = Ok (s\<lparr>lbc := c'\<rparr>) \<and> cache c' (?V n) (?D n) {} {} \<and>
      dwrites c' = dwrites c @ map (\<lambda>i. (?h i, V (logblk ?st i))) [k..<n]"
    if "k \<le> n" "cache c (?V k) (?D k) (Q k) {}" for k c
    using that
  proof (induction "n - k" arbitrary: k c)
    case 0
    then have "k = n" by simp
    moreover have "Q n = {}" by (simp add: Q_def)
    ultimately show ?case using 0 s by (intro exI [of _ c]) (simp add: install_trans_loop_step)
  next
    case (Suc d)
    then have k: "k < n" "d = n - Suc k" and e: "int (Suc k) = int k + 1" by simp_all
    have lk: "logblk ?st k \<in> log_region ?st" using k n(1) logblk_region by simp
    have ne: "logblk ?st k \<noteq> ?h k" using n(2) k(1) lk by metis
    have lb: "logblk ?st k \<notin> Q k" using n(2) lk unfolding Q_def by auto
    have card: "card (Q k) < NBUF" "card (insert (logblk ?st k) (Q k)) < NBUF \<or> \<not> recovering"
    proof -
      have "card (?h ` {k..<n}) \<le> n - k" using card_image_le [of "{k..<n}" ?h] by simp
      then show "card (Q k) < NBUF" using n(1) by (auto simp: Q_def NBUF_def LOGSIZE_def MAXOPBLOCKS_def)
      show "card (insert (logblk ?st k) (Q k)) < NBUF \<or> \<not> recovering" by (simp add: Q_def NBUF_def MAXOPBLOCKS_def)
    qed
    have db: "if recovering then card (insert (logblk ?st k) (Q k)) < NBUF \<and> ?h k \<notin> Q k else ?h k \<in> Q k"
      using card(2) k(1) by (auto simp: Q_def)
    have Qk: "Q k - {?h k} = Q (Suc k)"
    proof (cases recovering)
      case False
      then have inj: "inj_on ?h {..<n}" using P by simp
      have "?h i \<noteq> ?h k" if "Suc k \<le> i" "i < n" for i using inj_onD [OF inj, of i k] that k(1) by auto
      moreover have "{k..<n} = insert k {Suc k..<n}" using k(1) by auto
      ultimately show ?thesis using False by (auto simp: Q_def)
    qed (simp add: Q_def)
    have Vk: "?V k (logblk ?st k) = V (logblk ?st k)" using n(2) lk k(1) by (intro upd_all_other) (metis less_trans)
    obtain c1 where c1: "install_one recovering (logblk ?st k) (?h k) c = Ok c1" "cache c1 (?V (Suc k)) (?D (Suc k)) (Q (Suc k)) {}"
      "dwrites c1 = dwrites c @ [(?h k, V (logblk ?st k))]"
      using install_one_spec [OF Suc.prems(2) ne lb card(1) db] unfolding Vk Qk by auto
    have "Suc k \<le> n" using k by simp
    from Suc.hyps(1) [OF k(2) this c1(2)] obtain c' where c': "install_trans_loop recovering (int (Suc k)) (s\<lparr>lbc := c1\<rparr>) = Ok (s\<lparr>lbc := c'\<rparr>)"
      "cache c' (?V n) (?D n) {} {}" "dwrites c' = dwrites c1 @ map (\<lambda>i. (?h i, V (logblk ?st i))) [Suc k..<n]" by blast
    have "install_trans_loop recovering (int k) (s\<lparr>lbc := c\<rparr>) = Ok (s\<lparr>lbc := c'\<rparr>)"
      using c'(1) [unfolded e] c1(1) k(1) s by (subst install_trans_loop_step) (simp_all add: tail_block del: of_int_of_nat_eq)
    moreover have "dwrites c' = dwrites c @ map (\<lambda>i. (?h i, V (logblk ?st i))) [k..<n]"
      using c'(3) c1(3) k(1) by (simp add: upt_conv_Cons)
    ultimately show ?case using c'(2) by blast
  qed
  have "Q 0 = P" using P by (auto simp: Q_def split: if_splits)
  with lp [of 0 "lbc s"] c show ?thesis by (simp add: install_trans_def)
qed

section \<open>Commit and recovery\<close>

definition apply_writes :: "(u32 \<Rightarrow> block) \<Rightarrow> (u32 \<times> block) list \<Rightarrow> u32 \<Rightarrow> block" where
  "apply_writes D ws = fold (\<lambda>(b, d) D. D(b := d)) ws D"

lemma apply_writes_append: "apply_writes D (xs @ ys) = apply_writes (apply_writes D xs) ys"
  by (simp add: apply_writes_def)

lemma apply_writes_one [simp]: "apply_writes D [(b, d)] = D(b := d)" "apply_writes D [] = D"
  by (simp_all add: apply_writes_def)

lemma apply_writes_map: "apply_writes D (map (\<lambda>i. (f i, d i)) [0..<n]) = upd_all D f d n"
  by (induction n) (simp_all add: apply_writes_append)

lemma upd_all_cong:
  "(\<And>i. i < n \<Longrightarrow> f i = g i) \<Longrightarrow> (\<And>i. i < n \<Longrightarrow> d i = e i) \<Longrightarrow> upd_all V f d n = upd_all V g e n"
  by (induction n) auto

text \<open>The disk writes of a commit of \<open>n\<close> blocks, in order.\<close>

definition commit_writes :: "u32 \<Rightarrow> nat \<Rightarrow> (nat \<Rightarrow> u32) \<Rightarrow> (u32 \<Rightarrow> block) \<Rightarrow> (u32 \<times> block) list" where
  "commit_writes st n hb V =
     map (\<lambda>i. (logblk st i, V (hb i))) [0..<n] @ [(st, enc_head n hb (V st))] @
     map (\<lambda>i. (hb i, V (hb i))) [0..<n] @ [(st, enc_head 0 hb (enc_head n hb (V st)))]"

lemma log_ok_dest:
  assumes "log_ok st n hb"
  shows "n < LOGSIZE" "inj_on hb {..<n}" "\<forall>i < n. hb i \<notin> log_region st" "st \<notin> hb ` {..<n}" "card (hb ` {..<n}) < NBUF"
proof -
  show n: "n < LOGSIZE" "inj_on hb {..<n}" "\<forall>i < n. hb i \<notin> log_region st"
    using assms by (auto simp: log_ok_def)
  show "st \<notin> hb ` {..<n}"
    using n(3) logblk_region(2) [of st] by auto
  show "card (hb ` {..<n}) < NBUF"
    using n card_image_le [of "{..<n}" hb] by (simp add: LOGSIZE_def NBUF_def MAXOPBLOCKS_def)
qed

lemma logblk_inj_on: "n < LOGSIZE \<Longrightarrow> inj_on (logblk st) {..<n}"
  by (rule inj_onI) (simp add: logblk_inj)

text \<open>The steps of commit and recovery on a state whose cache is \<open>c\<close>.\<close>

lemma cache_disk: "cache s V D P H \<Longrightarrow> disk s = D"
  by (simp add: cache_def)

lemma lbc_lhn: "s\<lparr>lbc := c, lhn := v\<rparr> = s\<lparr>lhn := v, lbc := c\<rparr>"
  by (cases s) simp

lemma write_head_at:
  assumes "cache c V D P {}" "ldev s = ROOTDEV" "lhn s = int n" "lstart s \<notin> P" "card P < NBUF" "V (lstart s) = v"
  shows "\<exists>c'. write_head (s\<lparr>lbc := c\<rparr>) = Ok (s\<lparr>lbc := c'\<rparr>) \<and>
    cache c' (V(lstart s := enc_head n (lhblock s) v)) (D(lstart s := enc_head n (lhblock s) v)) P {} \<and>
    dwrites c' = dwrites c @ [(lstart s, enc_head n (lhblock s) v)]"
  using write_head_spec [of "s\<lparr>lbc := c\<rparr>" V D P n] assms by simp

lemma write_head_empty_at:
  assumes "cache c V D {} {}" "ldev s = ROOTDEV" "V (lstart s) = v"
  shows "\<exists>c'. write_head (s\<lparr>lhn := 0, lbc := c\<rparr>) = Ok (s\<lparr>lhn := 0, lbc := c'\<rparr>) \<and>
    cache c' (V(lstart s := enc_head 0 (lhblock s) v)) (D(lstart s := enc_head 0 (lhblock s) v)) {} {} \<and>
    dwrites c' = dwrites c @ [(lstart s, enc_head 0 (lhblock s) v)]"
  using write_head_at [of c V D "{}" "s\<lparr>lhn := 0\<rparr>" 0 v] assms by (simp add: NBUF_def MAXOPBLOCKS_def)

lemma install_trans_at:
  assumes "cache c V D P {}" "ldev s = ROOTDEV" "lhn s = int n" "n < LOGSIZE" "\<forall>i < n. lhblock s i \<notin> log_region (lstart s)"
    "if recovering then P = {} else inj_on (lhblock s) {..<n} \<and> P = lhblock s ` {..<n}"
    "\<forall>i < n. V (logblk (lstart s) i) = d i"
  shows "\<exists>c'. install_trans recovering (s\<lparr>lbc := c\<rparr>) = Ok (s\<lparr>lbc := c'\<rparr>) \<and>
    cache c' (upd_all V (lhblock s) d n) (upd_all D (lhblock s) d n) {} {} \<and>
    dwrites c' = dwrites c @ map (\<lambda>i. (lhblock s i, d i)) [0..<n]"
proof -
  have u: "upd_all W (lhblock s) (\<lambda>i. V (logblk (lstart s) i)) n = upd_all W (lhblock s) d n" for W
    using assms(7) by (intro upd_all_cong) simp_all
  have m: "map (\<lambda>i. (lhblock s i, V (logblk (lstart s) i))) [0..<n] = map (\<lambda>i. (lhblock s i, d i)) [0..<n]"
    using assms(7) by simp
  show ?thesis
    using install_trans_spec [of "s\<lparr>lbc := c\<rparr>" V D P n recovering] assms(1-6) by (simp add: u m)
qed

lemma commit_spec:
  assumes c: "cache (lbc s) V D (lhblock s ` {..<n}) {}" and s: "ldev s = ROOTDEV" "lhn s = int n" "0 < n"
    and ok: "log_ok (lstart s) n (lhblock s)"
  shows "\<exists>c' V'. commit s = Ok (s\<lparr>lhn := 0, lbc := c'\<rparr>) \<and>
    cache c' V' (apply_writes D (commit_writes (lstart s) n (lhblock s) V)) {} {} \<and>
    dwrites c' = dwrites (lbc s) @ commit_writes (lstart s) n (lhblock s) V"
proof -
  let ?st = "lstart s" and ?h = "lhblock s"
  let ?P = "?h ` {..<n}"
  let ?V1 = "upd_all V (logblk ?st) (\<lambda>i. V (?h i)) n" and ?D1 = "upd_all D (logblk ?st) (\<lambda>i. V (?h i)) n"
  note l = log_ok_dest [OF ok]
  obtain c1 where c1: "write_log s = Ok (s\<lparr>lbc := c1\<rparr>)" "cache c1 ?V1 ?D1 ?P {}"
      "dwrites c1 = dwrites (lbc s) @ map (\<lambda>i. (logblk ?st i, V (?h i))) [0..<n]"
    using write_log_spec [OF c s(1,2) ok refl] by blast
  have st1: "?V1 ?st = V ?st"
    using l(1) by (intro upd_all_other) (auto simp: logblk_start)
  let ?e = "enc_head n ?h (V ?st)"
  let ?V2 = "?V1(?st := ?e)" and ?D2 = "?D1(?st := ?e)"
  obtain c2 where c2: "write_head (s\<lparr>lbc := c1\<rparr>) = Ok (s\<lparr>lbc := c2\<rparr>)" "cache c2 ?V2 ?D2 ?P {}"
      "dwrites c2 = dwrites c1 @ [(?st, ?e)]"
    using write_head_at [OF c1(2) s(1,2) l(4,5) st1] by blast
  have lg: "\<forall>i < n. ?V2 (logblk ?st i) = V (?h i)"
    using upd_all_at [OF logblk_inj_on [OF l(1)]] logblk_start [of _ ?st] l(1) by simp
  let ?V3 = "upd_all ?V2 ?h (\<lambda>i. V (?h i)) n" and ?D3 = "upd_all ?D2 ?h (\<lambda>i. V (?h i)) n"
  have p: "if False then ?P = {} else inj_on ?h {..<n} \<and> ?P = ?P"
    using l(2) by simp
  obtain c3 where c3: "install_trans False (s\<lparr>lbc := c2\<rparr>) = Ok (s\<lparr>lbc := c3\<rparr>)" "cache c3 ?V3 ?D3 {} {}"
      "dwrites c3 = dwrites c2 @ map (\<lambda>i. (?h i, V (?h i))) [0..<n]"
    using install_trans_at [OF c2(2) s(1,2) l(1,3) p lg] by blast
  have st3: "?V3 ?st = ?e"
    using l(3) logblk_region(2) [of ?st] by (subst upd_all_other) auto
  let ?z = "enc_head 0 ?h ?e"
  obtain c4 where c4: "write_head (s\<lparr>lhn := 0, lbc := c3\<rparr>) = Ok (s\<lparr>lhn := 0, lbc := c4\<rparr>)"
      "cache c4 (?V3(?st := ?z)) (?D3(?st := ?z)) {} {}" "dwrites c4 = dwrites c3 @ [(?st, ?z)]"
    using write_head_empty_at [OF c3(2) s(1) st3] by blast
  have W: "dwrites c4 = dwrites (lbc s) @ commit_writes ?st n ?h V"
    by (simp add: c4(3) c3(3) c2(3) c1(3) commit_writes_def)
  have D: "?D3(?st := ?z) = apply_writes D (commit_writes ?st n ?h V)"
    by (simp only: commit_writes_def apply_writes_append apply_writes_one apply_writes_map)
  show ?thesis
    using c1(1) c2(1) c3(1) c4(1,2) s(2,3) W unfolding D by (intro exI [of _ c4] exI [of _ "?V3(?st := ?z)"]) (simp add: commit_def lbc_lhn)
qed

text \<open>What recovery leaves on a disk \<open>d\<close>: the logged blocks installed and an empty header.\<close>

definition installed :: "u32 \<Rightarrow> (u32 \<Rightarrow> block) \<Rightarrow> u32 \<Rightarrow> block" where
  "installed st d = upd_all d (head_block (d st)) (\<lambda>i. d (logblk st i)) (nat (head_n (d st)))"

definition booted :: "lst \<Rightarrow> u32 \<Rightarrow> (u32 \<Rightarrow> block) \<Rightarrow> bool" where
  "booted r st d \<longleftrightarrow> lbc r = binit (zero_bst d) \<and> ldev r = ROOTDEV \<and> lstart r = st"

definition log_wf :: "u32 \<Rightarrow> block \<Rightarrow> bool" where
  "log_wf st b \<longleftrightarrow> head_n b < int LOGSIZE \<and> (\<forall>i < nat (head_n b). head_block b i \<notin> log_region st)"

lemma recover_spec:
  assumes r: "booted r st d" and w: "log_wf st (d st)"
  shows "\<exists>r'. recover_from_log r = Ok r' \<and> lhn r' = 0 \<and> head_n (disk (lbc r') st) = 0 \<and>
    dwrites (lbc r') = map (\<lambda>i. (head_block (d st) i, d (logblk st i))) [0..<nat (head_n (d st))] @ [(st, disk (lbc r') st)] \<and>
    disk (lbc r') = (installed st d)(st := disk (lbc r') st)"
proof -
  let ?n = "nat (head_n (d st))"
  let ?h = "\<lambda>i. if i < ?n then head_block (d st) i else lhblock r i"
  have r: "lbc r = binit (zero_bst d)" "ldev r = ROOTDEV" "lstart r = st"
    using r by (auto simp: booted_def)
  have c0: "cache (lbc r) d d {} {}" "dwrites (lbc r) = []"
    using cache_boot [of d] binit_body [of "zero_bst d"] by (auto simp: r zero_bst_def)
  obtain c1 where c1: "read_head r = Ok (r\<lparr>lhn := head_n (d st), lhblock := ?h, lbc := c1\<rparr>)" "cache c1 d d {} {}" "dwrites c1 = []"
    using read_head_spec [OF c0(1), unfolded r(3)] r c0(2) by (auto simp: NBUF_def MAXOPBLOCKS_def)
  let ?r1 = "r\<lparr>lhn := head_n (d st), lhblock := ?h, lbc := c1\<rparr>"
  have "\<exists>c2. install_trans True ?r1 = Ok (?r1\<lparr>lbc := c2\<rparr>) \<and> cache c2 (installed st d) (installed st d) {} {} \<and>
      dwrites c2 = map (\<lambda>i. (head_block (d st) i, d (logblk st i))) [0..<?n]"
  proof (cases "0 \<le> head_n (d st)")
    case True
    have u: "upd_all d ?h (\<lambda>i. d (logblk st i)) ?n = installed st d"
      unfolding installed_def by (rule upd_all_cong) auto
    have "?n < LOGSIZE" "\<forall>i < ?n. ?h i \<notin> log_region st"
      using w True by (auto simp: log_wf_def)
    with True r install_trans_at [OF c1(2), of ?r1 ?n True "\<lambda>i. d (logblk st i)"] show ?thesis
      by (auto simp: u c1(3) cong: map_cong)
  next
    case False
    then show ?thesis
      using c1(2,3) by (auto simp: install_trans_def install_trans_loop.simps installed_def)
  qed
  then obtain c2 where c2: "install_trans True ?r1 = Ok (?r1\<lparr>lbc := c2\<rparr>)" "cache c2 (installed st d) (installed st d) {} {}"
      "dwrites c2 = map (\<lambda>i. (head_block (d st) i, d (logblk st i))) [0..<?n]"
    by blast
  let ?z = "enc_head 0 ?h (installed st d st)"
  obtain c3 where c3: "write_head (?r1\<lparr>lhn := 0, lbc := c2\<rparr>) = Ok (?r1\<lparr>lhn := 0, lbc := c3\<rparr>)"
      "cache c3 ((installed st d)(st := ?z)) ((installed st d)(st := ?z)) {} {}" "dwrites c3 = dwrites c2 @ [(st, ?z)]"
    using write_head_empty_at [OF c2(2), of ?r1] r by auto
  have disk: "disk c3 = (installed st d)(st := ?z)"
    by (rule cache_disk [OF c3(2)])
  have "head_n ?z = 0"
    using head_enc(1) [of 0] by simp
  then show ?thesis
    using c1(1) c2(1,3) c3(1,3) disk by (intro exI [of _ "?r1\<lparr>lhn := 0, lbc := c3\<rparr>"]) (simp add: recover_from_log_def lbc_lhn)
qed

section \<open>Crashes\<close>

lemma upd_all_covered:
  "\<exists>i < n. f i = b \<Longrightarrow> upd_all V f d n b = upd_all W f d n b"
  by (induction n) (auto simp: less_Suc_eq)

lemma upd_all_absorb: "j \<le> n \<Longrightarrow> upd_all (upd_all V f d j) f d n = upd_all V f d n"
proof
  fix b assume j: "j \<le> n"
  show "upd_all (upd_all V f d j) f d n b = upd_all V f d n b"
  proof (cases "\<exists>i < n. f i = b")
    case True
    then show ?thesis by (rule upd_all_covered)
  next
    case False
    then have "\<And>i. i < n \<Longrightarrow> f i \<noteq> b" "\<And>i. i < j \<Longrightarrow> f i \<noteq> b" using j by auto
    then show ?thesis by (simp add: upd_all_other)
  qed
qed

lemma upd_all_home: "upd_all V f (\<lambda>i. W (f i)) n b = (if \<exists>i < n. f i = b then W b else V b)"
  by (induction n) (auto simp: less_Suc_eq)

text \<open>The prefixes of the writes of a commit: inside the log, inside the installation, or complete.\<close>

lemma commit_prefix:
  assumes "i \<le> length (commit_writes st n hb V)"
  obtains (logging) "i \<le> n" "apply_writes D (take i (commit_writes st n hb V)) = upd_all D (logblk st) (\<lambda>i. V (hb i)) i"
  | (installing) j where "i = n + 1 + j" "j \<le> n" "apply_writes D (take i (commit_writes st n hb V)) =
      upd_all ((upd_all D (logblk st) (\<lambda>i. V (hb i)) n)(st := enc_head n hb (V st))) hb (\<lambda>i. V (hb i)) j"
  | (complete) "i = 2 * n + 2" "apply_writes D (take i (commit_writes st n hb V)) =
      (upd_all ((upd_all D (logblk st) (\<lambda>i. V (hb i)) n)(st := enc_head n hb (V st))) hb (\<lambda>i. V (hb i)) n)
        (st := enc_head 0 hb (enc_head n hb (V st)))"
proof -
  let ?A = "map (\<lambda>i. (logblk st i, V (hb i))) [0..<n]" and ?B = "map (\<lambda>i. (hb i, V (hb i))) [0..<n]"
  have len: "i \<le> 2 * n + 2" using assms by (simp add: commit_writes_def)
  consider "i \<le> n" | "n < i" "i \<le> 2 * n + 1" | "i = 2 * n + 2" using len by linarith
  then show thesis
  proof cases
    case 1
    then have "take i (commit_writes st n hb V) = map (\<lambda>i. (logblk st i, V (hb i))) [0..<i]"
      by (simp add: commit_writes_def take_map)
    then show thesis using logging [OF 1] by (simp add: apply_writes_map)
  next
    case 2
    define j where "j = i - (n + 1)"
    have j: "i = n + 1 + j" "j \<le> n" using 2 by (auto simp: j_def)
    then have "take i (commit_writes st n hb V) = ?A @ [(st, enc_head n hb (V st))] @ map (\<lambda>i. (hb i, V (hb i))) [0..<j]"
      by (simp add: commit_writes_def take_map)
    then show thesis using installing [OF j] by (simp only: apply_writes_append apply_writes_one apply_writes_map)
  next
    case 3
    then have "take i (commit_writes st n hb V) = commit_writes st n hb V" by (simp add: commit_writes_def)
    then show thesis using complete [OF 3] by (simp only: commit_writes_def apply_writes_append apply_writes_one apply_writes_map)
  qed
qed

lemma installed_empty: "head_n (d st) = 0 \<Longrightarrow> installed st d = d" "head_n b = 0 \<Longrightarrow> log_wf st b"
  by (simp_all add: installed_def log_wf_def LOGSIZE_def MAXOPBLOCKS_def)

text \<open>What recovery makes of the disk after a crash at any point of a commit.\<close>

lemma crash_disk:
  assumes ok: "log_ok st n hb" and D: "head_n (D st) = 0" and V: "\<forall>b. b \<notin> hb ` {..<n} \<longrightarrow> V b = D b"
    and i: "i \<le> length (commit_writes st n hb V)"
  defines "d \<equiv> apply_writes D (take i (commit_writes st n hb V))"
  shows "log_wf st (d st)" "b \<notin> log_region st \<Longrightarrow> installed st d b = (if i \<le> n then D b else V b)"
proof -
  note l = log_ok_dest [OF ok]
  let ?L = "\<lambda>k. upd_all D (logblk st) (\<lambda>i. V (hb i)) k"
  have L_out: "?L k b = D b" if "b \<notin> log_region st" "k \<le> n" for k b
    using that l(1) by (intro upd_all_other) (auto simp: log_region_def)
  have L_st: "?L k st = D st" if "k \<le> n" for k
    using that l(1) by (intro upd_all_other) (auto simp: logblk_start)
  let ?e = "enc_head n hb (V st)"
  let ?I = "\<lambda>k. upd_all ((?L n)(st := ?e)) hb (\<lambda>i. V (hb i)) k"
  have hb_out: "hb x \<noteq> c" if "x < n" "c \<in> log_region st" for x c
    using that l(3) by auto
  have I_log: "?I k c = (if c = st then ?e else ?L n c)" if "c \<in> log_region st" "k \<le> n" for k c
    using that hb_out by (subst upd_all_other) auto
  have I_out: "upd_all ((?L n)(st := ?e)) hb (\<lambda>i. V (hb i)) n b = V b" if "b \<notin> log_region st" for b
  proof (cases "b \<in> hb ` {..<n}")
    case False
    moreover have "b \<noteq> st" using that logblk_region(2) by blast
    ultimately show ?thesis using that V False L_out [OF that, of n] by (auto simp: upd_all_home)
  qed (auto simp: upd_all_home)
  have n31: "n < 2 ^ 31" using l(1) by (simp add: LOGSIZE_def MAXOPBLOCKS_def)
  have "log_wf st (d st) \<and> (b \<notin> log_region st \<longrightarrow> installed st d b = (if i \<le> n then D b else V b))"
    using i
  proof (cases rule: commit_prefix [where D = D])
    case logging
    then have "d = ?L i" by (simp add: d_def)
    then show ?thesis using logging(1) D L_st L_out installed_empty(1) [of d st] installed_empty(2) [of "d st" st] by auto
  next
    case (installing j)
    have d: "d = ?I j" unfolding d_def by (rule installing(3))
    have st: "d st = ?e" using I_log [of st j] logblk_region(2) installing(2) d by simp
    have h: "head_n (d st) = int n" "\<And>x. x < n \<Longrightarrow> head_block (d st) x = hb x"
      using head_enc [OF n31] by (simp_all add: st)
    have lg: "d (logblk st x) = V (hb x)" if "x < n" for x
      using I_log [of "logblk st x" j] that l(1) installing(2) logblk_region(1) [of x st] logblk_start [of x st]
        upd_all_at [OF logblk_inj_on [OF l(1)] that] by (simp add: d)
    have "installed st d = upd_all d hb (\<lambda>i. V (hb i)) n"
      unfolding installed_def h(1) nat_int using h(2) lg by (intro upd_all_cong)
    also have "\<dots> = ?I n" unfolding d by (rule upd_all_absorb [OF installing(2)])
    finally show ?thesis using I_out installing(1) h l(1,3) by (simp add: log_wf_def)
  next
    case complete
    have d: "d = (?I n)(st := enc_head 0 hb ?e)" unfolding d_def by (rule complete(2))
    have h: "head_n (d st) = 0" using head_enc(1) [of 0 hb ?e] by (simp add: d)
    have "b \<noteq> st" if "b \<notin> log_region st" using that logblk_region(2) by blast
    then show ?thesis using I_out [of b] complete(1) installed_empty(1) [of d st] installed_empty(2) [of "d st" st] h by (auto simp: d)
  qed
  then show "log_wf st (d st)" "b \<notin> log_region st \<Longrightarrow> installed st d b = (if i \<le> n then D b else V b)" by auto
qed

text \<open>
  C3: the commit of a transaction is atomic with respect to crashes. Whatever prefix of the disk writes
  of commit has reached the disk, a reboot that runs recover_from_log succeeds, empties the log, and
  leaves every block outside the log with its old contents when the crash came before the header was
  written, and with the contents the transaction gave it afterwards.\<close>

theorem commit_crash_atomic:
  assumes "cache (lbc s) V D (lhblock s ` {..<n}) {}" "ldev s = ROOTDEV" "lhn s = int n" "0 < n"
    "log_ok (lstart s) n (lhblock s)" "head_n (D (lstart s)) = 0"
  shows "\<exists>s' W. commit s = Ok s' \<and> lhn s' = 0 \<and> dwrites (lbc s') = dwrites (lbc s) @ W \<and> disk (lbc s') = apply_writes D W \<and>
    (\<forall>i r. i \<le> length W \<and> booted r (lstart s) (apply_writes D (take i W)) \<longrightarrow>
       (\<exists>r'. recover_from_log r = Ok r' \<and> head_n (disk (lbc r') (lstart s)) = 0 \<and>
          (\<forall>b. b \<notin> log_region (lstart s) \<longrightarrow> disk (lbc r') b = (if i \<le> n then D b else V b))))"
proof -
  let ?st = "lstart s" and ?W = "commit_writes (lstart s) n (lhblock s) V"
  obtain c' V' where c': "commit s = Ok (s\<lparr>lhn := 0, lbc := c'\<rparr>)" "cache c' V' (apply_writes D ?W) {} {}"
      "dwrites c' = dwrites (lbc s) @ ?W"
    using commit_spec [OF assms(1-5)] by blast
  have V: "\<forall>b. b \<notin> lhblock s ` {..<n} \<longrightarrow> V b = D b"
    using cache_view_disk [OF assms(1)] by simp
  have "\<exists>r'. recover_from_log r = Ok r' \<and> head_n (disk (lbc r') ?st) = 0 \<and>
      (\<forall>b. b \<notin> log_region ?st \<longrightarrow> disk (lbc r') b = (if i \<le> n then D b else V b))"
    if i: "i \<le> length ?W" and r: "booted r ?st (apply_writes D (take i ?W))" for i r
  proof -
    note cd = crash_disk [OF assms(5,6) V i]
    obtain r' where r': "recover_from_log r = Ok r'" "head_n (disk (lbc r') ?st) = 0"
        "disk (lbc r') = (installed ?st (apply_writes D (take i ?W)))(?st := disk (lbc r') ?st)"
      using recover_spec [OF r cd(1)] by blast
    have "disk (lbc r') b = (if i \<le> n then D b else V b)" if b: "b \<notin> log_region ?st" for b
    proof -
      have "b \<noteq> ?st" using b logblk_region(2) by blast
      then show ?thesis using fun_cong [OF r'(3), of b] cd(2) [OF b] by simp
    qed
    then show ?thesis using r'(1,2) by blast
  qed
  then show ?thesis
    using c'(1,3) cache_disk [OF c'(2)] by (intro exI [of _ "s\<lparr>lhn := 0, lbc := c'\<rparr>"] exI [of _ ?W]) simp
qed

section \<open>Transactions\<close>

text \<open>Inside a transaction: the blocks logged so far are pinned in the cache, each once.\<close>

definition txn :: "lst \<Rightarrow> (u32 \<Rightarrow> block) \<Rightarrow> (u32 \<Rightarrow> block) \<Rightarrow> u32 set \<Rightarrow> u32 set \<Rightarrow> bool" where
  "txn l V D P H \<longleftrightarrow> ldev l = ROOTDEV \<and> 1 \<le> outstanding l \<and> lhn l = int (card P) \<and>
     inj_on (lhblock l) {..<card P} \<and> P = lhblock l ` {..<card P} \<and> cache (lbc l) V D P H"

definition same_log :: "lst \<Rightarrow> lst \<Rightarrow> bool" where
  "same_log l l' \<longleftrightarrow> lstart l' = lstart l \<and> lsize l' = lsize l \<and> outstanding l' = outstanding l \<and>
     committing l' = committing l \<and> dwrites (lbc l') = dwrites (lbc l)"

lemma same_log_trans: "same_log a b \<Longrightarrow> same_log b c \<Longrightarrow> same_log a c"
  by (simp add: same_log_def)

definition log_space :: "lst \<Rightarrow> nat \<Rightarrow> bool" where
  "log_space l k \<longleftrightarrow> int k < int LOGSIZE \<and> int k < lsize l - 1"

lemma absorb_index_spec:
  "k \<le> n \<Longrightarrow> (let i = absorb_index blk bno n k in
     n - k \<le> i \<and> i < n \<and> blk i = bno \<or> i = n \<and> (\<forall>j. n - k \<le> j \<and> j < n \<longrightarrow> blk j \<noteq> bno))"
proof (induction k)
  case (Suc k)
  have "j = n - Suc k \<or> n - k \<le> j" if "n - Suc k \<le> j" for j using that by arith
  moreover have "n - Suc k < n" using Suc.prems by simp
  ultimately show ?case using Suc by (auto simp: Let_def)
qed (auto simp: Let_def)

lemma absorb_index:
  "absorb_index blk bno n n < n \<and> blk (absorb_index blk bno n n) = bno \<or>
   absorb_index blk bno n n = n \<and> bno \<notin> blk ` {..<n}"
  using absorb_index_spec [of n n blk bno] by (auto simp: Let_def)

lemma log_write_spec:
  assumes t: "txn l V D P H" and H: "bno \<in> H" and b: "buffer (lbc l) b bno" and room: "log_space l (card P)"
  shows "\<exists>l'. log_write b l = Ok l' \<and> txn l' V D (insert bno P) H \<and> same_log l l' \<and>
    (\<forall>x m. buffer (lbc l') x m = buffer (lbc l) x m) \<and> (\<forall>x. bdata (bufs (lbc l') x) = bdata (bufs (lbc l) x))"
proof -
  let ?n = "card P" and ?blk = "lhblock l"
  let ?i = "absorb_index ?blk bno ?n ?n"
  have n: "ldev l = ROOTDEV" "1 \<le> outstanding l" "lhn l = int ?n" "inj_on ?blk {..<?n}" "P = ?blk ` {..<?n}" and c: "cache (lbc l) V D P H"
    using t by (simp_all add: txn_def)
  have bno: "blockno (bufs (lbc l) b) = bno" using b by (simp add: buffer_def holds_block_def)
  have lw: "log_write b l = (if int ?i = lhn l
      then Ok (l\<lparr>lhblock := ?blk(?i := bno), lbc := bpin b (lbc l), lhn := lhn l + 1\<rparr>) else Ok (l\<lparr>lhblock := ?blk(?i := bno)\<rparr>))"
    using room n by (simp add: log_write_def log_space_def bno Let_def)
  show ?thesis
  proof (cases "bno \<in> P")
    case True
    then have "bno \<in> ?blk ` {..<?n}" using n(5) by blast
    then have i: "?i < ?n" "?blk ?i = bno" using absorb_index [of ?blk bno ?n] by auto
    then have "?blk(?i := bno) = ?blk" by auto
    then show ?thesis using lw i n c True by (intro exI [of _ l]) (auto simp: txn_def same_log_def insert_absorb)
  next
    case False
    have mem: "?blk x \<in> P" if "x < ?n" for x using n(5) that by blast
    have i: "?i = ?n" using absorb_index [of ?blk bno ?n] False mem [of ?i] by metis
    have fin: "finite P" using n(5) by (metis finite_imageI finite_lessThan)
    then have card: "card (insert bno P) = Suc ?n" using False by simp
    define f where "f = ?blk(?n := bno)"
    have "f ` {..<?n} = ?blk ` {..<?n}" by (intro image_cong) (auto simp: f_def)
    also have "\<dots> = P" by (rule n(5) [symmetric])
    finally have fn: "f ` {..<?n} = P" .
    have P: "f ` {..<Suc ?n} = insert bno P" unfolding lessThan_Suc image_insert fn by (simp add: f_def)
    have "inj_on f {..<?n}" using n(4) by (auto simp: inj_on_def f_def)
    moreover have "f ?n \<notin> f ` {..<?n}" unfolding fn using False by (simp add: f_def)
    ultimately have inj: "inj_on f {..<Suc ?n}" unfolding lessThan_Suc by (subst inj_on_insert) auto
    note p = cache_pin [OF c H False b]
    have "txn (l\<lparr>lhblock := f, lbc := bpin b (lbc l), lhn := lhn l + 1\<rparr>) V D (insert bno P) H"
      using n(1-3) p(1) P inj by (simp add: txn_def card)
    then show ?thesis using lw i n(3) p(2-4) by (simp add: same_log_def f_def)
  qed
qed

text \<open>A block read, replaced and logged, as the file system does it.\<close>

definition log_update :: "u32 \<Rightarrow> block \<Rightarrow> lst \<Rightarrow> lst kres" where
  "log_update bno d l =
     kbind (bread ROOTDEV bno (lbc l)) (\<lambda>(b, c).
     kbind (log_write b (l\<lparr>lbc := set_data b d c\<rparr>)) (\<lambda>l.
     kbind (brelse b (lbc l)) (\<lambda>c. Ok (l\<lparr>lbc := c\<rparr>))))"

lemma txn_cache: "txn l V D P H \<Longrightarrow> cache (lbc l) V D P H"
  by (simp add: txn_def)

lemma txn_lbc: "txn l V D P H \<Longrightarrow> cache c V' D' P H' \<Longrightarrow> txn (l\<lparr>lbc := c\<rparr>) V' D' P H'"
  by (simp add: txn_def)

lemma log_update_spec:
  assumes t: "txn l V D P H" and bno: "bno \<notin> H" and room: "log_space l (card P)" "card (P \<union> H) < NBUF"
  shows "\<exists>l'. log_update bno d l = Ok l' \<and> txn l' (V(bno := d)) D (insert bno P) H \<and> same_log l l'"
proof -
  have "bno \<in> P \<or> card (P \<union> H) < NBUF" using room(2) by simp
  from bc.rd [OF txn_cache [OF t] bno this] obtain b c where c: "bread ROOTDEV bno (lbc l) = Ok (b, c)"
      "cache c V D P (insert bno H)" "buffer c b bno" "dwrites c = dwrites (lbc l)"
    by blast
  let ?l = "l\<lparr>lbc := set_data b d c\<rparr>"
  have h: "bno \<in> insert bno H" by simp
  note f = bc.fill [OF c(2) h c(3), of d]
  have t1: "txn ?l (V(bno := d)) D P (insert bno H)" using txn_lbc [OF t f(1)] .
  have b1: "buffer (lbc ?l) b bno" "log_space ?l (card P)" using f(3) c(3) room(1) by (simp_all add: log_space_def)
  obtain l2 where l2: "log_write b ?l = Ok l2" "txn l2 (V(bno := d)) D (insert bno P) (insert bno H)" "same_log ?l l2" "buffer (lbc l2) b bno"
    using log_write_spec [OF t1 h b1] b1(1) by auto
  have "bno \<notin> insert bno P \<Longrightarrow> (V(bno := d)) bno = D bno" by simp
  from bc.relse [OF txn_cache [OF l2(2)] h l2(4) this] obtain c3 where c3: "brelse b (lbc l2) = Ok c3"
      "cache c3 (V(bno := d)) D (insert bno P) (insert bno H - {bno})" "dwrites c3 = dwrites (lbc l2)"
    by blast
  have "insert bno H - {bno} = H" using bno by auto
  then have "txn (l2\<lparr>lbc := c3\<rparr>) (V(bno := d)) D (insert bno P) H" using txn_lbc [OF l2(2) c3(2)] by simp
  moreover have "same_log l (l2\<lparr>lbc := c3\<rparr>)" using l2(3) c(4) f(2) c3(3) by (simp add: same_log_def)
  ultimately show ?thesis using c(1) l2(1) c3(1) by (intro exI [of _ "l2\<lparr>lbc := c3\<rparr>"]) (simp add: log_update_def)
qed

section \<open>A transaction that crashes, and one that is too big\<close>

lemma log_region_card: "card (log_region st) = LOGSIZE"
proof -
  have "inj_on (logblk st) {..<LOGSIZE - 1}" by (rule inj_onI) (auto simp: logblk_inj)
  moreover have "st \<notin> logblk st ` {..<LOGSIZE - 1}" using logblk_start [of _ st, symmetric] by auto
  ultimately show ?thesis by (simp add: log_region_def card_image LOGSIZE_def MAXOPBLOCKS_def)
qed

lemma log_region_bound:
  assumes "b \<in> log_region st" "unat st + LOGSIZE \<le> 2 ^ 32"
  shows "unat b < unat st + LOGSIZE"
proof (cases "b = st")
  case False
  then obtain i where i: "i < LOGSIZE - 1" "b = st + of_nat (Suc i)"
    using assms(1) by (auto simp: log_region_def logblk_def add.assoc add.commute)
  then have "unat b = unat st + Suc i"
    using assms(2) by (simp add: unat_word_ariths(1) unat_of_nat del: of_nat_Suc)
  then show ?thesis using i(1) by simp
qed (simp add: LOGSIZE_def MAXOPBLOCKS_def)

definition demo_log :: lst where
  "demo_log = \<lparr>lbc = binit (zero_bst (\<lambda>_ _. 0)), lstart = 2, lsize = 30, outstanding = 1, committing = False,
     ldev = ROOTDEV, lhn = 0, lhblock = (\<lambda>_. 0), lwakes = 0\<rparr>"

lemma demo_log_txn: "txn demo_log (\<lambda>_ _. 0) (\<lambda>_ _. 0) {} {}"
  using cache_boot [of "\<lambda>_ _. 0"] by (simp add: txn_def demo_log_def)

theorem commit_crash_atomic_witness:
  "\<exists>s s' W. log_update 32 (\<lambda>_. 7) demo_log = Ok s \<and> commit s = Ok s' \<and> dwrites (lbc s') = dwrites (lbc s) @ W \<and>
    (\<forall>i r. i \<le> length W \<and> booted r 2 (apply_writes (\<lambda>_ _. 0) (take i W)) \<longrightarrow>
       (\<exists>r'. recover_from_log r = Ok r' \<and> disk (lbc r') 32 = (if i \<le> 1 then (\<lambda>_. 0) else (\<lambda>_. 7))))"
proof -
  have room: "log_space demo_log (card ({} :: u32 set))" "card ({} \<union> {} :: u32 set) < NBUF" "(32 :: u32) \<notin> {}"
    by (simp_all add: log_space_def demo_log_def LOGSIZE_def NBUF_def MAXOPBLOCKS_def)
  obtain s where s: "log_update 32 (\<lambda>_. 7) demo_log = Ok s" "txn s ((\<lambda>_ _. 0)(32 := (\<lambda>_. 7))) (\<lambda>_ _. 0) {32} {}" "same_log demo_log s"
    using log_update_spec [OF demo_log_txn room(3,1,2)] by blast
  have hb: "lhblock s ` {..<1} = {32}" "lhblock s 0 = 32" "lstart s = 2" "lhn s = int 1" "ldev s = ROOTDEV"
    using s(2,3) by (auto simp: txn_def same_log_def demo_log_def lessThan_Suc)
  have "32 \<notin> log_region 2"
    using log_region_bound [of 32 2] by (auto simp: LOGSIZE_def MAXOPBLOCKS_def)
  then have "log_ok (lstart s) 1 (lhblock s)"
    using hb by (simp add: log_ok_def LOGSIZE_def MAXOPBLOCKS_def inj_on_def)
  moreover have "cache (lbc s) ((\<lambda>_ _. 0)(32 := (\<lambda>_. 7))) (\<lambda>_ _. 0) (lhblock s ` {..<1}) {}"
    using txn_cache [OF s(2)] hb(1) by simp
  moreover have "head_n (\<lambda>_. 0) = 0"
    by (simp add: head_n_def get32_def bbytes_def upt_rec)
  ultimately obtain s' W where w: "commit s = Ok s'" "dwrites (lbc s') = dwrites (lbc s) @ W"
      "\<forall>i r. i \<le> length W \<and> booted r (lstart s) (apply_writes (\<lambda>_ _. 0) (take i W)) \<longrightarrow>
       (\<exists>r'. recover_from_log r = Ok r' \<and> head_n (disk (lbc r') (lstart s)) = 0 \<and>
          (\<forall>b. b \<notin> log_region (lstart s) \<longrightarrow> disk (lbc r') b = (if i \<le> 1 then (\<lambda>_. 0) else ((\<lambda>_ _. 0)(32 := (\<lambda>_. 7))) b)))"
    using commit_crash_atomic [of s "(\<lambda>_ _. 0)(32 := (\<lambda>_. 7))" "\<lambda>_ _. 0" 1] hb(4,5) by auto
  have "\<exists>r'. recover_from_log r = Ok r' \<and> disk (lbc r') 32 = (if i \<le> 1 then (\<lambda>_. 0) else (\<lambda>_. 7))"
    if i: "i \<le> length W" and r: "booted r 2 (apply_writes (\<lambda>_ _. 0) (take i W))" for i r
  proof -
    obtain r' where "recover_from_log r = Ok r'" "disk (lbc r') 32 = (if i \<le> 1 then (\<lambda>_. 0) else ((\<lambda>_ _. 0)(32 := (\<lambda>_. 7))) (32 :: u32))"
      using w(3) i r \<open>32 \<notin> log_region 2\<close> unfolding hb(3) by blast
    then show ?thesis by auto
  qed
  then show ?thesis using s(1) w(1,2) by blast
qed

text \<open>
  C13: recovery can itself be interrupted. If a crash leaves any prefix of the disk writes of
  recover_from_log on the disk, running it again after the next reboot gives every block outside the
  log the contents the first recovery would have given it.\<close>

theorem recovery_idempotent:
  assumes "booted r st d" "log_wf st (d st)" "recover_from_log r = Ok r'" "i \<le> length (dwrites (lbc r'))"
    "booted q st (apply_writes d (take i (dwrites (lbc r'))))"
  shows "\<exists>q'. recover_from_log q = Ok q' \<and> head_n (disk (lbc q') st) = 0 \<and>
    (\<forall>b. b \<notin> log_region st \<longrightarrow> disk (lbc q') b = disk (lbc r') b)"
proof -
  let ?n = "nat (head_n (d st))" and ?h = "head_block (d st)"
  let ?L = "\<lambda>i. d (logblk st i)"
  let ?d = "apply_writes d (take i (dwrites (lbc r')))"
  have r': "head_n (disk (lbc r') st) = 0" "disk (lbc r') = (installed st d)(st := disk (lbc r') st)"
      "dwrites (lbc r') = map (\<lambda>i. (?h i, ?L i)) [0..<?n] @ [(st, disk (lbc r') st)]"
    using recover_spec [OF assms(1,2)] assms(3) by auto
  have n: "?n < LOGSIZE" "\<And>j. j < ?n \<Longrightarrow> ?h j \<notin> log_region st"
    using assms(2) by (auto simp: log_wf_def LOGSIZE_def MAXOPBLOCKS_def)
  have inst: "installed st d b = disk (lbc r') b" if "b \<notin> log_region st" for b
    using fun_cong [OF r'(2), of b] that logblk_region(2) [of st] by auto
  have "log_wf st (?d st) \<and> (\<forall>b. b \<notin> log_region st \<longrightarrow> installed st ?d b = disk (lbc r') b)"
  proof (cases "i \<le> ?n")
    case True
    have d: "?d = upd_all d ?h ?L i"
      using True by (simp add: r'(3) take_map apply_writes_map)
    have log: "?d c = d c" if "c \<in> log_region st" for c
      unfolding d using that n(2) True by (intro upd_all_other) auto
    have "installed st ?d = upd_all ?d ?h ?L ?n"
      unfolding installed_def log [OF logblk_region(2)]
      using log logblk_region(1) n(1) by (intro upd_all_cong) auto
    also have "\<dots> = installed st d"
      unfolding d installed_def by (rule upd_all_absorb [OF True])
    finally show ?thesis
      using inst assms(2) log [OF logblk_region(2)] by simp
  next
    case False
    then have "?d = (installed st d)(st := disk (lbc r') st)"
      using assms(4) by (simp add: r'(3) apply_writes_append apply_writes_map installed_def del: fun_upd_apply)
    then have "?d = disk (lbc r')" using r'(2) by simp
    then show ?thesis using r'(1) installed_empty(1) [of "disk (lbc r')" st] installed_empty(2) by simp
  qed
  then obtain q' where "recover_from_log q = Ok q'" "head_n (disk (lbc q') st) = 0" "disk (lbc q') = (installed st ?d)(st := disk (lbc q') st)"
      "\<forall>b. b \<notin> log_region st \<longrightarrow> installed st ?d b = disk (lbc r') b"
    using recover_spec [OF assms(5)] by blast
  moreover have "b \<noteq> st" if "b \<notin> log_region st" for b using that logblk_region(2) by blast
  ultimately show ?thesis by (metis fun_upd_other)
qed

definition crashed_disk :: "u32 \<Rightarrow> block" where
  "crashed_disk = (\<lambda>_ _. 0)(2 := enc_head 1 (\<lambda>_. 32) (\<lambda>_. 0), 3 := (\<lambda>_. 7))"

definition reboot :: "(u32 \<Rightarrow> block) \<Rightarrow> lst" where
  "reboot d = demo_log\<lparr>lbc := binit (zero_bst d)\<rparr>"

lemma reboot_booted: "booted (reboot d) 2 d"
  by (simp add: booted_def reboot_def demo_log_def)

theorem recovery_idempotent_witness:
  "\<exists>r' q'. recover_from_log (reboot crashed_disk) = Ok r' \<and>
    recover_from_log (reboot (apply_writes crashed_disk (take 1 (dwrites (lbc r'))))) = Ok q' \<and> disk (lbc q') 32 = disk (lbc r') 32"
proof -
  have h: "head_n (crashed_disk 2) = 1" "head_block (crashed_disk 2) 0 = 32"
    using head_enc(1) [of 1 "\<lambda>_. 32" "\<lambda>_. 0"] head_enc(2) [of 1 0 "\<lambda>_. 32" "\<lambda>_. 0"] by (simp_all add: crashed_disk_def)
  have out: "32 \<notin> log_region 2"
    using log_region_bound [of 32 2] by (auto simp: LOGSIZE_def MAXOPBLOCKS_def)
  then have w: "log_wf 2 (crashed_disk 2)" using h by (simp add: log_wf_def LOGSIZE_def MAXOPBLOCKS_def)
  obtain r' where r': "recover_from_log (reboot crashed_disk) = Ok r'"
      "dwrites (lbc r') = map (\<lambda>i. (head_block (crashed_disk 2) i, crashed_disk (logblk 2 i))) [0..<nat (head_n (crashed_disk 2))] @ [(2, disk (lbc r') 2)]"
    using recover_spec [OF reboot_booted [of crashed_disk] w] by blast
  then have "1 \<le> length (dwrites (lbc r'))" by simp
  from recovery_idempotent [OF reboot_booted [of crashed_disk] w r'(1) this reboot_booted] out r'(1) show ?thesis by blast
qed

text \<open>Three system calls that each begin an operation, and a sequence of logged block updates.\<close>

definition begin_op3 :: "lst \<Rightarrow> lst kres" where
  "begin_op3 l = kbind (begin_op l) (\<lambda>l. kbind (begin_op l) begin_op)"

primrec log_updates :: "(u32 \<times> block) list \<Rightarrow> lst \<Rightarrow> lst kres" where
  "log_updates [] l = Ok l"
| "log_updates (w # ws) l = kbind (log_update (fst w) (snd w) l) (log_updates ws)"

lemma log_updates_append: "log_updates (us @ ws) l = kbind (log_updates us l) (log_updates ws)"
proof (induction us arbitrary: l)
  case (Cons u us)
  then show ?case by (cases "log_update (fst u) (snd u) l") simp_all
qed simp

text \<open>As long as the blocks fit in the log, all updates are logged; the first that does not is a panic.\<close>

lemma log_updates_fit:
  assumes "txn l V D P {}" "finite P" "distinct (map fst ws)" "fst ` set ws \<inter> P = {}" "lsize l = int LOGSIZE"
    "card P + length ws < LOGSIZE"
  shows "\<exists>l' V'. log_updates ws l = Ok l' \<and> txn l' V' D (P \<union> fst ` set ws) {} \<and> same_log l l' \<and>
    card (P \<union> fst ` set ws) = card P + length ws"
  using assms
proof (induction ws arbitrary: l V P)
  case (Cons w ws)
  let ?P = "insert (fst w) P"
  have room: "log_space l (card P)" "card (P \<union> {}) < NBUF" "fst w \<notin> {}"
    using Cons.prems(5,6) by (simp_all add: log_space_def LOGSIZE_def MAXOPBLOCKS_def NBUF_def)
  obtain l1 where l1: "log_update (fst w) (snd w) l = Ok l1" "txn l1 (V(fst w := snd w)) D ?P {}" "same_log l l1"
    using log_update_spec [OF Cons.prems(1) room(3,1,2)] by blast
  have c: "card ?P = Suc (card P)" using Cons.prems(2,4) by auto
  have "\<exists>l' V'. log_updates ws l1 = Ok l' \<and> txn l' V' D (?P \<union> fst ` set ws) {} \<and> same_log l1 l' \<and>
      card (?P \<union> fst ` set ws) = card ?P + length ws"
    using Cons.prems l1(3) c by (intro Cons.IH [OF l1(2)]) (auto simp: same_log_def)
  then show ?case using l1(1) same_log_trans [OF l1(3)] c by auto
qed (auto simp: same_log_def)

lemma log_update_full:
  assumes t: "txn l V D P {}" and full: "int (card P) = lsize l - 1" "card P < NBUF"
  shows "log_update bno d l = Panic ''too big a transaction''"
proof -
  have "bno \<in> P \<or> card (P \<union> {}) < NBUF" "bno \<notin> {}" using full(2) by simp_all
  from bc.rd [OF txn_cache [OF t] this(2,1)] obtain b c where "bread ROOTDEV bno (lbc l) = Ok (b, c)" by blast
  moreover have "lhn l = lsize l - 1" using t full(1) by (simp add: txn_def)
  ultimately show ?thesis by (simp add: log_update_def log_write_def)
qed

lemma begin_op3_idle:
  assumes "outstanding l = 0" "lhn l = 0" "\<not> committing l"
  shows "begin_op3 l = Ok (l\<lparr>outstanding := 3\<rparr>)"
  using assms by (simp add: begin_op3_def begin_op_def LOGSIZE_def MAXOPBLOCKS_def)

text \<open>
  C33: the reservation of begin_op is one block too generous. On an idle, empty log of the size that
  mkfs makes, three system calls are admitted at once. If they then update MAXOPBLOCKS different blocks
  each, in any order, every update but the last is logged, and the last one panics.\<close>

theorem log_reservation_too_generous:
  assumes "cache (lbc l) V D {} {}" "ldev l = ROOTDEV" "lsize l = int LOGSIZE" "lhn l = 0" "outstanding l = 0" "\<not> committing l"
    and ws: "length ws = 3 * MAXOPBLOCKS" "distinct (map fst ws)"
  shows "\<exists>l3 l'. begin_op3 l = Ok l3 \<and> outstanding l3 = 3 \<and> log_updates (butlast ws) l3 = Ok l' \<and>
    log_updates ws l3 = Panic ''too big a transaction''"
proof -
  let ?l3 = "l\<lparr>outstanding := 3\<rparr>" and ?us = "butlast ws"
  have t: "txn ?l3 V D {} {}" using assms by (simp add: txn_def)
  have us: "distinct (map fst ?us)" "length ?us = LOGSIZE - 1"
    using ws by (auto simp: map_butlast distinct_butlast LOGSIZE_def MAXOPBLOCKS_def)
  have "ws \<noteq> []" using ws(1) by (auto simp: MAXOPBLOCKS_def)
  then have w: "ws = ?us @ [last ws]" by simp
  have pre: "finite ({} :: u32 set)" "fst ` set ?us \<inter> {} = {}" "lsize ?l3 = int LOGSIZE" "card ({} :: u32 set) + length ?us < LOGSIZE"
    using assms(3) us(2) by (simp_all add: LOGSIZE_def MAXOPBLOCKS_def)
  obtain l' V' where l': "log_updates ?us ?l3 = Ok l'" "txn l' V' D ({} \<union> fst ` set ?us) {}" "same_log ?l3 l'"
      "card ({} \<union> fst ` set ?us) = card ({} :: u32 set) + length ?us"
    using log_updates_fit [OF t pre(1) us(1) pre(2-4)] by blast
  have "log_update (fst (last ws)) (snd (last ws)) l' = Panic ''too big a transaction''"
    using l'(3,4) us(2) assms(3)
    by (intro log_update_full [OF l'(2)]) (simp_all add: same_log_def LOGSIZE_def MAXOPBLOCKS_def NBUF_def)
  then have "log_updates ws ?l3 = Panic ''too big a transaction''"
    by (subst w) (simp add: log_updates_append l'(1))
  then show ?thesis using begin_op3_idle assms l'(1) by auto
qed

lemma map_of_nat_upt:
  "n \<le> 2 ^ 32 \<Longrightarrow> distinct (map fst (map (\<lambda>i. (of_nat i :: u32, d)) [m..<n]))"
  "n = Suc k \<Longrightarrow> butlast (map (\<lambda>i. (of_nat i :: u32, d)) [m..<n]) = map (\<lambda>i. (of_nat i, d)) [m..<k]"
proof -
  assume n: "n \<le> 2 ^ 32"
  have "inj_on (of_nat :: nat \<Rightarrow> u32) {m..<n}"
  proof (rule inj_onI)
    fix i j assume ij: "i \<in> {m..<n}" "j \<in> {m..<n}" "(of_nat i :: u32) = of_nat j"
    then have "unat (of_nat i :: u32) = unat (of_nat j :: u32)" by simp
    then show "i = j" using ij(1,2) n by (simp add: unat_of_nat)
  qed
  then show "distinct (map fst (map (\<lambda>i. (of_nat i :: u32, d)) [m..<n]))" by (simp add: distinct_map o_def)
qed (cases "m \<le> k"; simp)

theorem log_reservation_too_generous_witness:
  "\<exists>l3 l'. begin_op3 (demo_log\<lparr>outstanding := 0\<rparr>) = Ok l3 \<and> outstanding l3 = 3 \<and>
    log_updates (map (\<lambda>i. (of_nat i, \<lambda>_. 7)) [46..<75]) l3 = Ok l' \<and>
    log_updates (map (\<lambda>i. (of_nat i, \<lambda>_. 7)) [46..<76]) l3 = Panic ''too big a transaction''"
proof -
  let ?ws = "\<lambda>n. map (\<lambda>i. (of_nat i, \<lambda>_. 7)) [46..<n] :: (u32 \<times> block) list"
  let ?l = "demo_log\<lparr>outstanding := 0\<rparr>"
  have l: "cache (lbc ?l) (\<lambda>_ _. 0) (\<lambda>_ _. 0) {} {}" "ldev ?l = ROOTDEV" "lsize ?l = int LOGSIZE" "lhn ?l = 0"
      "outstanding ?l = 0" "\<not> committing ?l"
    using txn_cache [OF demo_log_txn] by (simp_all add: demo_log_def LOGSIZE_def MAXOPBLOCKS_def)
  have ws: "length (?ws 76) = 3 * MAXOPBLOCKS" "distinct (map fst (?ws 76))" "butlast (?ws 76) = ?ws 75"
  proof -
    show "length (?ws 76) = 3 * MAXOPBLOCKS" by (simp only: length_map length_upt MAXOPBLOCKS_def)
    show "distinct (map fst (?ws 76))" by (rule map_of_nat_upt(1)) simp
    show "butlast (?ws 76) = ?ws 75" by (rule map_of_nat_upt(2)) simp
  qed
  show ?thesis using log_reservation_too_generous [OF l ws(1,2)] unfolding ws(3) .
qed

end
