(* ===== verification/Fs.thy ===== *)
theory Fs
  imports Log Vm_Byte
begin

text \<open>
  The file system (kernel/fs.c): block allocator, inodes and their content, directories and path
  names, over the log and the buffer cache. In-memory inodes are addressed by their index in the
  inode table. The data of a buffer is part of kernel memory: where the code passes \<open>bp->data\<close> to a
  copy routine, the block is laid out at the address the environment gives for that buffer, and
  taken back from there afterwards. Path names are byte lists without the terminating NUL; a name
  is the array of \<open>DIRSIZ\<close> bytes. The model follows one process; printf is a list of messages.
\<close>

unbundle bit_operations_syntax

section \<open>Constants and on-disk layout (kernel/fs.h, kernel/stat.h)\<close>

definition ROOTINO :: u32 where "ROOTINO = 1"
definition FSMAGIC :: u32 where "FSMAGIC = 0x10203040"
definition NDIRECT :: nat where "NDIRECT = 12"
definition NINDIRECT :: nat where "NINDIRECT = BSIZE div 4"
definition MAXFILE :: nat where "MAXFILE = NDIRECT + NINDIRECT"
definition sizeof_dinode :: nat where "sizeof_dinode = 4 * 2 + 4 + 4 * (NDIRECT + 1)"
definition IPB :: nat where "IPB = BSIZE div sizeof_dinode"
definition BPB :: nat where "BPB = BSIZE * 8"
definition DIRSIZ :: nat where "DIRSIZ = 14"
definition sizeof_dirent :: nat where "sizeof_dirent = 2 + DIRSIZ"
definition NINODE :: nat where "NINODE = 50"
definition T_DIR :: u16 where "T_DIR = 1"
definition T_FILE :: u16 where "T_FILE = 2"
definition T_DEVICE :: u16 where "T_DEVICE = 3"

definition IBLOCK :: "u32 \<Rightarrow> superblock \<Rightarrow> u32" where
  "IBLOCK i sb = i div of_nat IPB + inodestart sb"

definition BBLOCK :: "u32 \<Rightarrow> superblock \<Rightarrow> u32" where
  "BBLOCK b sb = b div of_nat BPB + bmapstart sb"

record dinode =
  dtype :: u16
  dmajor :: u16
  dminor :: u16
  dnlink :: u16
  dsize :: u32
  daddrs :: "nat \<Rightarrow> u32"

text \<open>The \<open>i\<close>-th \<open>struct dinode\<close> of a block: the pointer \<^verbatim>\<open>(struct dinode*)bp->data + i\<close>.\<close>

definition get_dinode :: "block \<Rightarrow> nat \<Rightarrow> dinode" where
  "get_dinode d i =
     (let p = sizeof_dinode * i
      in \<lparr>dtype = get16 d p, dmajor = get16 d (p + 2), dminor = get16 d (p + 4), dnlink = get16 d (p + 6),
          dsize = get32 d (p + 8), daddrs = (\<lambda>j. get32 d (p + 12 + 4 * j))\<rparr>)"

definition put_dinode :: "nat \<Rightarrow> dinode \<Rightarrow> block \<Rightarrow> block" where
  "put_dinode i x d =
     (let p = sizeof_dinode * i;
          d = put16 p (dtype x) d;
          d = put16 (p + 2) (dmajor x) d;
          d = put16 (p + 4) (dminor x) d;
          d = put16 (p + 6) (dnlink x) d;
          d = put32 (p + 8) (dsize x) d
      in fold (\<lambda>j. put32 (p + 12 + 4 * j) (daddrs x j)) [0..<NDIRECT + 1] d)"

section \<open>State\<close>

record inode =
  idev :: u32
  inum :: u32
  iref :: int
  ilk :: bool
  ivalid :: bool
  itype :: u16
  imajor :: u16
  iminor :: u16
  inlink :: u16
  isize :: u32
  iaddrs :: "nat \<Rightarrow> u32"

record fsst =
  flog :: lst
  fsb :: superblock
  itab :: "nat \<Rightarrow> inode"
  fmem :: kst
  fout :: "string list"

text \<open>The calling process and the addresses of kernel variables that the code takes.\<close>

record fenv =
  upt :: u64
  daddr :: "nat \<Rightarrow> u64"
  dea :: u64

definition upd_inode :: "nat \<Rightarrow> (inode \<Rightarrow> inode) \<Rightarrow> fsst \<Rightarrow> fsst" where
  "upd_inode i f s = s\<lparr>itab := (itab s)(i := f (itab s i))\<rparr>"

definition fs_bread :: "u32 \<Rightarrow> u32 \<Rightarrow> fsst \<Rightarrow> (nat \<times> fsst) kres" where
  "fs_bread dev bno s =
     kbind (bread dev bno (lbc (flog s))) (\<lambda>(b, c). Ok (b, s\<lparr>flog := (flog s)\<lparr>lbc := c\<rparr>\<rparr>))"

definition fs_brelse :: "nat \<Rightarrow> fsst \<Rightarrow> fsst kres" where
  "fs_brelse b s = kbind (brelse b (lbc (flog s))) (\<lambda>c. Ok (s\<lparr>flog := (flog s)\<lparr>lbc := c\<rparr>\<rparr>))"

definition fs_log_write :: "nat \<Rightarrow> fsst \<Rightarrow> fsst kres" where
  "fs_log_write b s = kbind (log_write b (flog s)) (\<lambda>l. Ok (s\<lparr>flog := l\<rparr>))"

definition bdat :: "nat \<Rightarrow> fsst \<Rightarrow> block" where
  "bdat b s = bdata (bufs (lbc (flog s)) b)"

definition set_bdat :: "nat \<Rightarrow> block \<Rightarrow> fsst \<Rightarrow> fsst" where
  "set_bdat b d s = s\<lparr>flog := (flog s)\<lparr>lbc := set_data b d (lbc (flog s))\<rparr>\<rparr>"

definition fs_printf :: "string \<Rightarrow> fsst \<Rightarrow> fsst" where
  "fs_printf m s = s\<lparr>fout := fout s @ [m]\<rparr>"

section \<open>Superblock and blocks\<close>

definition readsb :: "u32 \<Rightarrow> fsst \<Rightarrow> fsst kres" where
  "readsb dev s =
     kbind (fs_bread dev 1 s) (\<lambda>(bp, s).
       let d = bdat bp s;
           s = s\<lparr>fsb := \<lparr>magic = get32 d 0, fsize = get32 d 4, nblocks = get32 d 8, ninodes = get32 d 12,
                        nlog = get32 d 16, logstart = get32 d 20, inodestart = get32 d 24, bmapstart = get32 d 28\<rparr>\<rparr>
       in fs_brelse bp s)"

definition fsinit :: "u32 \<Rightarrow> fsst \<Rightarrow> fsst kres" where
  "fsinit dev s =
     kbind (readsb dev s) (\<lambda>s.
       if magic (fsb s) \<noteq> FSMAGIC then Panic ''invalid file system''
       else kbind (initlog dev (fsb s) (flog s)) (\<lambda>l. Ok (s\<lparr>flog := l\<rparr>)))"

definition bzero :: "u32 \<Rightarrow> u32 \<Rightarrow> fsst \<Rightarrow> fsst kres" where
  "bzero dev bno s =
     kbind (fs_bread dev bno s) (\<lambda>(bp, s).
     kbind (fs_log_write bp (set_bdat bp (\<lambda>_. 0) s)) (fs_brelse bp))"

text \<open>The inner loop of \<open>balloc\<close>: the first clear bit of one bitmap block below the size.\<close>

function balloc_bit :: "block \<Rightarrow> nat \<Rightarrow> nat \<Rightarrow> nat \<Rightarrow> nat option" where
  "balloc_bit d b n bi =
     (if bi < BPB \<and> b + bi < n then
        if d (bi div 8) AND push_bit (bi mod 8) 1 = 0 then Some bi else balloc_bit d b n (bi + 1)
      else None)"
  by pat_completeness auto
termination by (relation "measure (\<lambda>(d, b, n, bi). BPB - bi)") auto

declare balloc_bit.simps [simp del]

text \<open>The loops over the blocks of the disk and over the inodes are bounded by a field of the
  superblock, which no operation changes after \<open>fsinit\<close>: the bound \<open>n\<close> is read once.\<close>

function balloc_loop :: "u32 \<Rightarrow> nat \<Rightarrow> nat \<Rightarrow> fsst \<Rightarrow> (u32 \<times> fsst) kres" where
  "balloc_loop dev n b s =
     (if b < n then
        kbind (fs_bread dev (BBLOCK (of_nat b) (fsb s)) s) (\<lambda>(bp, s).
          case balloc_bit (bdat bp s) b n 0 of
            Some bi \<Rightarrow>
              let d = bdat bp s;
                  s = set_bdat bp (d(bi div 8 := d (bi div 8) OR push_bit (bi mod 8) 1)) s
              in kbind (fs_log_write bp s) (\<lambda>s.
                 kbind (fs_brelse bp s) (\<lambda>s.
                 kbind (bzero dev (of_nat (b + bi)) s) (\<lambda>s. Ok (of_nat (b + bi), s))))
          | None \<Rightarrow> kbind (fs_brelse bp s) (balloc_loop dev n (b + BPB)))
      else Ok (0, fs_printf ''balloc: out of blocks'' s))"
  by pat_completeness auto
termination by (relation "measure (\<lambda>(dev, n, b, s). n - b)") (auto simp: BPB_def BSIZE_def)

declare balloc_loop.simps [simp del]

definition balloc :: "u32 \<Rightarrow> fsst \<Rightarrow> (u32 \<times> fsst) kres" where
  "balloc dev s = balloc_loop dev (unat (fsize (fsb s))) 0 s"

definition bfree :: "u32 \<Rightarrow> u32 \<Rightarrow> fsst \<Rightarrow> fsst kres" where
  "bfree dev b s =
     kbind (fs_bread dev (BBLOCK b (fsb s)) s) (\<lambda>(bp, s).
       let bi = unat b mod BPB;
           m = push_bit (bi mod 8) 1;
           d = bdat bp s
       in if d (bi div 8) AND m = 0 then Panic ''freeing free block''
          else kbind (fs_log_write bp (set_bdat bp (d(bi div 8 := d (bi div 8) AND NOT m)) s)) (fs_brelse bp))"

section \<open>Inodes\<close>

definition iinit :: "fsst \<Rightarrow> fsst" where
  "iinit s = fold (\<lambda>i. upd_inode i (\<lambda>ip. ip\<lparr>ilk := False\<rparr>)) [0..<NINODE] s"

fun iget_scan :: "(nat \<Rightarrow> inode) \<Rightarrow> u32 \<Rightarrow> u32 \<Rightarrow> nat option \<Rightarrow> nat list \<Rightarrow> nat option \<times> nat option" where
  "iget_scan t dev ino emp [] = (None, emp)"
| "iget_scan t dev ino emp (i # is) =
     (if iref (t i) > 0 \<and> idev (t i) = dev \<and> inum (t i) = ino then (Some i, emp)
      else iget_scan t dev ino (if emp = None \<and> iref (t i) = 0 then Some i else emp) is)"

definition iget :: "u32 \<Rightarrow> u32 \<Rightarrow> fsst \<Rightarrow> (nat \<times> fsst) kres" where
  "iget dev ino s =
     (case iget_scan (itab s) dev ino None [0..<NINODE] of
        (Some ip, _) \<Rightarrow> Ok (ip, upd_inode ip (\<lambda>x. x\<lparr>iref := iref x + 1\<rparr>) s)
      | (None, None) \<Rightarrow> Panic ''iget: no inodes''
      | (None, Some ip) \<Rightarrow> Ok (ip, upd_inode ip (\<lambda>x. x\<lparr>idev := dev, inum := ino, iref := 1, ivalid := False\<rparr>) s))"

definition idup :: "nat \<Rightarrow> fsst \<Rightarrow> fsst" where
  "idup ip = upd_inode ip (\<lambda>x. x\<lparr>iref := iref x + 1\<rparr>)"

definition zero_dinode :: dinode where
  "zero_dinode = \<lparr>dtype = 0, dmajor = 0, dminor = 0, dnlink = 0, dsize = 0, daddrs = (\<lambda>_. 0)\<rparr>"

function ialloc_loop :: "u32 \<Rightarrow> u16 \<Rightarrow> nat \<Rightarrow> nat \<Rightarrow> fsst \<Rightarrow> (nat option \<times> fsst) kres" where
  "ialloc_loop dev type n ino s =
     (if ino < n then
        kbind (fs_bread dev (IBLOCK (of_nat ino) (fsb s)) s) (\<lambda>(bp, s).
          if dtype (get_dinode (bdat bp s) (ino mod IPB)) = 0 then
            let s = set_bdat bp (put_dinode (ino mod IPB) (zero_dinode\<lparr>dtype := type\<rparr>) (bdat bp s)) s
            in kbind (fs_log_write bp s) (\<lambda>s.
               kbind (fs_brelse bp s) (\<lambda>s.
               kbind (iget dev (of_nat ino) s) (\<lambda>(ip, s). Ok (Some ip, s))))
          else kbind (fs_brelse bp s) (ialloc_loop dev type n (ino + 1)))
      else Ok (None, fs_printf ''ialloc: no inodes'' s))"
  by pat_completeness auto
termination by (relation "measure (\<lambda>(dev, type, n, ino, s). n - ino)") auto

declare ialloc_loop.simps [simp del]

definition ialloc :: "u32 \<Rightarrow> u16 \<Rightarrow> fsst \<Rightarrow> (nat option \<times> fsst) kres" where
  "ialloc dev type s = ialloc_loop dev type (unat (ninodes (fsb s))) 1 s"

definition inode_disk :: "inode \<Rightarrow> dinode" where
  "inode_disk x = \<lparr>dtype = itype x, dmajor = imajor x, dminor = iminor x, dnlink = inlink x, dsize = isize x, daddrs = iaddrs x\<rparr>"

definition iupdate :: "nat \<Rightarrow> fsst \<Rightarrow> fsst kres" where
  "iupdate ip s =
     (let x = itab s ip
      in kbind (fs_bread (idev x) (IBLOCK (inum x) (fsb s)) s) (\<lambda>(bp, s).
         kbind (fs_log_write bp (set_bdat bp (put_dinode (unat (inum x) mod IPB) (inode_disk x) (bdat bp s)) s)) (fs_brelse bp)))"

definition load_dinode :: "dinode \<Rightarrow> inode \<Rightarrow> inode" where
  "load_dinode d x = x\<lparr>itype := dtype d, imajor := dmajor d, iminor := dminor d, inlink := dnlink d, isize := dsize d,
     iaddrs := (\<lambda>j. if j \<le> NDIRECT then daddrs d j else iaddrs x j)\<rparr>"

text \<open>The null pointer is None.\<close>

definition ilock :: "nat option \<Rightarrow> fsst \<Rightarrow> fsst kres" where
  "ilock ipo s =
     (case ipo of
        None \<Rightarrow> Panic ''ilock''
      | Some ip \<Rightarrow>
          if iref (itab s ip) < 1 then Panic ''ilock''
          else if ilk (itab s ip) then Wait ''acquiresleep''
          else
            let s = upd_inode ip (\<lambda>x. x\<lparr>ilk := True\<rparr>) s;
                x = itab s ip
            in if \<not> ivalid x then
                 kbind (fs_bread (idev x) (IBLOCK (inum x) (fsb s)) s) (\<lambda>(bp, s).
                   let s = upd_inode ip (load_dinode (get_dinode (bdat bp s) (unat (inum x) mod IPB))) s
                   in kbind (fs_brelse bp s) (\<lambda>s.
                        let s = upd_inode ip (\<lambda>x. x\<lparr>ivalid := True\<rparr>) s
                        in if itype (itab s ip) = 0 then Panic ''ilock: no type'' else Ok s))
               else Ok s)"

definition iunlock :: "nat option \<Rightarrow> fsst \<Rightarrow> fsst kres" where
  "iunlock ipo s =
     (case ipo of
        None \<Rightarrow> Panic ''iunlock''
      | Some ip \<Rightarrow>
          if \<not> ilk (itab s ip) \<or> iref (itab s ip) < 1 then Panic ''iunlock''
          else Ok (upd_inode ip (\<lambda>x. x\<lparr>ilk := False\<rparr>) s))"

fun itrunc_direct :: "nat \<Rightarrow> nat list \<Rightarrow> fsst \<Rightarrow> fsst kres" where
  "itrunc_direct ip [] s = Ok s"
| "itrunc_direct ip (i # is) s =
     (let x = itab s ip
      in if iaddrs x i \<noteq> 0 then
           kbind (bfree (idev x) (iaddrs x i) s) (\<lambda>s.
             itrunc_direct ip is (upd_inode ip (\<lambda>x. x\<lparr>iaddrs := (iaddrs x)(i := 0)\<rparr>) s))
         else itrunc_direct ip is s)"

fun itrunc_indirect :: "nat \<Rightarrow> nat \<Rightarrow> nat list \<Rightarrow> fsst \<Rightarrow> fsst kres" where
  "itrunc_indirect ip bp [] s = Ok s"
| "itrunc_indirect ip bp (j # js) s =
     (let a = get32 (bdat bp s) (4 * j)
      in if a \<noteq> 0 then kbind (bfree (idev (itab s ip)) a s) (itrunc_indirect ip bp js)
         else itrunc_indirect ip bp js s)"

definition itrunc :: "nat \<Rightarrow> fsst \<Rightarrow> fsst kres" where
  "itrunc ip s =
     kbind (itrunc_direct ip [0..<NDIRECT] s) (\<lambda>s.
     kbind
       (let x = itab s ip
        in if iaddrs x NDIRECT \<noteq> 0 then
             kbind (fs_bread (idev x) (iaddrs x NDIRECT) s) (\<lambda>(bp, s).
             kbind (itrunc_indirect ip bp [0..<NINDIRECT] s) (\<lambda>s.
             kbind (fs_brelse bp s) (\<lambda>s.
             kbind (bfree (idev (itab s ip)) (iaddrs (itab s ip) NDIRECT) s) (\<lambda>s.
               Ok (upd_inode ip (\<lambda>x. x\<lparr>iaddrs := (iaddrs x)(NDIRECT := 0)\<rparr>) s)))))
           else Ok s)
       (\<lambda>s. iupdate ip (upd_inode ip (\<lambda>x. x\<lparr>isize := 0\<rparr>) s)))"

definition iput :: "nat \<Rightarrow> fsst \<Rightarrow> fsst kres" where
  "iput ip s =
     (let x = itab s ip
      in kbind
           (if iref x = 1 \<and> ivalid x \<and> inlink x = 0 then
              if ilk x then Wait ''acquiresleep''
              else
                kbind (itrunc ip (upd_inode ip (\<lambda>x. x\<lparr>ilk := True\<rparr>) s)) (\<lambda>s.
                kbind (iupdate ip (upd_inode ip (\<lambda>x. x\<lparr>itype := 0\<rparr>) s)) (\<lambda>s.
                  Ok (upd_inode ip (\<lambda>x. x\<lparr>ivalid := False, ilk := False\<rparr>) s)))
            else Ok s)
           (\<lambda>s. Ok (upd_inode ip (\<lambda>x. x\<lparr>iref := iref x - 1\<rparr>) s)))"

definition iunlockput :: "nat \<Rightarrow> fsst \<Rightarrow> fsst kres" where
  "iunlockput ip s = kbind (iunlock (Some ip) s) (iput ip)"

section \<open>Inode content\<close>

definition set_addr :: "nat \<Rightarrow> nat \<Rightarrow> u32 \<Rightarrow> fsst \<Rightarrow> fsst" where
  "set_addr ip i a = upd_inode ip (\<lambda>x. x\<lparr>iaddrs := (iaddrs x)(i := a)\<rparr>)"

text \<open>The block address in slot \<open>i\<close> of the inode, allocated when there is none: both the direct
  case of \<open>bmap\<close> and its first step in the indirect case.\<close>

definition bmap_slot :: "nat \<Rightarrow> nat \<Rightarrow> fsst \<Rightarrow> (u32 \<times> fsst) kres" where
  "bmap_slot ip i s =
     (if iaddrs (itab s ip) i = 0 then
        kbind (balloc (idev (itab s ip)) s) (\<lambda>(addr, s).
          if addr = 0 then Ok (0, s) else Ok (addr, set_addr ip i addr s))
      else Ok (iaddrs (itab s ip) i, s))"

definition bmap :: "nat \<Rightarrow> u32 \<Rightarrow> fsst \<Rightarrow> (u32 \<times> fsst) kres" where
  "bmap ip bn s =
     (if unat bn < NDIRECT then bmap_slot ip (unat bn) s
      else
        let bn = unat bn - NDIRECT
        in if bn < NINDIRECT then
             kbind (bmap_slot ip NDIRECT s) (\<lambda>(addr, s).
               if addr = 0 then Ok (0, s)
               else
                 kbind (fs_bread (idev (itab s ip)) addr s) (\<lambda>(bp, s).
                 kbind
                   (let addr = get32 (bdat bp s) (4 * bn)
                    in if addr = 0 then
                         kbind (balloc (idev (itab s ip)) s) (\<lambda>(addr, s).
                           if addr \<noteq> 0 then
                             kbind (fs_log_write bp (set_bdat bp (put32 (4 * bn) addr (bdat bp s)) s)) (\<lambda>s. Ok (addr, s))
                           else Ok (addr, s))
                       else Ok (addr, s))
                   (\<lambda>(addr, s). kbind (fs_brelse bp s) (\<lambda>s. Ok (addr, s)))))
           else Panic ''bmap: out of range'')"

record fstat =
  st_dev :: u32
  st_ino :: u32
  st_type :: u16
  st_nlink :: u16
  st_size :: u64

definition stati :: "nat \<Rightarrow> fsst \<Rightarrow> fstat" where
  "stati ip s =
     (let x = itab s ip
      in \<lparr>st_dev = idev x, st_ino = inum x, st_type = itype x, st_nlink = inlink x, st_size = ucast (isize x)\<rparr>)"

definition expose :: "fenv \<Rightarrow> nat \<Rightarrow> fsst \<Rightarrow> fsst" where
  "expose e b s =
     s\<lparr>fmem := (fmem s)\<lparr>pmem := (\<lambda>a. if in_range (daddr e b) (of_nat BSIZE) a then bdat b s (unat (a - daddr e b))
                                   else pmem (fmem s) a)\<rparr>\<rparr>"

definition absorb :: "fenv \<Rightarrow> nat \<Rightarrow> fsst \<Rightarrow> fsst" where
  "absorb e b s =
     set_bdat b (\<lambda>i. if i < BSIZE then pmem (fmem s) (daddr e b + of_nat i) else bdat b s i) s"

definition block_chunk :: "u32 \<Rightarrow> u32 \<Rightarrow> u32" where
  "block_chunk left off = min left (of_nat BSIZE - off mod of_nat BSIZE)"

lemma block_chunk_bounds:
  assumes "tot < n"
  shows "0 < block_chunk (n - tot) off" "block_chunk (n - tot) off \<le> n - tot"
proof -
  have "off mod 1024 < (1024 :: u32)"
    by (simp add: word_mod_less_divisor)
  hence "0 < 1024 - off mod 1024"
    by (simp add: word_less_nat_alt unat_sub_if' word_le_nat_alt)
  moreover have "0 < n - tot"
    using assms by (simp add: word_less_nat_alt unat_sub_if')
  ultimately show "0 < block_chunk (n - tot) off" "block_chunk (n - tot) off \<le> n - tot"
    by (auto simp: block_chunk_def BSIZE_def min_def)
qed

lemma block_chunk_measure:
  assumes "tot < n"
  shows "unat (n - (tot + block_chunk (n - tot) off)) < unat (n - tot)"
proof -
  have "unat (n - (tot + block_chunk (n - tot) off)) = unat (n - tot - block_chunk (n - tot) off)"
    by (simp add: algebra_simps)
  also have "\<dots> = unat (n - tot) - unat (block_chunk (n - tot) off)"
    using block_chunk_bounds [OF assms, of off] by (simp add: unat_sub_if' word_le_nat_alt)
  finally show ?thesis
    using block_chunk_bounds [OF assms, of off] by (simp add: word_less_nat_alt word_le_nat_alt)
qed

function readi_loop :: "fenv \<Rightarrow> nat \<Rightarrow> bool \<Rightarrow> u64 \<Rightarrow> u32 \<Rightarrow> u32 \<Rightarrow> u32 \<Rightarrow> fsst \<Rightarrow> (u32 \<times> fsst) kres" where
  "readi_loop e ip user_dst dst off n tot s =
     (if tot < n then
        kbind (bmap ip (off div of_nat BSIZE) s) (\<lambda>(addr, s).
          if addr = 0 then Ok (tot, s)
          else
            kbind (fs_bread (idev (itab s ip)) addr s) (\<lambda>(bp, s).
              let m = block_chunk (n - tot) off;
                  s = expose e bp s
              in kbind (either_copyout (upt e) user_dst dst (daddr e bp + ucast (off mod of_nat BSIZE)) (ucast m) (fmem s)) (\<lambda>(r, k).
                 let s = s\<lparr>fmem := k\<rparr>
                 in if r = -1 then kbind (fs_brelse bp s) (\<lambda>s. Ok (-1, s))
                    else kbind (fs_brelse bp s) (readi_loop e ip user_dst (dst + ucast m) (off + m) n (tot + m)))))
      else Ok (tot, s))"
  by pat_completeness auto
termination
  by (relation "measure (\<lambda>(e, ip, user_dst, dst, off, n, tot, s). unat (n - tot))") (auto intro: block_chunk_measure)

declare readi_loop.simps [simp del]

definition readi :: "fenv \<Rightarrow> nat \<Rightarrow> bool \<Rightarrow> u64 \<Rightarrow> u32 \<Rightarrow> u32 \<Rightarrow> fsst \<Rightarrow> (int \<times> fsst) kres" where
  "readi e ip user_dst dst off n s =
     (let size = isize (itab s ip)
      in if off > size \<or> off + n < off then Ok (0, s)
         else
           let n = (if off + n > size then size - off else n)
           in kbind (readi_loop e ip user_dst dst off n 0 s) (\<lambda>(tot, s). Ok (sint tot, s)))"

text \<open>The loop of \<open>writei\<close> returns \<open>tot\<close> and the final \<open>off\<close>.\<close>

function writei_loop :: "fenv \<Rightarrow> nat \<Rightarrow> bool \<Rightarrow> u64 \<Rightarrow> u32 \<Rightarrow> u32 \<Rightarrow> u32 \<Rightarrow> fsst \<Rightarrow> (u32 \<times> u32 \<times> fsst) kres" where
  "writei_loop e ip user_src src off n tot s =
     (if tot < n then
        kbind (bmap ip (off div of_nat BSIZE) s) (\<lambda>(addr, s).
          if addr = 0 then Ok (tot, off, s)
          else
            kbind (fs_bread (idev (itab s ip)) addr s) (\<lambda>(bp, s).
              let m = block_chunk (n - tot) off;
                  s = expose e bp s
              in kbind (either_copyin (upt e) (daddr e bp + ucast (off mod of_nat BSIZE)) user_src src (ucast m) (fmem s)) (\<lambda>(r, k).
                 let s = absorb e bp (s\<lparr>fmem := k\<rparr>)
                 in if r = -1 then kbind (fs_brelse bp s) (\<lambda>s. Ok (tot, off, s))
                    else kbind (fs_log_write bp s) (\<lambda>s.
                         kbind (fs_brelse bp s) (writei_loop e ip user_src (src + ucast m) (off + m) n (tot + m))))))
      else Ok (tot, off, s))"
  by pat_completeness auto
termination
  by (relation "measure (\<lambda>(e, ip, user_dst, dst, off, n, tot, s). unat (n - tot))") (auto intro: block_chunk_measure)

declare writei_loop.simps [simp del]

definition writei :: "fenv \<Rightarrow> nat \<Rightarrow> bool \<Rightarrow> u64 \<Rightarrow> u32 \<Rightarrow> u32 \<Rightarrow> fsst \<Rightarrow> (int \<times> fsst) kres" where
  "writei e ip user_src src off n s =
     (if off > isize (itab s ip) \<or> off + n < off then Ok (-1, s)
      else if off + n > of_nat (MAXFILE * BSIZE) then Ok (-1, s)
      else
        kbind (writei_loop e ip user_src src off n 0 s) (\<lambda>(tot, off, s).
          let s = (if off > isize (itab s ip) then upd_inode ip (\<lambda>x. x\<lparr>isize := off\<rparr>) s else s)
          in kbind (iupdate ip s) (\<lambda>s. Ok (sint tot, s))))"

section \<open>Directories\<close>

record dirent =
  de_inum :: u16
  de_name :: "u8 list"

definition get_dirent :: "fenv \<Rightarrow> fsst \<Rightarrow> dirent" where
  "get_dirent e s =
     (let m = pmem (fmem s) in \<lparr>de_inum = le_word (bytes m (dea e) 2), de_name = bytes m (dea e + 2) DIRSIZ\<rparr>)"

definition put_bytes :: "u64 \<Rightarrow> u8 list \<Rightarrow> mem \<Rightarrow> mem" where
  "put_bytes a xs m = (\<lambda>x. if unat (x - a) < length xs then xs ! unat (x - a) else m x)"

definition put_dirent :: "fenv \<Rightarrow> dirent \<Rightarrow> fsst \<Rightarrow> fsst" where
  "put_dirent e de s =
     s\<lparr>fmem := (fmem s)\<lparr>pmem := put_bytes (dea e) (le_bytes 2 (de_inum de) @ de_name de) (pmem (fmem s))\<rparr>\<rparr>"

text \<open>String routines of kernel/string.c on byte arrays; past the end of the list is the NUL.\<close>

definition first_byte :: "u8 list \<Rightarrow> u8" where
  "first_byte p = (case p of [] \<Rightarrow> 0 | c # _ \<Rightarrow> c)"

fun strncmp_bytes :: "nat \<Rightarrow> u8 list \<Rightarrow> u8 list \<Rightarrow> int" where
  "strncmp_bytes 0 p q = 0"
| "strncmp_bytes (Suc n) p q =
     (if first_byte p \<noteq> 0 \<and> first_byte p = first_byte q then strncmp_bytes n (tl p) (tl q)
      else uint (first_byte p) - uint (first_byte q))"

definition namecmp :: "u8 list \<Rightarrow> u8 list \<Rightarrow> int" where
  "namecmp s t = strncmp_bytes DIRSIZ s t"

fun strncpy_bytes :: "nat \<Rightarrow> u8 list \<Rightarrow> u8 list" where
  "strncpy_bytes 0 t = []"
| "strncpy_bytes (Suc n) t =
     (if first_byte t \<noteq> 0 then first_byte t # strncpy_bytes n (tl t) else replicate (Suc n) 0)"

text \<open>Reading the entry at \<open>off\<close> into the local \<open>de\<close>; a short read is a panic of the caller.\<close>

definition read_dirent :: "fenv \<Rightarrow> nat \<Rightarrow> nat \<Rightarrow> string \<Rightarrow> fsst \<Rightarrow> (dirent \<times> fsst) kres" where
  "read_dirent e dp off msg s =
     kbind (readi e dp False (dea e) (of_nat off) (of_nat sizeof_dirent) s) (\<lambda>(r, s).
       if r \<noteq> int sizeof_dirent then Panic msg else Ok (get_dirent e s, s))"

function dirlookup_loop :: "fenv \<Rightarrow> nat \<Rightarrow> u8 list \<Rightarrow> nat \<Rightarrow> nat \<Rightarrow> fsst \<Rightarrow> ((nat \<times> u32) option \<times> fsst) kres" where
  "dirlookup_loop e dp name n off s =
     (if off < n then
        kbind (read_dirent e dp off ''dirlookup read'' s) (\<lambda>(de, s).
          if de_inum de = 0 then dirlookup_loop e dp name n (off + sizeof_dirent) s
          else if namecmp name (de_name de) = 0 then
            kbind (iget (idev (itab s dp)) (ucast (de_inum de)) s) (\<lambda>(ip, s). Ok (Some (ip, of_nat off), s))
          else dirlookup_loop e dp name n (off + sizeof_dirent) s)
      else Ok (None, s))"
  by pat_completeness auto
termination
  by (relation "measure (\<lambda>(e, dp, name, n, off, s). n - off)") (auto simp: sizeof_dirent_def)

declare dirlookup_loop.simps [simp del]

text \<open>The result is the inode and the byte offset of the entry (\<open>*poff\<close>).\<close>

definition dirlookup :: "fenv \<Rightarrow> nat \<Rightarrow> u8 list \<Rightarrow> fsst \<Rightarrow> ((nat \<times> u32) option \<times> fsst) kres" where
  "dirlookup e dp name s =
     (if itype (itab s dp) \<noteq> T_DIR then Panic ''dirlookup not DIR''
      else dirlookup_loop e dp name (unat (isize (itab s dp))) 0 s)"

function dirlink_loop :: "fenv \<Rightarrow> nat \<Rightarrow> nat \<Rightarrow> nat \<Rightarrow> fsst \<Rightarrow> (nat \<times> fsst) kres" where
  "dirlink_loop e dp n off s =
     (if off < n then
        kbind (read_dirent e dp off ''dirlink read'' s) (\<lambda>(de, s).
          if de_inum de = 0 then Ok (off, s) else dirlink_loop e dp n (off + sizeof_dirent) s)
      else Ok (off, s))"
  by pat_completeness auto
termination
  by (relation "measure (\<lambda>(e, dp, n, off, s). n - off)") (auto simp: sizeof_dirent_def)

declare dirlink_loop.simps [simp del]

definition dirlink :: "fenv \<Rightarrow> nat \<Rightarrow> u8 list \<Rightarrow> u32 \<Rightarrow> fsst \<Rightarrow> (int \<times> fsst) kres" where
  "dirlink e dp name ino s =
     kbind (dirlookup e dp name s) (\<lambda>(r, s).
       case r of
         Some (ip, _) \<Rightarrow> kbind (iput ip s) (\<lambda>s. Ok (-1, s))
       | None \<Rightarrow>
           kbind (dirlink_loop e dp (unat (isize (itab s dp))) 0 s) (\<lambda>(off, s).
             let s = put_dirent e \<lparr>de_inum = ucast ino, de_name = strncpy_bytes DIRSIZ name\<rparr> s
             in kbind (writei e dp False (dea e) (of_nat off) (of_nat sizeof_dirent) s) (\<lambda>(r, s).
                  if r \<noteq> int sizeof_dirent then Ok (-1, s) else Ok (0, s))))"

section \<open>Paths\<close>

definition SLASH :: u8 where "SLASH = 47"

text \<open>\<open>name\<close> is the content of the array before the call; the bytes after the terminator stay.\<close>

definition skipelem :: "u8 list \<Rightarrow> u8 list \<Rightarrow> (u8 list \<times> u8 list) option" where
  "skipelem pth name =
     (let pth = dropWhile (\<lambda>c. c = SLASH) pth
      in if pth = [] then None
         else
           let s = takeWhile (\<lambda>c. c \<noteq> SLASH) pth;
               rest = dropWhile (\<lambda>c. c \<noteq> SLASH) pth;
               len = length s;
               name = (if len \<ge> DIRSIZ then take DIRSIZ s else s @ [0] @ drop (len + 1) name)
           in Some (dropWhile (\<lambda>c. c = SLASH) rest, name))"

lemma skipelem_shorter: "skipelem pth name = Some (rest', name') \<Longrightarrow> length rest' < length pth"
proof -
  assume a: "skipelem pth name = Some (rest', name')"
  let ?p = "dropWhile (\<lambda>c. c = SLASH) pth"
  let ?q = "dropWhile (\<lambda>c. c \<noteq> SLASH) ?p"
  from a have p: "?p \<noteq> []" and p': "rest' = dropWhile (\<lambda>c. c = SLASH) ?q"
    by (auto simp: skipelem_def Let_def split: if_splits)
  from p obtain c r where cr: "?p = c # r" by (cases ?p) auto
  from p have "hd ?p \<noteq> SLASH" by (rule hd_dropWhile)
  with cr have "?q = dropWhile (\<lambda>c. c \<noteq> SLASH) r" by simp
  hence "length ?q \<le> length r" by (simp add: length_dropWhile_le)
  moreover have "length rest' \<le> length ?q" unfolding p' by (rule length_dropWhile_le)
  moreover have "Suc (length r) \<le> length pth"
    using length_dropWhile_le [of "\<lambda>c. c = SLASH" pth] cr by simp
  ultimately show "length rest' < length pth" by simp
qed

text \<open>The result is the inode (None for the null pointer) and the content of \<open>name\<close>.\<close>

function namex_loop :: "fenv \<Rightarrow> bool \<Rightarrow> u8 list \<Rightarrow> u8 list \<Rightarrow> nat \<Rightarrow> fsst \<Rightarrow> (nat option \<times> u8 list \<times> fsst) kres" where
  "namex_loop e parent pth name ip s =
     (case skipelem pth name of
        Some (rest', name) \<Rightarrow>
          kbind (ilock (Some ip) s) (\<lambda>s.
            if itype (itab s ip) \<noteq> T_DIR then kbind (iunlockput ip s) (\<lambda>s. Ok (None, name, s))
            else if parent \<and> rest' = [] then kbind (iunlock (Some ip) s) (\<lambda>s. Ok (Some ip, name, s))
            else kbind (dirlookup e ip name s) (\<lambda>(r, s).
                   case r of
                     None \<Rightarrow> kbind (iunlockput ip s) (\<lambda>s. Ok (None, name, s))
                   | Some (nxt, _) \<Rightarrow> kbind (iunlockput ip s) (\<lambda>s. namex_loop e parent rest' name nxt s)))
      | None \<Rightarrow>
          if parent then kbind (iput ip s) (\<lambda>s. Ok (None, name, s)) else Ok (Some ip, name, s))"
  by pat_completeness auto
termination
  by (relation "measure (\<lambda>(e, parent, pth, name, ip, s). length pth)") (auto intro: skipelem_shorter)

declare namex_loop.simps [simp del]

definition namex :: "fenv \<Rightarrow> nat \<Rightarrow> bool \<Rightarrow> u8 list \<Rightarrow> u8 list \<Rightarrow> fsst \<Rightarrow> (nat option \<times> u8 list \<times> fsst) kres" where
  "namex e cwd parent pth name s =
     (if first_byte pth = SLASH then kbind (iget ROOTDEV ROOTINO s) (\<lambda>(ip, s). namex_loop e parent pth name ip s)
      else namex_loop e parent pth name cwd (idup cwd s))"

text \<open>\<open>name0\<close> is the indeterminate initial content of the local array \<open>name\<close>.\<close>

definition namei :: "fenv \<Rightarrow> nat \<Rightarrow> u8 list \<Rightarrow> u8 list \<Rightarrow> fsst \<Rightarrow> (nat option \<times> fsst) kres" where
  "namei e cwd name0 pth s = kbind (namex e cwd False pth name0 s) (\<lambda>(r, _, s). Ok (r, s))"

definition nameiparent :: "fenv \<Rightarrow> nat \<Rightarrow> u8 list \<Rightarrow> u8 list \<Rightarrow> fsst \<Rightarrow> (nat option \<times> u8 list \<times> fsst) kres" where
  "nameiparent e cwd pth name s = namex e cwd True pth name s"

end
