(* ===== verification/Fs_Block.thy ===== *)
theory Fs_Block
  imports Fs
begin

text \<open>
  The file system over the log: what a client of the transaction interface may rely on, and the block
  allocator of kernel/fs.c.
\<close>

unbundle bit_operations_syntax

section \<open>Blocks inside a transaction\<close>

text \<open>
  The interface: \<open>rel s V D P H\<close> relates a state to the current contents, the contents on disk, the blocks
  logged so far and the blocks locked; \<open>space s k\<close> says that a log with \<open>k\<close> blocks can take another.
\<close>

locale logged_store =
  fixes rel :: "'s \<Rightarrow> (u32 \<Rightarrow> block) \<Rightarrow> (u32 \<Rightarrow> block) \<Rightarrow> u32 set \<Rightarrow> u32 set \<Rightarrow> bool"
    and has :: "'s \<Rightarrow> nat \<Rightarrow> u32 \<Rightarrow> bool"
    and contents :: "nat \<Rightarrow> 's \<Rightarrow> block"
    and space :: "'s \<Rightarrow> nat \<Rightarrow> bool"
    and same :: "'s \<Rightarrow> 's \<Rightarrow> bool"
    and rd :: "u32 \<Rightarrow> 's \<Rightarrow> (nat \<times> 's) kres"
    and fill :: "nat \<Rightarrow> block \<Rightarrow> 's \<Rightarrow> 's"
    and lw :: "nat \<Rightarrow> 's \<Rightarrow> 's kres"
    and relse :: "nat \<Rightarrow> 's \<Rightarrow> 's kres"
  assumes rd: "rel s V D P H \<Longrightarrow> n \<notin> H \<Longrightarrow> n \<in> P \<or> card (P \<union> H) < NBUF \<Longrightarrow>
      \<exists>b s'. rd n s = Ok (b, s') \<and> rel s' V D P (insert n H) \<and> has s' b n \<and> contents b s' = V n \<and> same s s'"
    and fill: "rel s V D P H \<Longrightarrow> n \<in> H \<Longrightarrow> has s b n \<Longrightarrow>
      rel (fill b d s) (V(n := d)) D P H \<and> has (fill b d s) b n \<and> same s (fill b d s)"
    and lw: "rel s V D P H \<Longrightarrow> n \<in> H \<Longrightarrow> has s b n \<Longrightarrow> space s (card P) \<Longrightarrow>
      \<exists>s'. lw b s = Ok s' \<and> rel s' V D (insert n P) H \<and> has s' b n \<and> same s s'"
    and relse: "rel s V D P H \<Longrightarrow> n \<in> H \<Longrightarrow> has s b n \<Longrightarrow> (n \<notin> P \<Longrightarrow> V n = D n) \<Longrightarrow>
      \<exists>s'. relse b s = Ok s' \<and> rel s' V D P (H - {n}) \<and> same s s'"
    and clean: "rel s V D P H \<Longrightarrow> n \<notin> P \<union> H \<Longrightarrow> V n = D n"
    and same_space: "same s s' \<Longrightarrow> space s' k = space s k"
    and same_trans: "same s s' \<Longrightarrow> same s' s'' \<Longrightarrow> same s s''"
begin

lemma look:
  assumes r: "rel s V D P H" and n: "n \<notin> H" and room: "card (P \<union> H) < NBUF"
  shows "\<exists>b s1 s2. rd n s = Ok (b, s1) \<and> rel s1 V D P (insert n H) \<and> has s1 b n \<and> contents b s1 = V n \<and> same s s1 \<and>
    relse b s1 = Ok s2 \<and> rel s2 V D P H \<and> same s s2"
proof -
  obtain b s1 where s1: "rd n s = Ok (b, s1)" "rel s1 V D P (insert n H)" "has s1 b n" "contents b s1 = V n" "same s s1"
    using rd [OF r n] room by blast
  have "n \<notin> P \<Longrightarrow> V n = D n" using clean [OF r] n by simp
  then obtain s2 where s2: "relse b s1 = Ok s2" "rel s2 V D P (insert n H - {n})" "same s1 s2"
    using relse [OF s1(2) insertI1 s1(3)] by blast
  have "insert n H - {n} = H" using n by auto
  then show ?thesis using s1 s2 same_trans [OF s1(5) s2(3)] by auto
qed

lemma finish:
  assumes r: "rel s V D P H" and n: "n \<in> H" and b: "has s b n" and sp: "space s (card P)"
  shows "\<exists>s1 s2. lw b (fill b d s) = Ok s1 \<and> relse b s1 = Ok s2 \<and> rel s2 (V(n := d)) D (insert n P) (H - {n}) \<and> same s s2"
proof -
  let ?s = "fill b d s"
  have f: "rel ?s (V(n := d)) D P H" "has ?s b n" "same s ?s" using fill [OF r n b] by auto
  have "space ?s (card P)" using same_space [OF f(3)] sp by simp
  then obtain s1 where s1: "lw b ?s = Ok s1" "rel s1 (V(n := d)) D (insert n P) H" "has s1 b n" "same ?s s1"
    using lw [OF f(1) n f(2)] by blast
  have "n \<notin> insert n P \<Longrightarrow> (V(n := d)) n = D n" by simp
  from relse [OF s1(2) n s1(3) this] obtain s2 where s2: "relse b s1 = Ok s2" "rel s2 (V(n := d)) D (insert n P) (H - {n})" "same s1 s2"
    by blast
  then show ?thesis using s1(1) same_trans [OF f(3) same_trans [OF s1(4) s2(3)]] by blast
qed

lemma update:
  assumes r: "rel s V D P H" and n: "n \<notin> H" and room: "card (P \<union> H) < NBUF" and sp: "space s (card P)"
  shows "\<exists>b s1 s2 s3. rd n s = Ok (b, s1) \<and> contents b s1 = V n \<and> same s s1 \<and> lw b (fill b d s1) = Ok s2 \<and> relse b s2 = Ok s3 \<and>
    rel s3 (V(n := d)) D (insert n P) H \<and> same s s3"
proof -
  obtain b s1 where s1: "rd n s = Ok (b, s1)" "rel s1 V D P (insert n H)" "has s1 b n" "contents b s1 = V n" "same s s1"
    using rd [OF r n] room by blast
  have "space s1 (card P)" using same_space [OF s1(5)] sp by simp
  from finish [OF s1(2) insertI1 s1(3) this, of d] obtain s2 s3 where s2: "lw b (fill b d s1) = Ok s2" "relse b s2 = Ok s3"
      "rel s3 (V(n := d)) D (insert n P) (insert n H - {n})" "same s1 s3"
    by blast
  have "insert n H - {n} = H" using n by auto
  then show ?thesis using s1 s2 same_trans [OF s1(5) s2(4)] by auto
qed

end

definition fstxn :: "fsst \<Rightarrow> (u32 \<Rightarrow> block) \<Rightarrow> (u32 \<Rightarrow> block) \<Rightarrow> u32 set \<Rightarrow> u32 set \<Rightarrow> bool" where
  "fstxn s = txn (flog s)"

definition same_fs :: "fsst \<Rightarrow> fsst \<Rightarrow> bool" where
  "same_fs s s' \<longleftrightarrow> fsb s' = fsb s \<and> itab s' = itab s \<and> fmem s' = fmem s \<and> fout s' = fout s \<and> same_log (flog s) (flog s')"

lemma fs_rd:
  assumes t: "fstxn s V D P H" and n: "n \<notin> H" and room: "n \<in> P \<or> card (P \<union> H) < NBUF"
  shows "\<exists>b s'. fs_bread ROOTDEV n s = Ok (b, s') \<and> fstxn s' V D P (insert n H) \<and> buffer (lbc (flog s')) b n \<and> bdat b s' = V n \<and> same_fs s s'"
proof -
  have c: "cache (lbc (flog s)) V D P H" using t by (simp add: fstxn_def txn_def)
  obtain b c' where "bread ROOTDEV n (lbc (flog s)) = Ok (b, c')" "cache c' V D P (insert n H)" "buffer c' b n"
      "bdata (bufs c' b) = V n" "dwrites c' = dwrites (lbc (flog s))"
    using bc.rd [OF c n room] by blast
  then show ?thesis using t txn_lbc [of "flog s" V D P H c' V D "insert n H"]
    by (auto simp: fs_bread_def fstxn_def bdat_def same_fs_def same_log_def)
qed

lemma fs_fill:
  assumes t: "fstxn s V D P H" and n: "n \<in> H" and b: "buffer (lbc (flog s)) b n"
  shows "fstxn (set_bdat b d s) (V(n := d)) D P H \<and> buffer (lbc (flog (set_bdat b d s))) b n \<and> same_fs s (set_bdat b d s)"
proof -
  have c: "cache (lbc (flog s)) V D P H" using t by (simp add: fstxn_def txn_def)
  note f = bc.fill [OF c n b, of d]
  show ?thesis using f b t txn_lbc [OF _ f(1)] by (auto simp: set_bdat_def fstxn_def same_fs_def same_log_def)
qed

lemma fs_lw:
  assumes t: "fstxn s V D P H" and n: "n \<in> H" and b: "buffer (lbc (flog s)) b n" and sp: "log_space (flog s) (card P)"
  shows "\<exists>s'. fs_log_write b s = Ok s' \<and> fstxn s' V D (insert n P) H \<and> buffer (lbc (flog s')) b n \<and> same_fs s s'"
proof -
  obtain l' where l': "log_write b (flog s) = Ok l'" "txn l' V D (insert n P) H" "same_log (flog s) l'"
      "\<forall>x m. buffer (lbc l') x m = buffer (lbc (flog s)) x m"
    using log_write_spec [OF t [unfolded fstxn_def] n b sp] by blast
  then show ?thesis using b
    by (intro exI [of _ "s\<lparr>flog := l'\<rparr>"]) (simp add: fs_log_write_def fstxn_def same_fs_def)
qed

lemma fs_relse:
  assumes t: "fstxn s V D P H" and n: "n \<in> H" and b: "buffer (lbc (flog s)) b n" and cl: "n \<notin> P \<Longrightarrow> V n = D n"
  shows "\<exists>s'. fs_brelse b s = Ok s' \<and> fstxn s' V D P (H - {n}) \<and> same_fs s s'"
proof -
  have c: "cache (lbc (flog s)) V D P H" using t by (simp add: fstxn_def txn_def)
  obtain c' where "brelse b (lbc (flog s)) = Ok c'" "cache c' V D P (H - {n})" "dwrites c' = dwrites (lbc (flog s))"
    using bc.relse [OF c n b cl] by blast
  then show ?thesis using t txn_lbc [of "flog s" V D P H c' V D "H - {n}"]
    by (auto simp: fs_brelse_def fstxn_def same_fs_def same_log_def)
qed

interpretation ls: logged_store fstxn "\<lambda>s. buffer (lbc (flog s))" bdat "\<lambda>s. log_space (flog s)" same_fs "fs_bread ROOTDEV" set_bdat fs_log_write fs_brelse
  apply unfold_locales
  subgoal by (rule fs_rd)
  subgoal by (rule fs_fill)
  subgoal by (rule fs_lw)
  subgoal by (rule fs_relse)
  subgoal using cache_view_disk by (auto simp: fstxn_def txn_def)
  subgoal by (simp add: same_fs_def same_log_def log_space_def)
  subgoal by (auto simp: same_fs_def intro: same_log_trans)
  done

section \<open>The block allocator\<close>

definition bitmap_bit :: "(u32 \<Rightarrow> block) \<Rightarrow> superblock \<Rightarrow> nat \<Rightarrow> bool" where
  "bitmap_bit V sb x \<longleftrightarrow> V (BBLOCK (of_nat x) sb) (x mod BPB div 8) AND push_bit (x mod BPB mod 8) 1 \<noteq> 0"

definition mark_bit :: "nat \<Rightarrow> block \<Rightarrow> block" where
  "mark_bit bi d = d(bi div 8 := d (bi div 8) OR push_bit (bi mod 8) 1)"

lemma balloc_bit_Some:
  "balloc_bit d b n k = Some bi \<Longrightarrow> k \<le> bi \<and> bi < BPB \<and> b + bi < n \<and> d (bi div 8) AND push_bit (bi mod 8) 1 = 0 \<and>
     (\<forall>j. k \<le> j \<and> j < bi \<longrightarrow> d (j div 8) AND push_bit (j mod 8) 1 \<noteq> 0)"
proof (induction d b n k rule: balloc_bit.induct)
  case (1 d b n k)
  show ?case
  proof (cases "k < BPB \<and> b + k < n")
    case True
    show ?thesis
    proof (cases "d (k div 8) AND push_bit (k mod 8) 1 = 0")
      case z: True
      then show ?thesis using 1(2) True by (subst (asm) balloc_bit.simps) auto
    next
      case nz: False
      have "balloc_bit d b n (k + 1) = Some bi" using 1(2) True nz by (subst (asm) balloc_bit.simps) auto
      from 1(1) [OF True nz this] nz show ?thesis by (metis Suc_eq_plus1 Suc_leD le_neq_implies_less Suc_leI)
    qed
  next
    case False
    then show ?thesis using 1(2) by (subst (asm) balloc_bit.simps) auto
  qed
qed

lemma balloc_bit_None:
  "balloc_bit d b n k = None \<Longrightarrow> k \<le> j \<Longrightarrow> j < BPB \<Longrightarrow> b + j < n \<Longrightarrow> d (j div 8) AND push_bit (j mod 8) 1 \<noteq> 0"
proof (induction d b n k rule: balloc_bit.induct)
  case (1 d b n k)
  then have g: "k < BPB \<and> b + k < n" by simp
  have nz: "d (k div 8) AND push_bit (k mod 8) 1 \<noteq> 0" "balloc_bit d b n (k + 1) = None"
    using 1(2) g by (subst (asm) balloc_bit.simps, simp split: if_splits)+
  show ?case
  proof (cases "j = k")
    case False
    then have "k + 1 \<le> j" using 1(3) by simp
    then show ?thesis using 1(1) [OF g nz(1) nz(2)] 1(4,5) by blast
  qed (use nz in simp)
qed

lemma log_space_mono: "log_space l k \<Longrightarrow> j \<le> k \<Longrightarrow> log_space l j"
  by (auto simp: log_space_def)

lemma log_space_room: "log_space l k \<Longrightarrow> k < NBUF"
  by (simp add: log_space_def LOGSIZE_def NBUF_def)

lemma bzero_spec:
  assumes "fstxn s V D P H" "bno \<notin> H" "card (P \<union> H) < NBUF" "log_space (flog s) (card P)"
  shows "\<exists>s'. bzero ROOTDEV bno s = Ok s' \<and> fstxn s' (V(bno := (\<lambda>_. 0))) D (insert bno P) H \<and> same_fs s s'"
  using ls.update [OF assms, of "\<lambda>_. 0"] by (auto simp: bzero_def)

lemma bit_test: "j < 8 \<Longrightarrow> (w :: u8) AND push_bit j 1 = 0 \<longleftrightarrow> \<not> bit w j"
  by (simp add: and_exp_eq_0_iff_not_bit push_bit_of_1)

lemma BBLOCK_same:
  assumes "b mod BPB = 0" "bi < BPB" "b + bi < 2 ^ 32"
  shows "BBLOCK (of_nat (b + bi)) sb = BBLOCK (of_nat b) sb" "(b + bi) mod BPB = bi"
proof -
  have d: "(of_nat x div of_nat BPB :: u32) = of_nat (x div BPB)" if "x < 2 ^ 32" for x
    using that div_le_dividend [of x BPB]
    by (simp add: word_unat_eq_iff unat_div unat_of_nat BPB_def BSIZE_def)
  have e: "(b + bi) div BPB = b div BPB" "(b + bi) mod BPB = bi"
    using assms(1,2) by (simp_all add: BPB_def BSIZE_def) (auto elim!: dvdE simp: mod_eq_0_iff_dvd)
  show "BBLOCK (of_nat (b + bi)) sb = BBLOCK (of_nat b) sb"
    unfolding BBLOCK_def d [OF assms(3)] e(1) using d [of b] assms(3) by simp
  show "(b + bi) mod BPB = bi" by (rule e(2))
qed

text \<open>The outcome of the search from block \<open>b\<close> on.\<close>

definition balloc_out :: "nat \<Rightarrow> fsst \<Rightarrow> (u32 \<Rightarrow> block) \<Rightarrow> (u32 \<Rightarrow> block) \<Rightarrow> u32 set \<Rightarrow> nat \<Rightarrow> (u32 \<times> fsst) kres \<Rightarrow> bool" where
  "balloc_out n s V D P b res \<longleftrightarrow>
     (\<exists>s1 s'. res = Ok (0, s') \<and> s' = fs_printf ''balloc: out of blocks'' s1 \<and> (\<forall>x. b \<le> x \<and> x < n \<longrightarrow> bitmap_bit V (fsb s) x) \<and>
        fstxn s1 V D P {} \<and> same_fs s s1) \<or>
     (\<exists>x s'. let bb = BBLOCK (of_nat x) (fsb s) in
        res = Ok (of_nat x, s') \<and> b \<le> x \<and> x < n \<and> \<not> bitmap_bit V (fsb s) x \<and> (\<forall>y. b \<le> y \<and> y < x \<longrightarrow> bitmap_bit V (fsb s) y) \<and>
        fstxn s' (V(bb := mark_bit (x mod BPB) (V bb), of_nat x := (\<lambda>_. 0))) D (insert (of_nat x) (insert bb P)) {} \<and> same_fs s s')"

lemma same_fs_refl: "same_fs s s"
  by (simp add: same_fs_def same_log_def)

lemma same_fs_trans: "same_fs a b \<Longrightarrow> same_fs b c \<Longrightarrow> same_fs a c"
  by (rule ls.same_trans)

lemma balloc_out_weaken:
  assumes "balloc_out n s1 V D P (b + BPB) res" "same_fs s s1"
    "\<And>x. b \<le> x \<Longrightarrow> x < b + BPB \<Longrightarrow> x < n \<Longrightarrow> bitmap_bit V (fsb s) x"
  shows "balloc_out n s V D P b res"
proof -
  have sb: "fsb s1 = fsb s" using assms(2) by (simp add: same_fs_def)
  have low: "bitmap_bit V (fsb s) x" if "b \<le> x" "x < n" "b + BPB \<le> x \<longrightarrow> bitmap_bit V (fsb s) x" for x
    using assms(3) that by (cases "x < b + BPB") auto
  from assms(1) consider
    (none) s2 where "res = Ok (0, fs_printf ''balloc: out of blocks'' s2)" "\<forall>x. b + BPB \<le> x \<and> x < n \<longrightarrow> bitmap_bit V (fsb s) x"
      "fstxn s2 V D P {}" "same_fs s1 s2"
  | (found) x s2 where "res = Ok (of_nat x, s2)" "b + BPB \<le> x" "x < n" "\<not> bitmap_bit V (fsb s) x"
      "\<forall>y. b + BPB \<le> y \<and> y < x \<longrightarrow> bitmap_bit V (fsb s) y" "same_fs s1 s2"
      "fstxn s2 (V(BBLOCK (of_nat x) (fsb s) := mark_bit (x mod BPB) (V (BBLOCK (of_nat x) (fsb s))), of_nat x := (\<lambda>_. 0))) D
         (insert (of_nat x) (insert (BBLOCK (of_nat x) (fsb s)) P)) {}"
    unfolding balloc_out_def Let_def sb by blast
  then show ?thesis
  proof cases
    case none
    have "\<forall>x. b \<le> x \<and> x < n \<longrightarrow> bitmap_bit V (fsb s) x" using low none(2) by blast
    then show ?thesis unfolding balloc_out_def using none same_fs_trans [OF assms(2)] by blast
  next
    case found
    have "\<forall>y. b \<le> y \<and> y < x \<longrightarrow> bitmap_bit V (fsb s) y" using low found(3,5) by (metis less_trans)
    moreover have "b \<le> x" using found(2) by simp
    ultimately show ?thesis unfolding balloc_out_def Let_def using found same_fs_trans [OF assms(2)] by blast
  qed
qed

lemma balloc_loop_spec:
  assumes "fstxn s V D P {}" "log_space (flog s) (Suc (card P))" "b mod BPB = 0" "n < 2 ^ 32"
  shows "balloc_out n s V D P b (balloc_loop ROOTDEV n b s)"
  using assms
proof (induction "n - b" arbitrary: b s rule: less_induct)
  case (less b s)
  show ?case
  proof (cases "b < n")
    case False
    then show ?thesis using less.prems(1) same_fs_refl
      by (subst balloc_loop.simps) (auto simp: balloc_out_def)
  next
    case True
    let ?sb = "fsb s" and ?bb = "BBLOCK (of_nat b) (fsb s)"
    have sp: "log_space (flog s) (card P)" using log_space_mono [OF less.prems(2)] by simp
    have room: "card (P \<union> {}) < NBUF" using log_space_room [OF sp] by simp
    obtain bp s1 s2 where s1: "fs_bread ROOTDEV ?bb s = Ok (bp, s1)" "fstxn s1 V D P {?bb}" "buffer (lbc (flog s1)) bp ?bb" "bdat bp s1 = V ?bb" "same_fs s s1"
      and s2: "fs_brelse bp s1 = Ok s2" "fstxn s2 V D P {}" "same_fs s s2"
      using ls.look [OF less.prems(1) _ room, of ?bb] by blast
    have bits: "V ?bb (j div 8) AND push_bit (j mod 8) 1 \<noteq> 0 \<longleftrightarrow> bitmap_bit V ?sb (b + j)" if "j < BPB" "b + j < n" for j
      using BBLOCK_same [OF less.prems(3) that(1)] that(2) less.prems(4) by (simp add: bitmap_bit_def)
    show ?thesis
    proof (cases "balloc_bit (V ?bb) b n 0")
      case None
      have "balloc_loop ROOTDEV n b s = balloc_loop ROOTDEV n (b + BPB) s2"
        using True None by (subst balloc_loop.simps) (simp add: s1 s2)
      moreover have "balloc_out n s2 V D P (b + BPB) (balloc_loop ROOTDEV n (b + BPB) s2)"
        using less.hyps [of "b + BPB" s2] True s2(2) less.prems ls.same_space [OF s2(3)] by (simp add: BPB_def BSIZE_def)
      moreover have "bitmap_bit V ?sb x" if "b \<le> x" "x < b + BPB" "x < n" for x
        using balloc_bit_None [OF None, of "x - b"] bits [of "x - b"] that by simp
      ultimately show ?thesis using balloc_out_weaken [OF _ s2(3)] by simp
    next
      case (Some bi)
      note f = balloc_bit_Some [OF Some]
      have x: "b + bi < n" "bi < BPB" "\<not> bitmap_bit V ?sb (b + bi)" using f bits [of bi] by auto
      have below: "bitmap_bit V ?sb y" if "b \<le> y" "y < b + bi" for y
        using f bits [of "y - b"] that by (auto simp: less_diff_conv2)
      have xb: "BBLOCK (of_nat (b + bi)) ?sb = ?bb" "(b + bi) mod BPB = bi"
        using BBLOCK_same [OF less.prems(3) x(2)] x(1) less.prems(4) by simp_all
      have sp1: "log_space (flog s1) (card P)" using ls.same_space [OF s1(5)] sp by simp
      obtain s3 s4 where s4: "fs_log_write bp (set_bdat bp (mark_bit bi (V ?bb)) s1) = Ok s3" "fs_brelse bp s3 = Ok s4"
          "fstxn s4 (V(?bb := mark_bit bi (V ?bb))) D (insert ?bb P) {}" "same_fs s1 s4"
        using ls.finish [OF s1(2) _ s1(3) sp1, of "mark_bit bi (V ?bb)"] by auto
      have s04: "same_fs s s4" using same_fs_trans [OF s1(5) s4(4)] .
      have sp4: "log_space (flog s4) (card (insert ?bb P))"
        using ls.same_space [OF s04] log_space_mono [OF less.prems(2)] card_insert_le_m1 [of "Suc (card P)" P ?bb] by simp
      obtain s5 where s5: "bzero ROOTDEV (of_nat (b + bi)) s4 = Ok s5"
          "fstxn s5 (V(?bb := mark_bit bi (V ?bb), of_nat (b + bi) := (\<lambda>_. 0))) D (insert (of_nat (b + bi)) (insert ?bb P)) {}" "same_fs s4 s5"
        using bzero_spec [OF s4(3), of "of_nat (b + bi)"] log_space_room [OF sp4] sp4 by auto
      have "balloc_loop ROOTDEV n b s = Ok (of_nat (b + bi), s5)"
        using True Some s1(1,4) s4(1,2) s5(1)
        by (subst balloc_loop.simps) (simp add: mark_bit_def Let_def)
      then show ?thesis unfolding balloc_out_def Let_def
        using x below xb s5(2) same_fs_trans [OF s04 s5(3)]
        by (intro disjI2 exI [of _ "b + bi"] exI [of _ s5]) simp
    qed
  qed
qed

text \<open>The abstract allocator: the set of blocks in use.\<close>

definition allocated :: "(u32 \<Rightarrow> block) \<Rightarrow> superblock \<Rightarrow> nat set" where
  "allocated V sb = {x. x < unat (fsize sb) \<and> bitmap_bit V sb x}"

definition bitmap_blocks :: "superblock \<Rightarrow> u32 set" where
  "bitmap_blocks sb = (\<lambda>x. BBLOCK (of_nat x) sb) ` {..<unat (fsize sb)}"

definition clear_bit_at :: "nat \<Rightarrow> block \<Rightarrow> block" where
  "clear_bit_at bi d = d(bi div 8 := d (bi div 8) AND NOT (push_bit (bi mod 8) 1))"

lemma bitmap_bit_alt: "bitmap_bit V sb x \<longleftrightarrow> bit (V (BBLOCK (of_nat x) sb) (x mod BPB div 8)) (x mod BPB mod 8)"
  by (simp add: bitmap_bit_def and_exp_eq_0_iff_not_bit)

lemma BBLOCK_inj:
  assumes "BBLOCK (of_nat x) sb = BBLOCK (of_nat y) sb" "x mod BPB = y mod BPB" "x < 2 ^ 32" "y < 2 ^ 32"
  shows "x = y"
proof -
  have d: "unat (of_nat z div of_nat BPB :: u32) = z div BPB" if "z < 2 ^ 32" for z
    using that by (simp add: unat_div unat_of_nat BPB_def BSIZE_def)
  have "(of_nat x div of_nat BPB :: u32) = of_nat y div of_nat BPB" using assms(1) by (simp add: BBLOCK_def)
  then have "x div BPB = y div BPB" using d [OF assms(3)] d [OF assms(4)] by simp
  then show ?thesis using assms(2) by (metis div_mult_mod_eq)
qed

lemma same_slot: "x mod BPB div 8 = y mod BPB div 8 \<Longrightarrow> x mod BPB mod 8 = y mod BPB mod 8 \<Longrightarrow> x mod BPB = y mod BPB"
  by (metis div_mult_mod_eq)

lemma bitmap_mark:
  assumes "x < 2 ^ 32" "y < 2 ^ 32"
  shows "bitmap_bit (V(BBLOCK (of_nat x) sb := mark_bit (x mod BPB) (V (BBLOCK (of_nat x) sb)))) sb y \<longleftrightarrow> y = x \<or> bitmap_bit V sb y"
    "bitmap_bit (V(BBLOCK (of_nat x) sb := clear_bit_at (x mod BPB) (V (BBLOCK (of_nat x) sb)))) sb y \<longleftrightarrow> y \<noteq> x \<and> bitmap_bit V sb y"
  using BBLOCK_inj [of y sb x] same_slot [of y x] assms
  by (auto simp: bitmap_bit_alt mark_bit_def clear_bit_at_def bit_or_iff bit_and_iff bit_not_iff bit_exp_iff split: if_splits)

lemma bitmap_bit_other: "b \<noteq> BBLOCK (of_nat y) sb \<Longrightarrow> bitmap_bit (V(b := d)) sb y = bitmap_bit V sb y"
  by (simp add: bitmap_bit_def)

lemma bfree_spec:
  assumes t: "fstxn s V D P H" and H: "BBLOCK b (fsb s) \<notin> H" and room: "card (P \<union> H) < NBUF" and sp: "log_space (flog s) (card P)"
  shows "if bitmap_bit V (fsb s) (unat b)
    then \<exists>s'. bfree ROOTDEV b s = Ok s' \<and> same_fs s s' \<and>
      fstxn s' (V(BBLOCK b (fsb s) := clear_bit_at (unat b mod BPB) (V (BBLOCK b (fsb s))))) D (insert (BBLOCK b (fsb s)) P) H
    else bfree ROOTDEV b s = Panic ''freeing free block''"
proof -
  let ?bb = "BBLOCK b (fsb s)"
  obtain bp s1 s2 s3 where u: "fs_bread ROOTDEV ?bb s = Ok (bp, s1)" "bdat bp s1 = V ?bb"
      "fs_log_write bp (set_bdat bp (clear_bit_at (unat b mod BPB) (V ?bb)) s1) = Ok s2" "fs_brelse bp s2 = Ok s3"
      "fstxn s3 (V(?bb := clear_bit_at (unat b mod BPB) (V ?bb))) D (insert ?bb P) H" "same_fs s s3"
    using ls.update [OF t H room sp, of "clear_bit_at (unat b mod BPB) (V ?bb)"] by blast
  have bit: "bitmap_bit V (fsb s) (unat b) \<longleftrightarrow> V ?bb (unat b mod BPB div 8) AND push_bit (unat b mod BPB mod 8) 1 \<noteq> 0"
    by (simp add: bitmap_bit_def)
  show ?thesis
    using u [unfolded clear_bit_at_def] unfolding bit clear_bit_at_def by (simp add: bfree_def Let_def del: fun_upd_apply)
qed

lemma balloc_cases:
  assumes t: "fstxn s V D P {}" and sp: "log_space (flog s) (Suc (card P))"
  defines "sb \<equiv> fsb s" and "n \<equiv> unat (fsize (fsb s))"
  obtains (full) s' where "balloc ROOTDEV s = Ok (0, s')" "\<forall>x < n. bitmap_bit V sb x" "fstxn s' V D P {}" "itab s' = itab s"
  | (found) x s' bb where "balloc ROOTDEV s = Ok (of_nat x, s')" "x < n" "\<not> bitmap_bit V sb x" "bb = BBLOCK (of_nat x) sb"
      "fstxn s' (V(bb := mark_bit (x mod BPB) (V bb), of_nat x := (\<lambda>_. 0))) D (insert (of_nat x) (insert bb P)) {}" "same_fs s s'"
proof -
  have "n < 2 ^ 32" by (simp add: n_def unsigned_less)
  from balloc_loop_spec [OF t sp _ this, of 0] have "balloc_out n s V D P 0 (balloc ROOTDEV s)"
    by (simp add: balloc_def n_def)
  then show thesis
    unfolding balloc_out_def Let_def
  proof (elim disjE exE conjE)
    fix s1 s'
    assume a: "balloc ROOTDEV s = Ok (0, s')" "s' = fs_printf ''balloc: out of blocks'' s1"
      "\<forall>x. 0 \<le> x \<and> x < n \<longrightarrow> bitmap_bit V (fsb s) x" "fstxn s1 V D P {}" "same_fs s s1"
    then have "fstxn s' V D P {}" "itab s' = itab s" by (simp_all add: fs_printf_def fstxn_def same_fs_def)
    then show thesis using full a(1,3) by (simp add: sb_def)
  next
    fix x s'
    assume "balloc ROOTDEV s = Ok (of_nat x, s')" "x < n" "\<not> bitmap_bit V (fsb s) x" "same_fs s s'"
      "fstxn s' (V(BBLOCK (of_nat x) (fsb s) := mark_bit (x mod BPB) (V (BBLOCK (of_nat x) (fsb s))), of_nat x := (\<lambda>_. 0))) D
         (insert (of_nat x) (insert (BBLOCK (of_nat x) (fsb s)) P)) {}"
    then show thesis using found [of x s' "BBLOCK (of_nat x) (fsb s)"] by (simp add: sb_def)
  qed
qed

text \<open>
  C10: the block allocator implements a set of blocks in use. Inside a transaction with room for two more
  blocks, balloc either finds every block in use and returns 0 changing nothing, or returns a block that
  was free, adds exactly that block to the set, zeroes it and changes no other block outside the
  bitmap; bfree of a block in use removes exactly that block, and bfree of a free block panics.\<close>

theorem block_allocator_refines:
  assumes "fstxn s V D P {}" "log_space (flog s) (Suc (card P))" "fsb s = sb" "n = unat (fsize sb)"
    "\<forall>x < n. \<not> bitmap_bit V sb x \<longrightarrow> of_nat x \<notin> bitmap_blocks sb"
  shows "(\<exists>b s' V' P'. balloc ROOTDEV s = Ok (b, s') \<and> fstxn s' V' D P' {} \<and> itab s' = itab s \<and>
      (if allocated V sb = {..<n} then b = 0 \<and> V' = V
       else unat b < n \<and> unat b \<notin> allocated V sb \<and> allocated V' sb = insert (unat b) (allocated V sb) \<and> V' b = (\<lambda>_. 0) \<and>
         (\<forall>c. c \<noteq> b \<and> c \<notin> bitmap_blocks sb \<longrightarrow> V' c = V c))) \<and>
    (\<forall>b. unat b < n \<longrightarrow>
      (if unat b \<in> allocated V sb
       then \<exists>s' V' P'. bfree ROOTDEV b s = Ok s' \<and> fstxn s' V' D P' {} \<and> itab s' = itab s \<and>
         allocated V' sb = allocated V sb - {unat b} \<and> (\<forall>c. c \<notin> bitmap_blocks sb \<longrightarrow> V' c = V c)
       else bfree ROOTDEV b s = Panic ''freeing free block''))"
proof (intro conjI allI impI)
  have n32: "n < 2 ^ 32" using assms(4) by (simp add: unsigned_less)
  have bbin: "BBLOCK (of_nat x) sb \<in> bitmap_blocks sb" if "x < n" for x
    using that assms(4) by (simp add: bitmap_blocks_def)
  show "\<exists>b s' V' P'. balloc ROOTDEV s = Ok (b, s') \<and> fstxn s' V' D P' {} \<and> itab s' = itab s \<and>
      (if allocated V sb = {..<n} then b = 0 \<and> V' = V
       else unat b < n \<and> unat b \<notin> allocated V sb \<and> allocated V' sb = insert (unat b) (allocated V sb) \<and> V' b = (\<lambda>_. 0) \<and>
         (\<forall>c. c \<noteq> b \<and> c \<notin> bitmap_blocks sb \<longrightarrow> V' c = V c))"
    using assms(1,2)
  proof (cases rule: balloc_cases)
    case (full s')
    then have "allocated V sb = {..<n}" using assms(3,4) by (auto simp: allocated_def)
    then show ?thesis using full by auto
  next
    case (found x s' bb)
    have xn: "x < n" using found(2) assms(3,4) by simp
    then have "x < 2 ^ 32" using n32 by linarith
    with xn have x: "unat (of_nat x :: u32) = x" "x < n" by (simp_all add: unat_of_nat)
    let ?V1 = "V(bb := mark_bit (x mod BPB) (V bb))"
    let ?V' = "?V1(of_nat x := (\<lambda>_. 0))"
    have free: "x \<notin> allocated V sb" using found(3) assms(3) by (simp add: allocated_def)
    then have "allocated V sb \<noteq> {..<n}" using x(2) by blast
    moreover have "bitmap_bit ?V' sb y \<longleftrightarrow> y = x \<or> bitmap_bit V sb y" if y: "y < n" for y
    proof -
      have "(of_nat x :: u32) \<noteq> BBLOCK (of_nat y) sb" using assms(3,5) x(2) found(3) bbin [OF y] by auto
      then have "bitmap_bit ?V' sb y = bitmap_bit ?V1 sb y" by (rule bitmap_bit_other)
      then show ?thesis using bitmap_mark(1) [of x y V sb] n32 x(2) y found(4) assms(3) by simp
    qed
    then have "allocated ?V' sb = insert x (allocated V sb)" using x(2) assms(4) by (auto simp: allocated_def)
    moreover have "itab s' = itab s" using found(6) by (simp add: same_fs_def)
    moreover have "\<forall>c. c \<noteq> of_nat x \<and> c \<notin> bitmap_blocks sb \<longrightarrow> ?V' c = V c" using bbin [OF x(2)] found(4) assms(3) by auto
    ultimately show ?thesis using found(1,5) x free by (intro exI conjI) (assumption | simp)+
  qed
next
  fix b :: u32 assume b: "unat b < n"
  have n32: "n < 2 ^ 32" using assms(4) by (simp add: unsigned_less)
  have sp: "log_space (flog s) (card P)" "card (P \<union> {}) < NBUF"
    using log_space_mono [OF assms(2), of "card P"] log_space_room by auto
  have bb: "BBLOCK b sb \<in> bitmap_blocks sb" using b assms(4) unfolding bitmap_blocks_def by (intro image_eqI [of _ _ "unat b"]) auto
  note f = bfree_spec [OF assms(1) _ sp(2,1), of b]
  show "if unat b \<in> allocated V sb
       then \<exists>s' V' P'. bfree ROOTDEV b s = Ok s' \<and> fstxn s' V' D P' {} \<and> itab s' = itab s \<and>
         allocated V' sb = allocated V sb - {unat b} \<and> (\<forall>c. c \<notin> bitmap_blocks sb \<longrightarrow> V' c = V c)
       else bfree ROOTDEV b s = Panic ''freeing free block''"
  proof (cases "bitmap_bit V sb (unat b)")
    case True
    let ?V' = "V(BBLOCK b sb := clear_bit_at (unat b mod BPB) (V (BBLOCK b sb)))"
    obtain s' where s': "bfree ROOTDEV b s = Ok s'" "same_fs s s'" "fstxn s' ?V' D (insert (BBLOCK b sb) P) {}"
      using f True assms(3) by auto
    have "bitmap_bit ?V' sb y \<longleftrightarrow> y \<noteq> unat b \<and> bitmap_bit V sb y" if "y < n" for y
      using bitmap_mark(2) [of "unat b" y V sb] b n32 that by simp
    then have "allocated ?V' sb = allocated V sb - {unat b}" using assms(4) by (auto simp: allocated_def)
    moreover have "unat b \<in> allocated V sb" using True b assms(4) by (simp add: allocated_def)
    moreover have "\<forall>c. c \<notin> bitmap_blocks sb \<longrightarrow> ?V' c = V c" using bb by auto
    moreover have "itab s' = itab s" using s'(2) by (simp add: same_fs_def)
    ultimately show ?thesis using s'(1,3) by auto
  next
    case False
    then show ?thesis using f assms(3) by (simp add: allocated_def)
  qed
qed

section \<open>An example file system\<close>

definition demo_sb :: superblock where
  "demo_sb = \<lparr>magic = FSMAGIC, fsize = 1000, nblocks = 954, ninodes = 200, nlog = 30, logstart = 2, inodestart = 32, bmapstart = 45\<rparr>"

definition demo_blocks :: "u32 \<Rightarrow> block" where
  "demo_blocks = (\<lambda>_ _. 0)(45 := (\<lambda>i. if i < 6 then 255 else 0))"

definition blank_inode :: inode where
  "blank_inode = \<lparr>idev = 0, inum = 0, iref = 0, ilk = False, ivalid = False, itype = 0, imajor = 0, iminor = 0, inlink = 0, isize = 0,
     iaddrs = (\<lambda>_. 0)\<rparr>"

definition demo_fs :: fsst where
  "demo_fs = \<lparr>flog = reboot demo_blocks, fsb = demo_sb, itab = (\<lambda>_. blank_inode),
     fmem = \<lparr>kernel_end = 0x80021000, pmem = (\<lambda>_. 0), freelist = 0\<rparr>, fout = []\<rparr>"

lemma demo_fs_txn: "fstxn demo_fs demo_blocks demo_blocks {} {}"
  using cache_boot [of demo_blocks] by (simp add: fstxn_def demo_fs_def txn_def reboot_def demo_log_def)

lemma demo_fs_space: "k < 29 \<Longrightarrow> log_space (flog demo_fs) k"
  by (simp add: log_space_def demo_fs_def reboot_def demo_log_def LOGSIZE_def MAXOPBLOCKS_def)

lemma demo_BBLOCK: "x < 1000 \<Longrightarrow> BBLOCK (of_nat x) demo_sb = 45"
proof -
  assume x: "x < 1000"
  have "unat (of_nat x div of_nat BPB :: u32) = 0"
    using x by (simp add: unat_div unat_of_nat BPB_def BSIZE_def)
  then have "(of_nat x div of_nat BPB :: u32) = 0" by (simp add: unat_eq_zero)
  then show ?thesis by (simp add: BBLOCK_def demo_sb_def)
qed

theorem block_allocator_refines_witness:
  "\<exists>b s'. balloc ROOTDEV demo_fs = Ok (b, s') \<and> unat b < 1000 \<and> unat b \<notin> allocated demo_blocks demo_sb \<and>
    bfree ROOTDEV 999 demo_fs = Panic ''freeing free block''"
proof -
  have n: "unat (fsize demo_sb) = 1000" by (simp add: demo_sb_def)
  have bit: "bitmap_bit demo_blocks demo_sb x \<longleftrightarrow> x < 48" if "x < 1000" for x
  proof -
    have "bit (255 :: u8) k" if "k < 8" for k
    proof -
      have "k = 0 \<or> k = 1 \<or> k = 2 \<or> k = 3 \<or> k = 4 \<or> k = 5 \<or> k = 6 \<or> k = 7" using that by arith
      then show ?thesis by (elim disjE) simp_all
    qed
    moreover have "x mod BPB = x" "x div 8 < 6 \<longleftrightarrow> x < 48" using that by (auto simp: BPB_def BSIZE_def)
    ultimately show ?thesis using demo_BBLOCK [OF that] by (simp add: bitmap_bit_alt demo_blocks_def)
  qed
  have "of_nat x \<notin> bitmap_blocks demo_sb" if "x < 1000" "\<not> bitmap_bit demo_blocks demo_sb x" for x
  proof
    assume "of_nat x \<in> bitmap_blocks demo_sb"
    then have "(of_nat x :: u32) = 45" using demo_BBLOCK n by (auto simp: bitmap_blocks_def)
    then have "unat (of_nat x :: u32) = 45" by simp
    then have "x = 45" using that(1) by (simp add: unat_of_nat)
    then show False using bit that by simp
  qed
  then have h: "\<forall>x < 1000. \<not> bitmap_bit demo_blocks demo_sb x \<longrightarrow> of_nat x \<notin> bitmap_blocks demo_sb" by blast
  have a: "999 \<notin> allocated demo_blocks demo_sb" using bit [of 999] by (simp add: allocated_def)
  have "(999 :: nat) \<in> {..<1000}" by simp
  with a have ne: "allocated demo_blocks demo_sb \<noteq> {..<1000}" by metis
  have sb: "fsb demo_fs = demo_sb" "1000 = unat (fsize demo_sb)" using n by (simp_all add: demo_fs_def)
  have sp: "log_space (flog demo_fs) (Suc (card ({} :: u32 set)))" using demo_fs_space [of 1] by simp
  note r = block_allocator_refines [OF demo_fs_txn sp sb h]
  have "unat (999 :: u32) = 999" by simp
  then have "bfree ROOTDEV 999 demo_fs = Panic ''freeing free block''"
    using conjunct2 [OF r, THEN spec, of 999] a by simp
  moreover obtain b s' where "balloc ROOTDEV demo_fs = Ok (b, s')" "unat b < 1000" "unat b \<notin> allocated demo_blocks demo_sb"
    using conjunct1 [OF r] unfolding if_not_P [OF ne] by blast
  ultimately show ?thesis by blast
qed

end
