(* ===== verification/Fs_Inode.thy ===== *)
theory Fs_Inode
  imports Fs_Block
begin

text \<open>
  Inodes of kernel/fs.c: the codec of the disk inode, iupdate and ilock, the inode table (iget, idup,
  iput), path elements and directory names, and the sizes that readi and writei return and keep.
\<close>

unbundle bit_operations_syntax


section \<open>Inodes on disk\<close>

definition dinode_eq :: "dinode \<Rightarrow> dinode \<Rightarrow> bool" where
  "dinode_eq x y \<longleftrightarrow> dtype x = dtype y \<and> dmajor x = dmajor y \<and> dminor x = dminor y \<and> dnlink x = dnlink y \<and> dsize x = dsize y \<and>
     (\<forall>j \<le> NDIRECT. daddrs x j = daddrs y j)"

lemma fold_put32_get:
  "j < n \<Longrightarrow> get32 (fold (\<lambda>j. put32 (p + 4 * j) (f j)) [0..<n] d) (p + 4 * j) = f j"
  "off + 4 \<le> p \<or> p + 4 * n \<le> off \<Longrightarrow> get32 (fold (\<lambda>j. put32 (p + 4 * j) (f j)) [0..<n] d) off = get32 d off"
  "off + 2 \<le> p \<or> p + 4 * n \<le> off \<Longrightarrow> get16 (fold (\<lambda>j. put32 (p + 4 * j) (f j)) [0..<n] d) off = get16 d off"
  by (induction n) (auto simp: get_put_other less_Suc_eq)

lemmas dinode_layout = get_dinode_def put_dinode_def Let_def sizeof_dinode_def NDIRECT_def

lemma get_put_dinode: "dinode_eq (get_dinode (put_dinode i x d) i) x"
  by (simp add: dinode_eq_def dinode_layout fold_put32_get get_put_other del: upt_Suc)

lemma get_put_dinode_other:
  assumes "i \<noteq> j"
  shows "dinode_eq (get_dinode (put_dinode i x d) j) (get_dinode d j)"
proof -
  have "64 * i + 64 \<le> 64 * j \<or> 64 * j + 64 \<le> 64 * i" using assms by arith
  then show ?thesis
    by (auto simp: dinode_eq_def dinode_layout fold_put32_get get_put_other simp del: upt_Suc)
qed

text \<open>The inode numbered \<open>m\<close> on a disk with contents \<open>V\<close>.\<close>

definition disk_inode :: "(u32 \<Rightarrow> block) \<Rightarrow> superblock \<Rightarrow> u32 \<Rightarrow> dinode" where
  "disk_inode V sb m = get_dinode (V (IBLOCK m sb)) (unat m mod IPB)"

lemma IBLOCK_inj: "IBLOCK m sb = IBLOCK k sb \<Longrightarrow> unat m mod IPB = unat k mod IPB \<Longrightarrow> m = k"
proof -
  assume a: "IBLOCK m sb = IBLOCK k sb" "unat m mod IPB = unat k mod IPB"
  then have "m div of_nat IPB = k div of_nat IPB" by (simp add: IBLOCK_def)
  then have "unat (m div of_nat IPB) = unat (k div of_nat IPB)" by simp
  then have "unat m div IPB = unat k div IPB"
    by (simp add: unat_div IPB_def BSIZE_def sizeof_dinode_def NDIRECT_def)
  then have "unat m = unat k" using a(2) by (metis div_mult_mod_eq)
  then show "m = k" by (simp add: word_unat_eq_iff)
qed

lemma iupdate_spec:
  assumes t: "fstxn s V D P H" and H: "IBLOCK (inum (itab s ip)) (fsb s) \<notin> H" and room: "card (P \<union> H) < NBUF"
    and sp: "log_space (flog s) (card P)" and dev: "idev (itab s ip) = ROOTDEV"
  shows "\<exists>s'. iupdate ip s = Ok s' \<and> same_fs s s' \<and>
    (let bb = IBLOCK (inum (itab s ip)) (fsb s) in
      fstxn s' (V(bb := put_dinode (unat (inum (itab s ip)) mod IPB) (inode_disk (itab s ip)) (V bb))) D (insert bb P) H)"
  using ls.update [OF t H room sp, of "put_dinode (unat (inum (itab s ip)) mod IPB) (inode_disk (itab s ip)) (V (IBLOCK (inum (itab s ip)) (fsb s)))"]
  unfolding iupdate_def Let_def dev by (auto simp del: fun_upd_apply)

lemma ilock_load:
  assumes t: "fstxn s V D P H" and H: "IBLOCK (inum (itab s ip)) (fsb s) \<notin> H" and room: "card (P \<union> H) < NBUF"
    and ip: "idev (itab s ip) = ROOTDEV" "0 < iref (itab s ip)" "\<not> ilk (itab s ip)" "\<not> ivalid (itab s ip)"
    and ty: "dtype (disk_inode V (fsb s) (inum (itab s ip))) \<noteq> 0"
  shows "\<exists>s'. ilock (Some ip) s = Ok s' \<and> fstxn s' V D P H \<and>
    itab s' = (itab s)(ip := (load_dinode (disk_inode V (fsb s) (inum (itab s ip))) (itab s ip))\<lparr>ilk := True, ivalid := True\<rparr>)"
proof -
  let ?bb = "IBLOCK (inum (itab s ip)) (fsb s)" and ?s0 = "upd_inode ip (\<lambda>x. x\<lparr>ilk := True\<rparr>) s"
  have t0: "fstxn ?s0 V D P H" using t by (simp add: fstxn_def upd_inode_def)
  obtain bp s1 s2 where u: "fs_bread ROOTDEV ?bb ?s0 = Ok (bp, s1)" "fstxn s1 V D P (insert ?bb H)" "buffer (lbc (flog s1)) bp ?bb" "bdat bp s1 = V ?bb"
      "same_fs ?s0 s1" "fs_brelse bp s1 = Ok s2" "fstxn s2 V D P H" "same_fs ?s0 s2"
    using ls.look [OF t0 H room] by blast
  define f where "f = load_dinode (disk_inode V (fsb s) (inum (itab s ip)))"
  have r: "fs_brelse bp (upd_inode ip f s1) = Ok (upd_inode ip f s2)"
    using u(5,6,8) by (auto simp: fs_brelse_def upd_inode_def same_fs_def)
  have it: "itab s1 = itab ?s0" "itab s2 = itab ?s0" using u(5,8) by (simp_all add: same_fs_def)
  let ?s' = "upd_inode ip (\<lambda>x. x\<lparr>ivalid := True\<rparr>) (upd_inode ip f s2)"
  have lt: "itype (itab ?s' ip) \<noteq> 0" using ty by (simp add: upd_inode_def f_def load_dinode_def)
  have "itab ?s' = (itab s)(ip := (f (itab s ip))\<lparr>ilk := True, ivalid := True\<rparr>)"
    by (cases "itab s ip") (simp add: upd_inode_def it f_def load_dinode_def cong: if_cong)
  moreover have "fstxn ?s' V D P H" using u(7) by (simp add: fstxn_def upd_inode_def)
  moreover have "ilock (Some ip) s = Ok ?s'"
    using ip u(1,4) r lt unfolding ilock_def
    by (simp add: Let_def upd_inode_def [of ip "\<lambda>x. x\<lparr>ilk := True\<rparr>"] f_def disk_inode_def)
  ultimately show ?thesis by (auto simp: f_def)
qed

text \<open>
  C11: writing an inode back and reading it again is the identity. Inside a transaction with room in the
  log, iupdate succeeds and leaves every other inode on the disk as it was; and ilock of any table slot
  that stands for the same inode and has not read it yet gives that slot the type, the device numbers,
  the link count, the size and all block addresses that were written.\<close>

theorem inode_writeback_roundtrip:
  assumes "fstxn s V D P {}" "log_space (flog s) (Suc (card P))" "idev (itab s ip) = ROOTDEV" "itype (itab s ip) \<noteq> 0"
  shows "\<exists>s' V' P'. iupdate ip s = Ok s' \<and> itab s' = itab s \<and> fstxn s' V' D P' {} \<and>
    (\<forall>m. m \<noteq> inum (itab s ip) \<longrightarrow> dinode_eq (disk_inode V' (fsb s) m) (disk_inode V (fsb s) m)) \<and>
    (\<forall>r jp. fstxn r V' D P' {} \<and> fsb r = fsb s \<and> idev (itab r jp) = ROOTDEV \<and> inum (itab r jp) = inum (itab s ip) \<and>
       0 < iref (itab r jp) \<and> \<not> ilk (itab r jp) \<and> \<not> ivalid (itab r jp) \<longrightarrow>
       (\<exists>r'. ilock (Some jp) r = Ok r' \<and> dinode_eq (inode_disk (itab r' jp)) (inode_disk (itab s ip))))"
proof -
  let ?x = "itab s ip" and ?sb = "fsb s"
  let ?bb = "IBLOCK (inum ?x) ?sb" and ?o = "unat (inum ?x) mod IPB"
  let ?V' = "V(?bb := put_dinode ?o (inode_disk ?x) (V ?bb))"
  have sp: "log_space (flog s) (card P)" "card (P \<union> {}) < NBUF"
    using log_space_mono [OF assms(2), of "card P"] log_space_room by auto
  have fin: "finite P" using assms(1) by (auto simp: fstxn_def txn_def cache_def)
  have room': "card (insert ?bb P \<union> {}) < NBUF"
    using log_space_room [OF assms(2)] fin by (simp add: card_insert_if)
  obtain s' where s': "iupdate ip s = Ok s'" "same_fs s s'" "fstxn s' ?V' D (insert ?bb P) {}"
    using iupdate_spec [OF assms(1) _ sp(2,1) assms(3)] by (auto simp: Let_def)
  have eq: "dinode_eq (disk_inode ?V' ?sb (inum ?x)) (inode_disk ?x)"
    unfolding disk_inode_def fun_upd_same by (rule get_put_dinode)
  have "dinode_eq (disk_inode ?V' ?sb m) (disk_inode V ?sb m)" if "m \<noteq> inum ?x" for m
  proof (cases "IBLOCK m ?sb = ?bb")
    case True
    then have "?o \<noteq> unat m mod IPB" using IBLOCK_inj [OF True] that by auto
    then show ?thesis unfolding disk_inode_def True fun_upd_same by (rule get_put_dinode_other)
  qed (simp add: disk_inode_def dinode_eq_def)
  moreover have "\<exists>r'. ilock (Some jp) r = Ok r' \<and> dinode_eq (inode_disk (itab r' jp)) (inode_disk ?x)"
    if r: "fstxn r ?V' D (insert ?bb P) {}" "fsb r = ?sb" "idev (itab r jp) = ROOTDEV" "inum (itab r jp) = inum ?x"
      "0 < iref (itab r jp)" "\<not> ilk (itab r jp)" "\<not> ivalid (itab r jp)" for r jp
  proof -
    have "dtype (disk_inode ?V' (fsb r) (inum (itab r jp))) \<noteq> 0"
      using eq assms(4) unfolding r(2,4) by (simp add: dinode_eq_def inode_disk_def)
    from ilock_load [OF r(1) _ room' r(3,5-7) this] obtain r' where r': "ilock (Some jp) r = Ok r'"
        "itab r' = (itab r)(jp := (load_dinode (disk_inode ?V' (fsb r) (inum (itab r jp))) (itab r jp))\<lparr>ilk := True, ivalid := True\<rparr>)"
      by blast
    have "dinode_eq (inode_disk (itab r' jp)) (disk_inode ?V' ?sb (inum ?x))"
      unfolding r'(2) r(2,4) by (simp add: dinode_eq_def inode_disk_def load_dinode_def)
    then show ?thesis using r'(1) eq by (auto simp: dinode_eq_def)
  qed
  moreover have "itab s' = itab s" using s'(2) by (simp add: same_fs_def)
  ultimately show ?thesis using s'(1,3) by (intro exI [of _ s'] exI [of _ ?V'] exI [of _ "insert ?bb P"]) (simp del: fun_upd_apply)
qed

definition demo_file :: inode where
  "demo_file = blank_inode\<lparr>idev := ROOTDEV, inum := 17, iref := 1, ivalid := True, itype := T_FILE, inlink := 1, isize := 5, iaddrs := (\<lambda>i. of_nat i + 60)\<rparr>"

theorem inode_writeback_roundtrip_witness:
  "\<exists>s' r'. iupdate 3 (demo_fs\<lparr>itab := (\<lambda>_. blank_inode)(3 := demo_file)\<rparr>) = Ok s' \<and>
    ilock (Some 4) (s'\<lparr>itab := (\<lambda>_. blank_inode)(4 := blank_inode\<lparr>idev := ROOTDEV, inum := 17, iref := 1\<rparr>)\<rparr>) = Ok r' \<and>
    isize (itab r' 4) = 5 \<and> iaddrs (itab r' 4) 12 = 72"
proof -
  let ?s = "demo_fs\<lparr>itab := (\<lambda>_. blank_inode)(3 := demo_file)\<rparr>"
  have t: "fstxn ?s demo_blocks demo_blocks {} {}" "log_space (flog ?s) (Suc (card ({} :: u32 set)))"
    using demo_fs_txn demo_fs_space [of 1] by (simp_all add: fstxn_def)
  have x: "idev (itab ?s 3) = ROOTDEV" "itype (itab ?s 3) \<noteq> 0" by (simp_all add: demo_file_def blank_inode_def T_FILE_def)
  obtain s' V' P' where s': "iupdate 3 ?s = Ok s'" "fstxn s' V' demo_blocks P' {}" and
    l: "\<forall>r jp. fstxn r V' demo_blocks P' {} \<and> fsb r = fsb ?s \<and> idev (itab r jp) = ROOTDEV \<and> inum (itab r jp) = inum (itab ?s 3) \<and>
       0 < iref (itab r jp) \<and> \<not> ilk (itab r jp) \<and> \<not> ivalid (itab r jp) \<longrightarrow>
       (\<exists>r'. ilock (Some jp) r = Ok r' \<and> dinode_eq (inode_disk (itab r' jp)) (inode_disk (itab ?s 3)))"
    using inode_writeback_roundtrip [OF t x] by blast
  have "fsb s' = fsb ?s" using iupdate_spec [OF t(1) _ _ _ x(1)] demo_fs_space [of 0] s'(1)
    by (auto simp: same_fs_def NBUF_def MAXOPBLOCKS_def)
  let ?r = "s'\<lparr>itab := (\<lambda>_. blank_inode)(4 := blank_inode\<lparr>idev := ROOTDEV, inum := 17, iref := 1\<rparr>)\<rparr>"
  have "fstxn ?r V' demo_blocks P' {}" using s'(2) by (simp add: fstxn_def)
  then obtain r' where "ilock (Some 4) ?r = Ok r'" "dinode_eq (inode_disk (itab r' 4)) (inode_disk (itab ?s 3))"
    using l [THEN spec, of ?r, THEN spec, of 4] \<open>fsb s' = fsb ?s\<close> by (auto simp: blank_inode_def demo_file_def)
  then show ?thesis using s'(1) by (auto simp: dinode_eq_def inode_disk_def demo_file_def NDIRECT_def)
qed

section \<open>The inode table\<close>






definition same_ids :: "fsst \<Rightarrow> fsst \<Rightarrow> bool" where
  "same_ids s s' \<longleftrightarrow> (\<forall>i. idev (itab s' i) = idev (itab s i) \<and> inum (itab s' i) = inum (itab s i) \<and> iref (itab s' i) = iref (itab s i))"

lemma same_ids_refl [simp]: "same_ids s s"
  by (simp add: same_ids_def)





lemma itab_store [simp]:
  "fs_bread d b s = Ok (bp, s') \<Longrightarrow> itab s' = itab s"
  "fs_brelse bp s = Ok s' \<Longrightarrow> itab s' = itab s"
  "fs_log_write bp s = Ok s' \<Longrightarrow> itab s' = itab s"
  by (auto simp: fs_bread_def fs_brelse_def fs_log_write_def)

lemma itab_set_bdat [simp]: "itab (set_bdat b d s) = itab s"
  by (simp add: set_bdat_def)


lemma iupdate_itab: "iupdate ip s = Ok s' \<Longrightarrow> itab s' = itab s"
  by (auto simp: iupdate_def Let_def dest!: itab_store)


















section \<open>Path names and directory entries\<close>

text \<open>The elements of a path name: its maximal runs of bytes other than the slash.\<close>

function elems :: "u8 list \<Rightarrow> u8 list list" where
  "elems p =
     (case dropWhile (\<lambda>c. c = SLASH) p of
        [] \<Rightarrow> []
      | c # r \<Rightarrow> takeWhile (\<lambda>c. c \<noteq> SLASH) (c # r) # elems (dropWhile (\<lambda>c. c \<noteq> SLASH) r))"
  by pat_completeness auto
termination
proof (relation "measure length")
  fix p c r
  assume "dropWhile (\<lambda>c. c = SLASH) p = c # r"
  then show "(dropWhile (\<lambda>c. c \<noteq> SLASH) r, p) \<in> measure length"
    using length_dropWhile_le [of "\<lambda>c. c = SLASH" p] length_dropWhile_le [of "\<lambda>c. c \<noteq> SLASH" r] by simp
qed simp

declare elems.simps [simp del]

text \<open>The name a directory entry can hold: the bytes before the NUL, 14 at most.\<close>

definition cname :: "u8 list \<Rightarrow> u8 list" where
  "cname x = takeWhile (\<lambda>c. c \<noteq> 0) (take DIRSIZ x)"

text \<open>The path elements that the loop of \<open>namex\<close> takes, one call of \<open>skipelem\<close> after the other.\<close>

function skipelems :: "u8 list \<Rightarrow> u8 list \<Rightarrow> u8 list list" where
  "skipelems pth name = (case skipelem pth name of None \<Rightarrow> [] | Some (rest', name') \<Rightarrow> cname name' # skipelems rest' name')"
  by pat_completeness auto
termination by (relation "measure (\<lambda>(pth, name). length pth)") (auto intro: skipelem_shorter)

declare skipelems.simps [simp del]

lemma elems_drop_slash: "elems (dropWhile (\<lambda>c. c = SLASH) p) = elems p"
  by (subst (1 2) elems.simps) simp

lemma cname_short:
  assumes "length x < DIRSIZ" "0 \<notin> set x"
  shows "cname (x @ [0] @ y) = x"
proof -
  have "take DIRSIZ (x @ [0] @ y) = x @ 0 # take (DIRSIZ - length x - 1) y" using assms(1) by (cases "DIRSIZ - length x") auto
  moreover have "takeWhile (\<lambda>c. c \<noteq> 0) (x @ 0 # z) = x" for z :: "u8 list" using assms(2) by (induction x) auto
  ultimately show ?thesis unfolding cname_def by simp
qed

lemma cname_long:
  assumes "DIRSIZ \<le> length x" "0 \<notin> set x"
  shows "cname (take DIRSIZ x) = take DIRSIZ x"
  using assms(2) by (auto simp: cname_def takeWhile_eq_all_conv dest: in_set_takeD)

lemma notin_takeWhile: "x \<notin> set xs \<Longrightarrow> x \<notin> set (takeWhile P xs)"
  by (auto dest: set_takeWhileD)

lemma notin_dropWhile: "x \<notin> set xs \<Longrightarrow> x \<notin> set (dropWhile P xs)"
  by (induction xs) auto

lemma skipelem_elems:
  assumes "0 \<notin> set pth"
  shows "skipelem pth name = None \<and> elems pth = [] \<or>
    (\<exists>rest' name'. skipelem pth name = Some (rest', name') \<and> 0 \<notin> set rest' \<and> (\<exists>x. elems pth = x # elems rest' \<and> cname name' = take DIRSIZ x))"
proof (cases "dropWhile (\<lambda>c. c = SLASH) pth")
  case Nil
  then have "elems pth = []" by (subst elems.simps) (simp del: dropWhile_eq_Nil_conv)
  then show ?thesis using Nil by (simp add: skipelem_def Let_def del: dropWhile_eq_Nil_conv)
next
  case (Cons c r)
  define q where "q = dropWhile (\<lambda>c. c = SLASH) pth"
  let ?x = "takeWhile (\<lambda>c. c \<noteq> SLASH) q" and ?r = "dropWhile (\<lambda>c. c \<noteq> SLASH) q"
  have "0 \<notin> set q" unfolding q_def using assms by (rule notin_dropWhile)
  then have z: "0 \<notin> set ?x" and z': "0 \<notin> set (dropWhile (\<lambda>c. c = SLASH) ?r)"
    by (simp_all add: notin_takeWhile notin_dropWhile)
  have "c \<noteq> SLASH" using hd_dropWhile [of "\<lambda>c. c = SLASH" pth] unfolding Cons by simp
  then have "elems pth = ?x # elems (dropWhile (\<lambda>c. c = SLASH) ?r)"
    using Cons by (subst elems.simps) (simp add: q_def elems_drop_slash)
  moreover have "cname (if DIRSIZ \<le> length ?x then take DIRSIZ ?x else ?x @ [0] @ drop (length ?x + 1) name) = take DIRSIZ ?x"
    using cname_long [OF _ z] cname_short [OF _ z] by (cases "DIRSIZ \<le> length ?x") simp_all
  moreover have "skipelem pth name = Some (dropWhile (\<lambda>c. c = SLASH) ?r, if DIRSIZ \<le> length ?x then take DIRSIZ ?x else ?x @ [0] @ drop (length ?x + 1) name)"
    unfolding skipelem_def Let_def q_def [symmetric] using Cons q_def by simp
  ultimately show ?thesis using z' by blast
qed

text \<open>
  C35: the loop of namex takes exactly the elements of the path name, in order, each cut to the 14 bytes
  of a directory entry, whatever number of slashes stands before, between and after them and whatever
  the name array held before; and after the last element it ends.\<close>

theorem skipelem_path_elements:
  assumes "0 \<notin> set pth"
  shows "skipelems pth name = map (take DIRSIZ) (elems pth)"
  using assms
proof (induction pth name rule: skipelems.induct)
  case (1 pth name)
  from skipelem_elems [OF 1(2), of name] show ?case
  proof (elim disjE exE conjE)
    assume "skipelem pth name = None" "elems pth = []"
    then show ?thesis by (subst skipelems.simps) simp
  next
    fix r n x assume a: "skipelem pth name = Some (r, n)" "0 \<notin> set r" "elems pth = x # elems r" "cname n = take DIRSIZ x"
    have "skipelems r n = map (take DIRSIZ) (elems r)" using 1(1) [OF a(1) refl a(2)] .
    then show ?thesis using a by (subst skipelems.simps) simp
  qed
qed

theorem skipelem_path_elements_witness:
  "skipelems [47, 97, 47, 47, 98, 98, 47] [1, 2, 3] = [[97], [98, 98]]"
proof -
  have "elems [47, 97, 47, 47, 98, 98, 47] = [[97], [98, 98]]" by (simp add: elems.simps SLASH_def)
  then show ?thesis using skipelem_path_elements [of "[47, 97, 47, 47, 98, 98, 47]" "[1, 2, 3]"] by (simp add: DIRSIZ_def)
qed

lemma strncmp_bytes_zero: "strncmp_bytes n p q = 0 \<longleftrightarrow> takeWhile (\<lambda>c. c \<noteq> 0) (take n p) = takeWhile (\<lambda>c. c \<noteq> 0) (take n q)"
proof (induction n arbitrary: p q)
  case (Suc n)
  show ?case using Suc [of "tl p" "tl q"] by (cases p; cases q) (auto simp: first_byte_def uint_0_iff word_uint_eq_iff [symmetric])
qed simp

lemma strncpy_bytes_name: "length (strncpy_bytes n t) = n \<and> takeWhile (\<lambda>c. c \<noteq> 0) (strncpy_bytes n t) = takeWhile (\<lambda>c. c \<noteq> 0) (take n t)"
proof (induction n arbitrary: t)
  case (Suc n)
  show ?case using Suc [of "tl t"] by (cases t) (auto simp: first_byte_def)
qed simp

lemma dirent_name_equal: "namecmp a (strncpy_bytes DIRSIZ b) = 0 \<longleftrightarrow> cname a = cname b"
  using strncpy_bytes_name [of DIRSIZ b] by (simp add: namecmp_def strncmp_bytes_zero cname_def)

section \<open>Sizes of reads and writes\<close>

definition same_sizes :: "fsst \<Rightarrow> fsst \<Rightarrow> bool" where
  "same_sizes s s' \<longleftrightarrow> (\<forall>i. isize (itab s' i) = isize (itab s i))"

lemma same_sizes_refl [simp]: "same_sizes s s"
  by (simp add: same_sizes_def)

lemma same_sizes_trans: "same_sizes a b \<Longrightarrow> same_sizes b c \<Longrightarrow> same_sizes a c"
  by (simp add: same_sizes_def)

lemma same_sizes_itab: "itab s' = itab s \<Longrightarrow> same_sizes s s'"
  by (simp add: same_sizes_def)

lemma bzero_itab: "bzero d b s = Ok s' \<Longrightarrow> itab s' = itab s"
  by (auto simp: bzero_def dest!: itab_store)

lemma balloc_loop_itab: "balloc_loop d n b s = Ok (a, s') \<Longrightarrow> itab s' = itab s"
proof (induction d n b s rule: balloc_loop.induct)
  case (1 d n b s)
  show ?case
  proof (cases "b < n")
    case False
    then show ?thesis using 1(2) by (subst (asm) balloc_loop.simps) (auto simp: fs_printf_def)
  next
    case True
    obtain bp s1 where s1: "fs_bread d (BBLOCK (of_nat b) (fsb s)) s = Ok (bp, s1)"
      using 1(2) True by (subst (asm) balloc_loop.simps) auto
    show ?thesis
    proof (cases "balloc_bit (bdat bp s1) b n 0")
      case None
      then obtain s2 where s2: "fs_brelse bp s1 = Ok s2" "balloc_loop d n (b + BPB) s2 = Ok (a, s')"
        using 1(2) True s1 by (subst (asm) balloc_loop.simps) auto
      then show ?thesis using 1(1) [OF True s1 refl None s2(1) s2(2)] itab_store(1) [OF s1] itab_store(2) [OF s2(1)] by simp
    next
      case (Some bi)
      then obtain s2 s3 where "fs_log_write bp (set_bdat bp ((bdat bp s1)(bi div 8 := bdat bp s1 (bi div 8) OR push_bit (bi mod 8) 1)) s1) = Ok s2"
        "fs_brelse bp s2 = Ok s3" "bzero d (of_nat (b + bi)) s3 = Ok s'"
        using 1(2) True s1 by (subst (asm) balloc_loop.simps) (auto simp: Let_def)
      then show ?thesis using itab_store(1) [OF s1] by (auto dest!: itab_store bzero_itab)
    qed
  qed
qed

lemma balloc_itab: "balloc d s = Ok (a, s') \<Longrightarrow> itab s' = itab s"
  unfolding balloc_def by (rule balloc_loop_itab)

lemma bmap_slot_sizes: "bmap_slot ip i s = Ok (a, s') \<Longrightarrow> same_sizes s s'"
  by (auto simp: bmap_slot_def set_addr_def upd_inode_def same_sizes_def split: if_splits dest!: balloc_itab)

lemma bmap_indirect_itab:
  assumes "kbind (if addr = 0 then kbind (balloc d s) (\<lambda>(addr, s).
               if addr \<noteq> 0 then kbind (fs_log_write bp (set_bdat bp (f addr s) s)) (\<lambda>s. Ok (addr, s)) else Ok (addr, s))
             else Ok (addr, s)) (\<lambda>(addr, s). kbind (fs_brelse bp s) (\<lambda>s. Ok (addr, s))) = Ok (a, s')"
  shows "itab s' = itab s"
proof -
  obtain a1 s1 where b: "fs_brelse bp s1 = Ok s'" and
    i: "(if addr = 0 then kbind (balloc d s) (\<lambda>(addr, s).
               if addr \<noteq> 0 then kbind (fs_log_write bp (set_bdat bp (f addr s) s)) (\<lambda>s. Ok (addr, s)) else Ok (addr, s))
             else Ok (addr, s)) = Ok (a1, s1)"
    using assms by (elim kbind_pairE) auto
  have "itab s1 = itab s"
  proof (cases "addr = 0")
    case True
    then obtain a2 s2 where s2: "balloc d s = Ok (a2, s2)" and
      w: "(if a2 \<noteq> 0 then kbind (fs_log_write bp (set_bdat bp (f a2 s2) s2)) (\<lambda>s. Ok (a2, s)) else Ok (a2, s2)) = Ok (a1, s1)"
      using i unfolding if_P [OF True] by (elim kbind_pairE) blast
    have "itab s1 = itab s2" using w by (auto split: if_splits dest!: itab_store)
    then show ?thesis using balloc_itab [OF s2] by simp
  qed (use i in simp)
  then show ?thesis using itab_store(2) [OF b] by simp
qed

lemma bmap_sizes:
  assumes "bmap ip bn s = Ok (a, s')"
  shows "same_sizes s s'"
proof (cases "unat bn < NDIRECT")
  case True
  then show ?thesis using assms by (simp add: bmap_def bmap_slot_sizes)
next
  case False
  note m = assms [unfolded bmap_def Let_def if_not_P [OF False]]
  have "unat bn - NDIRECT < NINDIRECT" using m by (cases "unat bn - NDIRECT < NINDIRECT") simp_all
  note m = m [unfolded if_P [OF this]]
  obtain a1 s1 where s1: "bmap_slot ip NDIRECT s = Ok (a1, s1)" using m by (rule kbind_pairE)
  have "itab s' = itab s1"
  proof (cases "a1 = 0")
    case False
    note m = m [unfolded s1 kbind.simps prod.case if_not_P [OF False]]
    obtain bp s2 where s2: "fs_bread (idev (itab s1 ip)) a1 s1 = Ok (bp, s2)" using m by (rule kbind_pairE)
    have "itab s' = itab s2" using m unfolding s2 kbind.simps prod.case by (rule bmap_indirect_itab)
    then show ?thesis using itab_store(1) [OF s2] by simp
  qed (use m s1 in simp)
  then show ?thesis using bmap_slot_sizes [OF s1] by (simp add: same_sizes_def)
qed

lemma buffer_itab [simp]: "itab (expose e b s) = itab s" "itab (absorb e b s) = itab s"
  by (simp_all add: expose_def absorb_def)


lemma word_step:
  fixes tot n m :: u32
  assumes "m \<le> n - tot" "tot < n"
  shows "tot + m \<le> n" "tot \<le> tot + m"
proof -
  have "unat m \<le> unat n - unat tot" "unat tot < unat n" using assms by (simp_all add: word_le_nat_alt word_less_nat_alt unat_sub_if')
  moreover have "unat n < 2 ^ LENGTH(32)" by (rule unsigned_less)
  ultimately have "unat tot + unat m \<le> unat n" "unat tot + unat m < 2 ^ LENGTH(32)" by linarith+
  moreover from this(2) have "unat (tot + m) = unat tot + unat m" by (simp add: unat_word_ariths)
  ultimately show "tot + m \<le> n" "tot \<le> tot + m" by (simp_all add: word_le_nat_alt)
qed

lemma readi_loop_bound: "readi_loop e ip u dst off n tot s = Ok (r, s') \<Longrightarrow> tot \<le> n \<Longrightarrow> r = -1 \<or> tot \<le> r \<and> r \<le> n"
proof (induction e ip u dst off n tot s rule: readi_loop.induct)
  case (1 e ip u dst off n tot s)
  show ?case
  proof (cases "tot < n")
    case False
    then show ?thesis using 1(2,3) by (subst (asm) readi_loop.simps) auto
  next
    case True
    let ?m = "block_chunk (n - tot) off"
    note l = 1(2) [unfolded readi_loop.simps [of e ip u dst off n tot s] if_P [OF True]]
    obtain a s1 where s1: "bmap ip (off div of_nat BSIZE) s = Ok (a, s1)" using l by (rule kbind_pairE)
    show ?thesis
    proof (cases "a = 0")
      case True
      then show ?thesis using l s1 1(3) by simp
    next
      case a: False
      note l = l [unfolded s1 kbind.simps prod.case if_not_P [OF a]]
      obtain bp s2 where s2: "fs_bread (idev (itab s1 ip)) a s1 = Ok (bp, s2)" using l by (rule kbind_pairE)
      note l = l [unfolded s2 kbind.simps prod.case Let_def]
      obtain c k where c: "either_copyout (upt e) u dst (daddr e bp + ucast (off mod of_nat BSIZE)) (ucast ?m) (fmem (expose e bp s2)) = Ok (c, k)"
        using l by (rule kbind_pairE)
      note l = l [unfolded c kbind.simps prod.case]
      show ?thesis
      proof (cases "c = -1")
        case True
        then show ?thesis using l by auto
      next
        case False
        obtain s3 where s3: "fs_brelse bp ((expose e bp s2)\<lparr>fmem := k\<rparr>) = Ok s3" using l False by auto
        note l = l [unfolded if_not_P [OF False] s3 kbind.simps]
        show ?thesis using word_step [OF block_chunk_bounds(2) [OF True, of off] True] 1(1) [OF True s1 refl a s2 refl refl refl c refl refl False s3 l] by (auto intro: order_trans)
      qed
    qed
  qed
qed

lemma writei_loop_bound:
  "writei_loop e ip u src off n tot s = Ok (r, off', s') \<Longrightarrow> tot \<le> n \<Longrightarrow> tot \<le> r \<and> r \<le> n \<and> off' = off + (r - tot) \<and> same_sizes s s'"
proof (induction e ip u src off n tot s rule: writei_loop.induct)
  case (1 e ip u src off n tot s)
  show ?case
  proof (cases "tot < n")
    case False
    then show ?thesis using 1(2,3) by (subst (asm) writei_loop.simps) auto
  next
    case True
    let ?m = "block_chunk (n - tot) off"
    note l = 1(2) [unfolded writei_loop.simps [of e ip u src off n tot s] if_P [OF True]]
    obtain a s1 where s1: "bmap ip (off div of_nat BSIZE) s = Ok (a, s1)" using l by (rule kbind_pairE)
    note z1 = bmap_sizes [OF s1]
    show ?thesis
    proof (cases "a = 0")
      case True
      then show ?thesis using l s1 1(3) z1 by simp
    next
      case a: False
      note l = l [unfolded s1 kbind.simps prod.case if_not_P [OF a]]
      obtain bp s2 where s2: "fs_bread (idev (itab s1 ip)) a s1 = Ok (bp, s2)" using l by (rule kbind_pairE)
      note l = l [unfolded s2 kbind.simps prod.case Let_def]
      obtain c k where c: "either_copyin (upt e) (daddr e bp + ucast (off mod of_nat BSIZE)) u src (ucast ?m) (fmem (expose e bp s2)) = Ok (c, k)"
        using l by (rule kbind_pairE)
      note l = l [unfolded c kbind.simps prod.case]
      define s3 where "s3 = absorb e bp ((expose e bp s2)\<lparr>fmem := k\<rparr>)"
      note l = l [folded s3_def]
      have z3: "itab s3 = itab s1" unfolding s3_def using itab_store(1) [OF s2] by simp
      show ?thesis
      proof (cases "c = -1")
        case c1: True
        then obtain s4 where "fs_brelse bp s3 = Ok s4" "r = tot" "off' = off" "s' = s4" using l by auto
        then show ?thesis using z1 z3 1(3) by (auto simp: same_sizes_def dest!: itab_store)
      next
        case False
        then obtain s4 s5 where s4: "fs_log_write bp s3 = Ok s4" and s5: "fs_brelse bp s4 = Ok s5" and
          r: "writei_loop e ip u (src + ucast ?m) (off + ?m) n (tot + ?m) s5 = Ok (r, off', s')"
          using l by auto
        note w = word_step [OF block_chunk_bounds(2) [OF True, of off] True]
        have "same_sizes s s5" using z1 z3 itab_store(3) [OF s4] itab_store(2) [OF s5] by (simp add: same_sizes_def)
        moreover have "tot + ?m \<le> r \<and> r \<le> n \<and> off' = off + ?m + (r - (tot + ?m)) \<and> same_sizes s5 s'"
          by (rule 1(1) [OF True s1 refl a s2 refl refl refl c refl s3_def False s4 s5 r w(1)])
        ultimately show ?thesis using w(2) by (auto intro: same_sizes_trans order_trans)
      qed
    qed
  qed
qed

lemma file_limit: "of_nat (MAXFILE * BSIZE) = (274432 :: u32)"
  by (simp add: MAXFILE_def NDIRECT_def NINDIRECT_def BSIZE_def)

lemma sint_small: "(x :: u32) \<le> 274432 \<Longrightarrow> sint x = uint x"
proof -
  assume "x \<le> 274432"
  then have "uint x \<le> 274432" by (simp add: word_le_def)
  then have "uint x < 2 ^ 31" by simp
  moreover have "- (2 ^ 31) \<le> uint x" by (rule order_trans [of _ 0]) simp_all
  ultimately show ?thesis by (simp add: sint_uint signed_take_bit_int_eq_self_iff)
qed

lemma readi_bound:
  assumes "isize (itab s ip) \<le> of_nat (MAXFILE * BSIZE)" "readi e ip u dst off n s = Ok (r, s')"
  shows "-1 \<le> r \<and> r \<le> uint n \<and> r \<le> max 0 (uint (isize (itab s ip)) - uint off)"
proof (cases "off > isize (itab s ip) \<or> off + n < off")
  case True
  then show ?thesis using assms(2) by (simp add: readi_def)
next
  case False
  let ?z = "isize (itab s ip)"
  define m where "m = (if off + n > ?z then ?z - off else n)"
  obtain t where t: "readi_loop e ip u dst off m 0 s = Ok (t, s')" "r = sint t"
    using assms(2) False by (auto simp: readi_def m_def Let_def elim!: kbind_pairE)
  have z: "uint ?z \<le> 274432" using assms(1) unfolding file_limit by (simp add: word_le_def)
  have o: "uint off \<le> uint ?z" "uint (off + n) = uint off + uint n"
    using False uint_plus_simple [of off n] by (simp_all add: not_less flip: word_le_def)
  have m: "uint m \<le> uint n" "uint m \<le> uint ?z - uint off"
    using o by (auto simp: m_def word_less_def word_le_def uint_sub_if_size split: if_splits)
  from readi_loop_bound [OF t(1)] have "t = -1 \<or> t \<le> m" by simp
  then show ?thesis
  proof
    assume "t \<le> m"
    then have "uint t \<le> uint m" by (simp add: word_le_def)
    moreover from this have "t \<le> 274432" using m(2) z unfolding word_le_def by (simp add: o) (use uint_nonnegative [of off] in linarith)
    ultimately show ?thesis using m t(2) uint_nonnegative [of t] unfolding sint_small [OF \<open>t \<le> 274432\<close>] by linarith
  next
    assume "t = -1"
    then have "r = -1" using t(2) by simp
    then show ?thesis using uint_nonnegative [of n] by linarith
  qed
qed

lemma writei_bound:
  assumes "isize (itab s ip) \<le> of_nat (MAXFILE * BSIZE)" "writei e ip u src off n s = Ok (r, s')"
  shows "-1 \<le> r \<and> r \<le> uint n \<and> isize (itab s' ip) \<le> of_nat (MAXFILE * BSIZE) \<and>
    uint (isize (itab s' ip)) = (if r = -1 then uint (isize (itab s ip)) else max (uint (isize (itab s ip))) (uint off + r)) \<and>
    (\<forall>j. j \<noteq> ip \<longrightarrow> isize (itab s' j) = isize (itab s j))"
proof (cases "off > isize (itab s ip) \<or> off + n < off \<or> off + n > of_nat (MAXFILE * BSIZE)")
  case True
  then have "r = -1" "s' = s" using assms(2) unfolding writei_def by (auto simp del: of_nat_mult split: if_splits)
  then show ?thesis using assms(1) order_trans [of "-1" 0 "uint n"] by simp
next
  case False
  then obtain t off' s1 where t: "writei_loop e ip u src off n 0 s = Ok (t, off', s1)" "r = sint t" and
    i: "iupdate ip (if off' > isize (itab s1 ip) then upd_inode ip (\<lambda>x. x\<lparr>isize := off'\<rparr>) s1 else s1) = Ok s'"
    using assms(2) unfolding writei_def Let_def by (auto simp del: of_nat_mult elim!: kbind_pairE)
  from writei_loop_bound [OF t(1)] have b: "t \<le> n" "off' = off + t" "same_sizes s s1" by simp_all
  let ?z = "isize (itab s ip)"
  have tab: "itab s' = itab (if off' > isize (itab s1 ip) then upd_inode ip (\<lambda>x. x\<lparr>isize := off'\<rparr>) s1 else s1)"
    by (rule iupdate_itab [OF i])
  have l: "uint ?z \<le> 274432" "uint off + uint n \<le> 274432" "uint (off + n) = uint off + uint n"
    using False assms(1) uint_plus_simple [of off n] unfolding file_limit by (simp_all add: not_less not_le word_le_def)
  have t': "uint t \<le> uint n" using b(1) by (simp add: word_le_def)
  then have "uint t \<le> 274432" using l(2) uint_nonnegative [of off] by linarith
  then have "t \<le> 274432" by (simp add: word_le_def)
  then have r: "r = uint t" using t(2) by (simp add: sint_small)
  have o: "uint off' = uint off + uint t" unfolding b(2) using l(2) t' by (subst uint_plus_if_size) (simp add: word_size)
  have zz: "\<And>j. isize (itab s1 j) = isize (itab s j)" using b(3) by (simp add: same_sizes_def)
  have new: "isize (itab s' ip) = (if off' > ?z then off' else ?z)" "\<And>j. j \<noteq> ip \<Longrightarrow> isize (itab s' j) = isize (itab s j)"
    unfolding tab by (simp_all add: upd_inode_def zz)
  have "r \<noteq> -1" "0 \<le> r" unfolding r using uint_nonnegative [of t] by linarith+
  moreover have "uint (isize (itab s' ip)) = max (uint ?z) (uint off + r)"
    unfolding new(1) r using o by (simp add: word_less_def)
  moreover from this have "isize (itab s' ip) \<le> of_nat (MAXFILE * BSIZE)"
    unfolding file_limit word_le_def r using l t' by simp
  moreover have "r \<le> uint n" "-1 \<le> r" using r t' uint_nonnegative [of t] by linarith+
  ultimately show ?thesis using new(2) by (simp del: of_nat_mult)
qed

text \<open>
  C15: what readi and writei return and what a write makes of the size of the file stays within the
  limits of the file system. A file of at most MAXFILE blocks stays one; a read returns -1, or at most
  the number of bytes asked for and at most what the file has after the offset; a write returns -1, with
  the size as it was, or the number of bytes written, at most those asked for, and the size is then the
  old one or the end of the write, whichever is larger. No other inode changes its size.\<close>

theorem file_io_bounds:
  assumes "isize (itab s ip) \<le> of_nat (MAXFILE * BSIZE)"
  shows "(readi e ip u a off n s = Ok (r, s') \<longrightarrow> -1 \<le> r \<and> r \<le> uint n \<and> r \<le> max 0 (uint (isize (itab s ip)) - uint off)) \<and>
    (writei e ip u a off n s = Ok (r, s') \<longrightarrow> -1 \<le> r \<and> r \<le> uint n \<and> isize (itab s' ip) \<le> of_nat (MAXFILE * BSIZE) \<and>
       uint (isize (itab s' ip)) = (if r = -1 then uint (isize (itab s ip)) else max (uint (isize (itab s ip))) (uint off + r)) \<and>
       (\<forall>j. j \<noteq> ip \<longrightarrow> isize (itab s' j) = isize (itab s j)))"
  using readi_bound [OF assms] writei_bound [OF assms] by blast

theorem file_io_bounds_witness:
  "let s = demo_fs\<lparr>itab := (\<lambda>_. blank_inode)(3 := demo_file)\<rparr>
   in \<exists>r s'. readi \<lparr>upt = 0, daddr = \<lambda>_. 0, dea = 0\<rparr> 3 True 0 5 100 s = Ok (r, s') \<and> -1 \<le> r \<and> r \<le> 0"
proof -
  let ?s = "demo_fs\<lparr>itab := (\<lambda>_. blank_inode)(3 := demo_file)\<rparr>"
  have z: "isize (itab ?s 3) \<le> of_nat (MAXFILE * BSIZE)" unfolding file_limit by (simp add: demo_file_def)
  have "readi \<lparr>upt = 0, daddr = \<lambda>_. 0, dea = 0\<rparr> 3 True 0 5 100 ?s = Ok (0, ?s)" by (simp add: readi_def Let_def demo_file_def readi_loop.simps)
  then show ?thesis using file_io_bounds [OF z, of _ True 0 5 100 0 ?s] by simp
qed

end
