(* ===== verification/Pipe.thy ===== *)
theory Pipe
  imports Ring Vm_Byte
begin

text \<open>
  Pipes (kernel/pipe.c). A pipe is the record of its C struct without the lock. The critical
  section of \<open>pipewrite\<close> and of \<open>piperead\<close> runs until it returns or until it calls \<open>sleep\<close>, which
  releases the lock: the model function returns how the section ended, with the loop index at which
  the sleeper will continue, and the channels it has woken. \<open>killed(pr)\<close> may change at any time
  and is an argument, the answer it gives at each iteration. The byte variable \<open>ch\<close> of the code
  lives on the kernel stack at the address \<open>ch\<close>.
\<close>

definition PIPESIZE :: u32 where
  "PIPESIZE = 512"

record pipe =
  pdata :: "u8 list"
  nread :: u32
  nwrite :: u32
  readopen :: bool
  writeopen :: bool

datatype pchan = Chan_nread | Chan_nwrite

record pst =
  kmem :: kst
  pi :: pipe
  woken :: "pchan list"

datatype progress = Done int | Blocked int

definition wakeup_chan :: "pchan \<Rightarrow> pst \<Rightarrow> pst" where
  "wakeup_chan c s = s\<lparr>woken := woken s @ [c]\<rparr>"

definition pipe_put :: "u8 \<Rightarrow> pipe \<Rightarrow> pipe" where
  "pipe_put c p = p\<lparr>pdata := (pdata p)[unat (nwrite p mod PIPESIZE) := c], nwrite := nwrite p + 1\<rparr>"

definition pipe_get :: "pipe \<Rightarrow> u8 \<times> pipe" where
  "pipe_get p = (pdata p ! unat (nread p mod PIPESIZE), p\<lparr>nread := nread p + 1\<rparr>)"

function pipewrite_loop :: "(int \<Rightarrow> bool) \<Rightarrow> u64 \<Rightarrow> u64 \<Rightarrow> u64 \<Rightarrow> int \<Rightarrow> int \<Rightarrow> pst \<Rightarrow> (progress \<times> pst) kres" where
  "pipewrite_loop killed pagetable ch addr n i s =
     (if i < n then
        if \<not> readopen (pi s) \<or> killed i then Ok (Done (- 1), s)
        else if nwrite (pi s) = nread (pi s) + PIPESIZE then Ok (Blocked i, wakeup_chan Chan_nread s)
        else kbind (copyin pagetable ch (addr + of_int i) 1 (kmem s)) (\<lambda>(r, k).
          if r = - 1 then Ok (Done i, wakeup_chan Chan_nread (s\<lparr>kmem := k\<rparr>))
          else pipewrite_loop killed pagetable ch addr n (i + 1)
                 (s\<lparr>kmem := k, pi := pipe_put (pmem k ch) (pi s)\<rparr>))
      else Ok (Done i, wakeup_chan Chan_nread s))"
  by pat_completeness auto
termination
  by (relation "measure (\<lambda>(killed, pt, ch, addr, n, i, s). nat (n - i))") auto

declare pipewrite_loop.simps [simp del]

definition pipewrite :: "(int \<Rightarrow> bool) \<Rightarrow> u64 \<Rightarrow> u64 \<Rightarrow> u64 \<Rightarrow> int \<Rightarrow> pst \<Rightarrow> (progress \<times> pst) kres" where
  "pipewrite killed pagetable ch addr n s = pipewrite_loop killed pagetable ch addr n 0 s"

function piperead_loop :: "u64 \<Rightarrow> u64 \<Rightarrow> u64 \<Rightarrow> int \<Rightarrow> int \<Rightarrow> pst \<Rightarrow> (int \<times> pst) kres" where
  "piperead_loop pagetable ch addr n i s =
     (if i < n then
        if nread (pi s) = nwrite (pi s) then Ok (i, s)
        else
          let (c, p) = pipe_get (pi s);
              s = s\<lparr>pi := p, kmem := (kmem s)\<lparr>pmem := (pmem (kmem s))(ch := c)\<rparr>\<rparr>
          in kbind (copyout pagetable (addr + of_int i) ch 1 (kmem s)) (\<lambda>(r, k).
               if r = - 1 then Ok (i, s\<lparr>kmem := k\<rparr>)
               else piperead_loop pagetable ch addr n (i + 1) (s\<lparr>kmem := k\<rparr>))
      else Ok (i, s))"
  by pat_completeness auto
termination
  by (relation "measure (\<lambda>(pt, ch, addr, n, i, s). nat (n - i))") auto

declare piperead_loop.simps [simp del]

definition piperead :: "bool \<Rightarrow> u64 \<Rightarrow> u64 \<Rightarrow> u64 \<Rightarrow> int \<Rightarrow> pst \<Rightarrow> (progress \<times> pst) kres" where
  "piperead killed pagetable ch addr n s =
     (if nread (pi s) = nwrite (pi s) \<and> writeopen (pi s) then
        if killed then Ok (Done (- 1), s) else Ok (Blocked 0, s)
      else kbind (piperead_loop pagetable ch addr n 0 s) (\<lambda>(i, s). Ok (Done i, wakeup_chan Chan_nwrite s)))"

text \<open>\<open>pip\<close> is the page the pipe was allocated in.\<close>

definition pipeclose :: "u64 \<Rightarrow> bool \<Rightarrow> pst \<Rightarrow> pst kres" where
  "pipeclose pip writable s =
     (let s = (if writable then wakeup_chan Chan_nread (s\<lparr>pi := (pi s)\<lparr>writeopen := False\<rparr>\<rparr>)
               else wakeup_chan Chan_nwrite (s\<lparr>pi := (pi s)\<lparr>readopen := False\<rparr>\<rparr>))
      in if \<not> readopen (pi s) \<and> \<not> writeopen (pi s)
         then kbind (kfree pip (kmem s)) (\<lambda>k. Ok (s\<lparr>kmem := k\<rparr>))
         else Ok s)"

section \<open>The buffer is a queue\<close>

lemma unat_mod_PIPESIZE: "unat (x mod PIPESIZE) = unat x mod 512"
  by (simp add: PIPESIZE_def unat_mod)

interpretation pq: ring_buffer 512 pdata nread nwrite pipe_put pipe_get
  by unfold_locales (simp_all add: pipe_put_def pipe_get_def unat_mod_PIPESIZE)

definition pipe_queue :: "pipe \<Rightarrow> u8 list" where
  "pipe_queue = pq.queue"

definition pipe_ok :: "pipe \<Rightarrow> bool" where
  "pipe_ok = pq.ok"

lemma pipe_queue_full: "pipe_ok p \<Longrightarrow> length (pipe_queue p) = 512 \<longleftrightarrow> nwrite p = nread p + PIPESIZE"
  using pq.queue_full [of p] by (simp add: pipe_ok_def pipe_queue_def PIPESIZE_def)

lemma pipe_queue_bound: "pipe_ok p \<Longrightarrow> length (pipe_queue p) \<le> 512"
  by (simp add: pipe_ok_def pipe_queue_def pq.length_queue pq.ok_def)

lemma pipe_queue_empty: "pipe_queue p = [] \<longleftrightarrow> nread p = nwrite p"
  by (simp add: pipe_queue_def pq.queue_Nil)

lemma pipe_put_queue:
  assumes "pipe_ok p" "nwrite p \<noteq> nread p + PIPESIZE"
  shows "pipe_queue (pipe_put c p) = pipe_queue p @ [c]" "pipe_ok (pipe_put c p)"
proof -
  have "length (pq.queue p) < 512" using pipe_queue_bound [OF assms(1)] pipe_queue_full [OF assms(1)] assms(2)
    by (auto simp: pipe_queue_def)
  then show "pipe_queue (pipe_put c p) = pipe_queue p @ [c]" "pipe_ok (pipe_put c p)"
    using pq.put_queue assms(1) by (simp_all add: pipe_queue_def pipe_ok_def)
qed

lemma pipe_get_queue:
  assumes "pipe_ok p" "nread p \<noteq> nwrite p"
  shows "pipe_queue p = fst (pipe_get p) # pipe_queue (snd (pipe_get p))" "pipe_ok (snd (pipe_get p))"
  using pq.get_queue [of p] assms by (simp_all add: pipe_queue_def pipe_ok_def pq.queue_Nil)

lemma pipe_flags [simp]:
  "readopen (pipe_put c p) = readopen p" "writeopen (pipe_put c p) = writeopen p"
  "readopen (snd (pipe_get p)) = readopen p" "writeopen (snd (pipe_get p)) = writeopen p"
  by (simp_all add: pipe_put_def pipe_get_def)

section \<open>What a write and a read transfer\<close>

text \<open>
  The state in which a pipe system call runs: a well-formed address space of the caller, a
  consistent pipe and a kernel variable outside the caller's pages and the free list.
\<close>

definition pipe_env :: "u64 \<Rightarrow> nat \<Rightarrow> u64 list \<Rightarrow> u64 \<Rightarrow> pst \<Rightarrow> bool" where
  "pipe_env root m ps ch s \<longleftrightarrow> user_space (kmem s) root m ps \<and>
     buffer_outside (space_pages (kmem s) root m ps) ch 1 \<and> pipe_ok (pi s)"

text \<open>The end of a \<open>pipewrite\<close> section that started at index \<open>i\<close> in state \<open>s\<close>.\<close>

definition wrote :: "(int \<Rightarrow> bool) \<Rightarrow> u64 \<Rightarrow> nat \<Rightarrow> u64 list \<Rightarrow> u64 \<Rightarrow> u64 \<Rightarrow> int \<Rightarrow> int \<Rightarrow> pst \<Rightarrow> progress \<Rightarrow> pst \<Rightarrow> int \<Rightarrow> bool" where
  "wrote killed root m ps ch addr n i s r s' j \<longleftrightarrow> pipe_env root m ps ch s' \<and> i \<le> j \<and> j \<le> max i n \<and>
     pipe_queue (pi s') = pipe_queue (pi s) @ ubytes (kmem s) root addr i j \<and>
     nread (pi s') = nread (pi s) \<and> readopen (pi s') = readopen (pi s) \<and> writeopen (pi s') = writeopen (pi s) \<and>
     (\<forall>w. vpn w < m \<longrightarrow> umem (kmem s') root w = umem (kmem s) root w) \<and>
     (\<forall>x. i \<le> x \<and> x < j \<longrightarrow> uacc (kmem s) root (vpn (addr + of_int x)) \<and> \<not> killed x) \<and>
     (r = Done (- 1) \<and> j < n \<and> (\<not> readopen (pi s) \<or> killed j) \<and> woken s' = woken s \<or>
      r = Blocked j \<and> j < n \<and> length (pipe_queue (pi s')) = 512 \<and> readopen (pi s) \<and> \<not> killed j \<and> woken s' = woken s @ [Chan_nread] \<or>
      r = Done j \<and> (j < n \<longrightarrow> \<not> uacc (kmem s) root (vpn (addr + of_int j)) \<and> \<not> killed j) \<and> woken s' = woken s @ [Chan_nread])"

lemma pipewrite_step_env:
  assumes env: "pipe_env root m ps ch s" and room: "nwrite (pi s) \<noteq> nread (pi s) + PIPESIZE"
    and acc: "uacc (kmem s) root (vpn va)"
  defines "s1 \<equiv> s\<lparr>kmem := (kmem s)\<lparr>pmem := (pmem (kmem s))(ch := umem (kmem s) root va)\<rparr>,
                 pi := pipe_put (umem (kmem s) root va) (pi s)\<rparr>"
  shows "pipe_env root m ps ch s1" "\<And>w. vpn w < m \<Longrightarrow> umem (kmem s1) root w = umem (kmem s) root w"
    "uacc (kmem s1) root = uacc (kmem s) root"
    "pipe_queue (pi s1) = pipe_queue (pi s) @ [umem (kmem s) root va]"
proof -
  have e: "user_space (kmem s) root m ps" "buffer_outside (space_pages (kmem s) root m ps) ch 1" "pipe_ok (pi s)"
    using env by (simp_all add: pipe_env_def)
  note b = byte_write [OF e(1,2)] and q = pipe_put_queue [OF e(3) room]
  show "pipe_env root m ps ch s1" unfolding pipe_env_def s1_def using b(1,3) q(2) e(2) by simp
  show "umem (kmem s1) root w = umem (kmem s) root w" if "vpn w < m" for w using b(4) [OF that] by (simp add: s1_def)
  show "uacc (kmem s1) root = uacc (kmem s) root" using b(5) by (simp add: s1_def)
  show "pipe_queue (pi s1) = pipe_queue (pi s) @ [umem (kmem s) root va]" using q(1) by (simp add: s1_def)
qed

lemma pipewrite_loop_spec:
  assumes "pipe_env root m ps ch s"
  shows "\<exists>r s' j. pipewrite_loop killed root ch addr n i s = Ok (r, s') \<and> wrote killed root m ps ch addr n i s r s' j"
  using assms
proof (induction "nat (n - i)" arbitrary: i s)
  case 0
  then show ?case
    by (intro exI [of _ "Done i"] exI [of _ "wakeup_chan Chan_nread s"] exI [of _ i])
      (auto simp: pipewrite_loop.simps [of killed root] wrote_def wakeup_chan_def pipe_env_def)
next
  case (Suc d)
  have lt: "i < n" and d: "d = nat (n - (i + 1))" using Suc.hyps(2) by simp_all
  have e: "user_space (kmem s) root m ps" "buffer_outside (space_pages (kmem s) root m ps) ch 1" "pipe_ok (pi s)"
    using Suc.prems by (simp_all add: pipe_env_def)
  let ?va = "addr + of_int i"
  note lp = pipewrite_loop.simps [of killed root ch addr n i s]
  consider (stop) "\<not> readopen (pi s) \<or> killed i" | (full) "readopen (pi s)" "\<not> killed i" "nwrite (pi s) = nread (pi s) + PIPESIZE"
    | (fault) "readopen (pi s)" "\<not> killed i" "nwrite (pi s) \<noteq> nread (pi s) + PIPESIZE" "\<not> uacc (kmem s) root (vpn ?va)"
    | (step) "readopen (pi s)" "\<not> killed i" "nwrite (pi s) \<noteq> nread (pi s) + PIPESIZE" "uacc (kmem s) root (vpn ?va)" by blast
  then show ?case
  proof cases
    case stop
    then have "pipewrite_loop killed root ch addr n i s = Ok (Done (- 1), s)" unfolding lp using lt by simp
    then show ?thesis using stop lt Suc.prems
      by (intro exI [of _ "Done (- 1)"] exI [of _ s] exI [of _ i]) (auto simp: wrote_def)
  next
    case full
    then have "pipewrite_loop killed root ch addr n i s = Ok (Blocked i, wakeup_chan Chan_nread s)" unfolding lp using lt by simp
    then show ?thesis using full lt Suc.prems pipe_queue_full [OF e(3)]
      by (intro exI [of _ "Blocked i"] exI [of _ "wakeup_chan Chan_nread s"] exI [of _ i])
        (auto simp: wrote_def wakeup_chan_def pipe_env_def)
  next
    case fault
    then have "pipewrite_loop killed root ch addr n i s = Ok (Done i, wakeup_chan Chan_nread (s\<lparr>kmem := kmem s\<rparr>))"
      unfolding lp using lt copyin_byte [OF e(1,2)] by simp
    then show ?thesis using fault lt Suc.prems
      by (intro exI [of _ "Done i"] exI [of _ "wakeup_chan Chan_nread (s\<lparr>kmem := kmem s\<rparr>)"] exI [of _ i])
        (auto simp: wrote_def wakeup_chan_def pipe_env_def)
  next
    case step
    define s1 where "s1 = s\<lparr>kmem := (kmem s)\<lparr>pmem := (pmem (kmem s))(ch := umem (kmem s) root ?va)\<rparr>,
                 pi := pipe_put (umem (kmem s) root ?va) (pi s)\<rparr>"
    note st = pipewrite_step_env [OF Suc.prems step(3,4), folded s1_def]
    have run: "pipewrite_loop killed root ch addr n i s = pipewrite_loop killed root ch addr n (i + 1) s1"
      unfolding lp using lt step copyin_byte [OF e(1,2)] by (simp add: s1_def)
    obtain r s' j where ih: "pipewrite_loop killed root ch addr n (i + 1) s1 = Ok (r, s')"
      "wrote killed root m ps ch addr n (i + 1) s1 r s' j" using Suc.hyps(1) [OF d st(1)] by blast
    have w1: "nread (pi s1) = nread (pi s)" "readopen (pi s1) = readopen (pi s)" "writeopen (pi s1) = writeopen (pi s)"
      "woken s1 = woken s" by (simp_all add: s1_def pipe_put_def)
    have acc: "\<forall>x. i + 1 \<le> x \<and> x < j \<longrightarrow> uacc (kmem s) root (vpn (addr + of_int x)) \<and> \<not> killed x"
      using ih(2) unfolding wrote_def st(3) by blast
    have "ubytes (kmem s1) root addr (i + 1) j = ubytes (kmem s) root addr (i + 1) j"
      by (rule ubytes_cong) (use acc st(2) uacc_vpn [OF e(1)] in blast)
    then have "pipe_queue (pi s') = pipe_queue (pi s) @ ubytes (kmem s) root addr i j"
      using ih(2) st(4) ubytes_Cons [of i j "kmem s" root addr] by (simp add: wrote_def)
    moreover have "i \<le> j" "j \<le> max i n" using ih(2) lt by (auto simp: wrote_def)
    moreover have "\<forall>x. i \<le> x \<and> x < j \<longrightarrow> uacc (kmem s) root (vpn (addr + of_int x)) \<and> \<not> killed x"
      using acc step(2,4) by (metis add.commute zless_imp_add1_zle order_le_less)
    ultimately have "wrote killed root m ps ch addr n i s r s' j"
      using ih(2) st(2) unfolding wrote_def w1 st(3) by auto
    then show ?thesis using run ih(1) by auto
  qed
qed

text \<open>
  The end of the copy loop of \<open>piperead\<close> that started at index \<open>i\<close> in state \<open>s\<close>: \<open>j\<close> bytes have
  reached the caller; one more has left the queue when the copy to the caller failed.
\<close>

definition delivered :: "u64 \<Rightarrow> nat \<Rightarrow> u64 list \<Rightarrow> u64 \<Rightarrow> u64 \<Rightarrow> int \<Rightarrow> int \<Rightarrow> pst \<Rightarrow> pst \<Rightarrow> int \<Rightarrow> bool" where
  "delivered root m ps ch addr n i s s' j \<longleftrightarrow> pipe_env root m ps ch s' \<and> i \<le> j \<and> j \<le> max i n \<and>
     pipe_queue (pi s) = ubytes (kmem s') root addr i j @ drop (nat (j - i)) (pipe_queue (pi s)) \<and>
     pipe_queue (pi s') = drop (nat (j - i) + (if j < n \<and> nat (j - i) < length (pipe_queue (pi s)) then 1 else 0)) (pipe_queue (pi s)) \<and>
     (j < n \<and> nat (j - i) < length (pipe_queue (pi s)) \<longrightarrow> \<not> uacc (kmem s) root (vpn (addr + of_int j))) \<and>
     nwrite (pi s') = nwrite (pi s) \<and> readopen (pi s') = readopen (pi s) \<and> writeopen (pi s') = writeopen (pi s) \<and>
     woken s' = woken s \<and> uacc (kmem s') root = uacc (kmem s) root \<and>
     (\<forall>w. vpn w < m \<and> (\<forall>x. i \<le> x \<and> x \<le> j \<longrightarrow> w \<noteq> addr + of_int x) \<longrightarrow> umem (kmem s') root w = umem (kmem s) root w)"

lemma addr_distinct:
  assumes "0 \<le> i" "i < x" "x \<le> 2147483647"
  shows "addr + of_int i \<noteq> addr + (of_int x :: u64)"
proof
  assume "addr + of_int i = addr + (of_int x :: u64)"
  then have "take_bit 64 i = take_bit 64 x" by (simp add: word_of_int_eq_iff)
  then show False using assms by (simp add: take_bit_int_eq_self)
qed

lemma delivered_step:
  assumes lt: "i < n" and i: "0 \<le> i" "n \<le> 2147483647"
    and ih: "delivered root m ps ch addr n (i + 1) s1 s' j" and q: "pipe_queue (pi s) = c # pipe_queue (pi s1)"
    and fl: "nwrite (pi s1) = nwrite (pi s)" "readopen (pi s1) = readopen (pi s)" "writeopen (pi s1) = writeopen (pi s)"
      "woken s1 = woken s" "uacc (kmem s1) root = uacc (kmem s) root"
    and v: "vpn (addr + of_int i) < m"
    and u: "\<And>w. vpn w < m \<Longrightarrow> umem (kmem s1) root w = (if w = addr + of_int i then c else umem (kmem s) root w)"
  shows "delivered root m ps ch addr n i s s' j"
proof -
  note h = ih [unfolded delivered_def]
  have j: "i < j" "j \<le> n" using h lt by auto
  then have nj: "nat (j - i) = Suc (nat (j - (i + 1)))" by simp
  have "\<forall>x. i + 1 \<le> x \<and> x \<le> j \<longrightarrow> addr + of_int i \<noteq> addr + of_int x" using addr_distinct i j by auto
  then have "umem (kmem s') root (addr + of_int i) = umem (kmem s1) root (addr + of_int i)" using h v by blast
  then have c: "umem (kmem s') root (addr + of_int i) = c" using u [OF v] by simp
  have ub: "ubytes (kmem s') root addr i j = c # ubytes (kmem s') root addr (i + 1) j" using ubytes_Cons [OF j(1)] c by simp
  have fr: "umem (kmem s') root w = umem (kmem s) root w"
    if "vpn w < m" "\<forall>x. i \<le> x \<and> x \<le> j \<longrightarrow> w \<noteq> addr + of_int x" for w
  proof -
    have "umem (kmem s') root w = umem (kmem s1) root w" using h that by force
    moreover have "w \<noteq> addr + of_int i" using that(2) j(1) by auto
    ultimately show ?thesis using u [OF that(1)] by simp
  qed
  show ?thesis unfolding delivered_def nj q ub using h j fr fl by auto
qed

lemma piperead_loop_spec:
  assumes "pipe_env root m ps ch s" "0 \<le> i" "n \<le> 2147483647"
  shows "\<exists>s' j. piperead_loop root ch addr n i s = Ok (j, s') \<and> delivered root m ps ch addr n i s s' j"
  using assms
proof (induction "nat (n - i)" arbitrary: i s)
  case 0
  then have "piperead_loop root ch addr n i s = Ok (i, s)" by (simp add: piperead_loop.simps [of root])
  then show ?case using 0 by (intro exI [of _ s] exI [of _ i]) (simp add: delivered_def)
next
  case (Suc d)
  have lt: "i < n" and d: "d = nat (n - (i + 1))" using Suc.hyps(2) by simp_all
  note e = Suc.prems(1) [unfolded pipe_env_def]
  let ?va = "addr + of_int i"
  note lp = piperead_loop.simps [of root ch addr n i s]
  show ?case
  proof (cases "nread (pi s) = nwrite (pi s)")
    case True
    then have "piperead_loop root ch addr n i s = Ok (i, s)" unfolding lp by simp
    then show ?thesis using lt Suc.prems True
      by (intro exI [of _ s] exI [of _ i]) (simp add: delivered_def pipe_queue_empty [THEN iffD2])
  next
    case ne: False
    obtain c p where g: "pipe_get (pi s) = (c, p)" by fastforce
    have q: "pipe_queue (pi s) = c # pipe_queue p" "pipe_ok p" using pipe_get_queue [of "pi s"] e ne g by auto
    have fl: "nwrite p = nwrite (pi s)" "readopen p = readopen (pi s)" "writeopen p = writeopen (pi s)"
      using g by (auto simp: pipe_get_def)
    define k0 where "k0 = (kmem s)\<lparr>pmem := (pmem (kmem s))(ch := c)\<rparr>"
    have e12: "user_space (kmem s) root m ps" "buffer_outside (space_pages (kmem s) root m ps) ch 1" using e by simp_all
    note bw = byte_write [OF e12, where c = c, folded k0_def]
    have b: "user_space k0 root m ps" "space_pages k0 root m ps = space_pages (kmem s) root m ps"
      "\<And>w. vpn w < m \<Longrightarrow> umem k0 root w = umem (kmem s) root w" "uacc k0 root = uacc (kmem s) root"
      by (rule bw(1), rule bw(3), rule bw(4), assumption, rule bw(5))
    have o: "buffer_outside (space_pages k0 root m ps) ch 1" using e b(2) by simp
    obtain k1 where k1: "copyout root ?va ch 1 k0 = Ok (if uacc k0 root (vpn ?va) then 0 else - 1, k1)"
      "user_space k1 root m ps" "vmap k1 root = vmap k0 root" "space_pages k1 root m ps = space_pages k0 root m ps"
      "uacc k0 root (vpn ?va) \<longrightarrow> (\<forall>w. vpn w < m \<longrightarrow> umem k1 root w = (if w = ?va then pmem k0 ch else umem k0 root w))"
      "\<not> uacc k0 root (vpn ?va) \<longrightarrow> k1 = k0"
      using copyout_byte [OF b(1) o, of ?va] by (elim exE conjE)
    define s1 where "s1 = s\<lparr>pi := p, kmem := k1\<rparr>"
    have env1: "pipe_env root m ps ch s1" using k1(2,4) o q(2) by (simp add: pipe_env_def s1_def)
    have un: "piperead_loop root ch addr n i s =
        (if uacc (kmem s) root (vpn ?va) then piperead_loop root ch addr n (i + 1) s1 else Ok (i, s1))"
      unfolding lp using lt ne k1(1) b(4) by (simp add: g s1_def k0_def)
    have acc1: "uacc k1 root = uacc (kmem s) root" using k1(3) b(4) by (simp add: uacc_def fun_eq_iff)
    show ?thesis
    proof (cases "uacc (kmem s) root (vpn ?va)")
      case False
      then have k10: "k1 = k0" using k1(6) b(4) by simp
      have "delivered root m ps ch addr n i s s1 i"
        using False env1 lt q fl b(3) acc1 by (auto simp: delivered_def s1_def k10)
      then show ?thesis using un False by auto
    next
      case True
      obtain s' j where ih: "piperead_loop root ch addr n (i + 1) s1 = Ok (j, s')"
        "delivered root m ps ch addr n (i + 1) s1 s' j" using Suc.hyps(1) [OF d env1] Suc.prems by auto
      have q1: "pipe_queue (pi s) = c # pipe_queue (pi s1)" using q(1) by (simp add: s1_def)
      have v: "vpn ?va < m" using uacc_vpn [of "kmem s" root m ps ?va] e True by blast
      have u: "umem (kmem s1) root w = (if w = ?va then c else umem (kmem s) root w)" if "vpn w < m" for w
        using k1(5) b(3,4) True that by (simp add: s1_def k0_def)
      have "delivered root m ps ch addr n i s s' j"
        by (rule delivered_step [OF lt Suc.prems(2,3) ih(2) q1 _ _ _ _ _ v u]) (simp_all add: s1_def fl acc1)
      then show ?thesis using un True ih(1) by auto
    qed
  qed
qed

section \<open>Sleeping and waking\<close>

text \<open>
  What a section does to the pipe whatever the callers' memory looks like. A writer that is not
  killed either leaves the pipe as it found it or wakes the readers before it returns or sleeps.
\<close>

abbreviation unkilled :: "int \<Rightarrow> bool" where
  "unkilled \<equiv> \<lambda>_. False"

definition write_effect :: "pst \<Rightarrow> progress \<Rightarrow> pst \<Rightarrow> bool" where
  "write_effect s r s' \<longleftrightarrow> pipe_ok (pi s') \<and> readopen (pi s') = readopen (pi s) \<and> writeopen (pi s') = writeopen (pi s) \<and>
     (readopen (pi s) \<longrightarrow> Chan_nread \<in> set (woken s')) \<and> (\<not> readopen (pi s) \<longrightarrow> pi s' = pi s) \<and>
     (Chan_nwrite \<in> set (woken s') \<longrightarrow> Chan_nwrite \<in> set (woken s)) \<and>
     (nwrite (pi s) = nread (pi s) + PIPESIZE \<longrightarrow> pi s' = pi s) \<and>
     (\<forall>j. r = Blocked j \<longrightarrow> nwrite (pi s') = nread (pi s') + PIPESIZE \<and> readopen (pi s'))"

lemma pipewrite_loop_effect:
  assumes "pipewrite_loop unkilled pt ch addr n i s = Ok (r, s')" "pipe_ok (pi s)"
  shows "write_effect s r s'"
  using assms
proof (induction "nat (n - i)" arbitrary: i s)
  case 0
  then show ?case by (auto simp: pipewrite_loop.simps [of unkilled] wakeup_chan_def write_effect_def)
next
  case (Suc d)
  have lt: "i < n" and d: "d = nat (n - (i + 1))" using Suc.hyps(2) by simp_all
  note lp = pipewrite_loop.simps [of unkilled pt ch addr n i s]
  show ?case
  proof (cases "readopen (pi s) \<and> nwrite (pi s) \<noteq> nread (pi s) + PIPESIZE")
    case False
    then show ?thesis using Suc.prems lt unfolding lp
      by (auto simp: wakeup_chan_def write_effect_def split: if_splits)
  next
    case c: True
    obtain ri k where ci: "copyin pt ch (addr + of_int i) 1 (kmem s) = Ok (ri, k)"
      using Suc.prems(1) c lt unfolding lp by (cases "copyin pt ch (addr + of_int i) 1 (kmem s)") auto
    let ?s1 = "s\<lparr>kmem := k, pi := pipe_put (pmem k ch) (pi s)\<rparr>"
    show ?thesis
    proof (cases "ri = - 1")
      case True
      then show ?thesis using Suc.prems c ci lt unfolding lp by (auto simp: wakeup_chan_def write_effect_def)
    next
      case False
      then have run: "pipewrite_loop unkilled pt ch addr n (i + 1) ?s1 = Ok (r, s')"
        using Suc.prems(1) c ci lt unfolding lp by simp
      have "pipe_ok (pi ?s1)" using pipe_put_queue(2) [OF Suc.prems(2)] c by simp
      from Suc.hyps(1) [OF d run this] c show ?thesis by (simp add: write_effect_def)
    qed
  qed
qed

lemma piperead_loop_pipe:
  assumes "piperead_loop pt ch addr n i s = Ok (j, s')" "pipe_ok (pi s)"
  shows "pipe_ok (pi s') \<and> readopen (pi s') = readopen (pi s) \<and> writeopen (pi s') = writeopen (pi s) \<and> woken s' = woken s"
  using assms
proof (induction "nat (n - i)" arbitrary: i s)
  case 0
  then show ?case by (simp add: piperead_loop.simps [of pt])
next
  case (Suc d)
  have lt: "i < n" and d: "d = nat (n - (i + 1))" using Suc.hyps(2) by simp_all
  note lp = piperead_loop.simps [of pt ch addr n i s]
  show ?case
  proof (cases "nread (pi s) = nwrite (pi s)")
    case True
    then show ?thesis using Suc.prems unfolding lp by (auto split: if_splits)
  next
    case ne: False
    obtain c p where g: "pipe_get (pi s) = (c, p)" by fastforce
    have p: "pipe_ok p" "readopen p = readopen (pi s)" "writeopen p = writeopen (pi s)"
      using pipe_get_queue(2) [OF Suc.prems(2) ne] pipe_flags(3,4) [of "pi s"] g by simp_all
    let ?k = "(kmem s)\<lparr>pmem := (pmem (kmem s))(ch := c)\<rparr>"
    obtain ri k where co: "copyout pt (addr + of_int i) ch 1 ?k = Ok (ri, k)"
      using Suc.prems(1) lt ne g unfolding lp by (cases "copyout pt (addr + of_int i) ch 1 ?k") auto
    let ?s1 = "s\<lparr>pi := p, kmem := k\<rparr>"
    show ?thesis
    proof (cases "ri = - 1")
      case True
      then show ?thesis using Suc.prems(1) lt ne g co p unfolding lp by auto
    next
      case False
      then have run: "piperead_loop pt ch addr n (i + 1) ?s1 = Ok (j, s')"
        using Suc.prems(1) lt ne g co unfolding lp by simp
      show ?thesis using Suc.hyps(1) [OF d run] p by simp
    qed
  qed
qed

text \<open>
  Any number of readers and writers on one pipe, each named by a number. A step is one critical
  section of an awake process, or the closing of one end. \<open>sleep\<close> puts the process on the channel
  of its side, \<open>wakeup\<close> takes all processes off a channel.
\<close>

record psys =
  pstate :: pst
  rsleep :: "nat set"
  wsleep :: "nat set"

definition settle :: "pst \<Rightarrow> psys \<Rightarrow> psys" where
  "settle s y = \<lparr>pstate = s\<lparr>woken := []\<rparr>, rsleep = (if Chan_nread \<in> set (woken s) then {} else rsleep y),
     wsleep = (if Chan_nwrite \<in> set (woken s) then {} else wsleep y)\<rparr>"

inductive pipe_step :: "psys \<Rightarrow> psys \<Rightarrow> bool" where
  write_done: "p \<notin> wsleep y \<Longrightarrow> pipewrite_loop unkilled pt ch addr n i (pstate y) = Ok (Done r, s) \<Longrightarrow>
    pipe_step y (settle s y)"
| write_sleep: "p \<notin> wsleep y \<Longrightarrow> pipewrite_loop unkilled pt ch addr n i (pstate y) = Ok (Blocked j, s) \<Longrightarrow>
    pipe_step y ((settle s y)\<lparr>wsleep := insert p (wsleep (settle s y))\<rparr>)"
| read_done: "p \<notin> rsleep y \<Longrightarrow> piperead k pt ch addr n (pstate y) = Ok (Done r, s) \<Longrightarrow> pipe_step y (settle s y)"
| read_sleep: "p \<notin> rsleep y \<Longrightarrow> piperead k pt ch addr n (pstate y) = Ok (Blocked j, s) \<Longrightarrow>
    pipe_step y ((settle s y)\<lparr>rsleep := insert p (rsleep (settle s y))\<rparr>)"
| close: "pipeclose pip w (pstate y) = Ok s \<Longrightarrow> pipe_step y (settle s y)"

definition pipe_live :: "psys \<Rightarrow> bool" where
  "pipe_live y \<longleftrightarrow> pipe_ok (pi (pstate y)) \<and> woken (pstate y) = [] \<and>
     (rsleep y \<noteq> {} \<longrightarrow> pipe_queue (pi (pstate y)) = [] \<and> writeopen (pi (pstate y))) \<and>
     (wsleep y \<noteq> {} \<longrightarrow> length (pipe_queue (pi (pstate y))) = 512 \<and> readopen (pi (pstate y)))"

lemma pipe_close_queue [simp]:
  "pipe_queue (p\<lparr>writeopen := b\<rparr>) = pipe_queue p" "pipe_queue (p\<lparr>readopen := b\<rparr>) = pipe_queue p"
  "pipe_ok (p\<lparr>writeopen := b\<rparr>) = pipe_ok p" "pipe_ok (p\<lparr>readopen := b\<rparr>) = pipe_ok p"
  by (simp_all add: pipe_queue_def pipe_ok_def pq.queue_def pq.ok_def)

lemma pipe_step_live:
  assumes "pipe_step y z" "pipe_live y"
  shows "pipe_live z"
  using assms
proof (cases rule: pipe_step.cases)
  case (write_done p pt ch addr n i r s)
  have ok: "pipe_ok (pi (pstate y))" and wk: "woken (pstate y) = []" using assms(2) by (simp_all add: pipe_live_def)
  note e = pipewrite_loop_effect [OF write_done(3) ok, unfolded write_effect_def wk]
  show ?thesis using assms(2) e pipe_queue_full [OF ok] unfolding write_done(1) pipe_live_def settle_def by auto
next
  case (write_sleep p pt ch addr n i j s)
  have ok: "pipe_ok (pi (pstate y))" and wk: "woken (pstate y) = []" using assms(2) by (simp_all add: pipe_live_def)
  note e = pipewrite_loop_effect [OF write_sleep(3) ok, unfolded write_effect_def wk]
  show ?thesis using assms(2) e pipe_queue_full [of "pi s"] unfolding write_sleep(1) pipe_live_def settle_def by auto
next
  case (read_done p k pt ch addr n r s)
  have ok: "pipe_ok (pi (pstate y))" and wk: "woken (pstate y) = []" using assms(2) by (simp_all add: pipe_live_def)
  show ?thesis
  proof (cases "nread (pi (pstate y)) = nwrite (pi (pstate y)) \<and> writeopen (pi (pstate y))")
    case True
    then have "s = pstate y" using read_done(3) by (auto simp: piperead_def split: if_splits)
    then show ?thesis using assms(2) wk unfolding read_done(1) pipe_live_def settle_def by auto
  next
    case False
    then obtain j s0 where s0: "piperead_loop pt ch addr n 0 (pstate y) = Ok (j, s0)" "s = wakeup_chan Chan_nwrite s0"
      using read_done(3) by (auto simp: piperead_def)
    have "rsleep y = {}" using False assms(2) by (auto simp: pipe_live_def pipe_queue_empty)
    then show ?thesis using piperead_loop_pipe [OF s0(1) ok] wk
      unfolding read_done(1) s0(2) pipe_live_def settle_def wakeup_chan_def by auto
  qed
next
  case (read_sleep p k pt ch addr n j s)
  then have "s = pstate y" "pipe_queue (pi s) = []" "writeopen (pi s)"
    by (auto simp: piperead_def pipe_queue_empty split: if_splits)
  then show ?thesis using assms(2) unfolding read_sleep(1) pipe_live_def settle_def by auto
next
  case (close pip w s)
  then have s: "woken s = (if w then [Chan_nread] else [Chan_nwrite])" if "woken (pstate y) = []"
      "pi s = (if w then (pi (pstate y))\<lparr>writeopen := False\<rparr> else (pi (pstate y))\<lparr>readopen := False\<rparr>)"
    using that by (auto simp: pipeclose_def wakeup_chan_def Let_def split: if_splits)
  have p: "pi s = (if w then (pi (pstate y))\<lparr>writeopen := False\<rparr> else (pi (pstate y))\<lparr>readopen := False\<rparr>)"
    using close(2) by (auto simp: pipeclose_def wakeup_chan_def Let_def split: if_splits)
  show ?thesis using assms(2) s p pipe_close_queue unfolding close(1) pipe_live_def settle_def by auto
qed

section \<open>Properties\<close>

text \<open>A pipe as \<open>pipealloc\<close> initialises it, in a page with arbitrary contents.\<close>

definition fresh_pipe :: "u8 list \<Rightarrow> pipe" where
  "fresh_pipe d = \<lparr>pdata = d, nread = 0, nwrite = 0, readopen = True, writeopen = True\<rparr>"

lemma fresh_pipe_ok: "length d = 512 \<Longrightarrow> pipe_ok (fresh_pipe d) \<and> pipe_queue (fresh_pipe d) = []"
  by (simp add: fresh_pipe_def pipe_ok_def pq.ok_def pipe_queue_def pq.queue_def)

lemma demo_pipe_env:
  "\<exists>ps. pipe_env 0x80029000 1 ps 0x80020000 \<lparr>kmem = demo_user, pi = fresh_pipe (replicate 512 0), woken = []\<rparr> \<and>
     uacc demo_user 0x80029000 0"
proof -
  obtain ps where d: "uvm_inv demo_user 0x80029000 1 ps" "user_space demo_user 0x80029000 1 ps"
    "uacc demo_user 0x80029000 0" "kernel_end demo_user = 0x80021000" using demo_user_inv by blast
  have "buffer_outside (space_pages demo_user 0x80029000 1 ps) 0x80020000 1"
    using demo_buffer [OF d(1,4)] by (fastforce simp: buffer_outside_def)
  then show ?thesis using d(2,3) fresh_pipe_ok [of "replicate 512 0"] by (auto simp: pipe_env_def)
qed

text \<open>
  C26: \<open>pipewrite\<close> appends to the queue exactly the caller's bytes from \<open>addr\<close> on, in order, up to the
  index where it stops: at the end of the buffer, at the first byte the caller may not access, when
  512 bytes are queued (it then sleeps, having woken the readers), or with -1 when the read end is
  closed or the caller is killed. Counters may wrap at any point; user memory does not change.
\<close>
theorem pipewrite_correct:
  assumes "pipe_env root m ps ch s"
  shows "\<exists>r s' j. pipewrite killed root ch addr n s = Ok (r, s') \<and> wrote killed root m ps ch addr n 0 s r s' j"
  unfolding pipewrite_def by (rule pipewrite_loop_spec [OF assms])

theorem pipewrite_correct_witness:
  "\<exists>ps r s' j. pipewrite unkilled 0x80029000 0x80020000 16 3 \<lparr>kmem = demo_user, pi = fresh_pipe (replicate 512 0), woken = []\<rparr> = Ok (r, s') \<and>
     wrote unkilled 0x80029000 1 ps 0x80020000 16 3 0 \<lparr>kmem = demo_user, pi = fresh_pipe (replicate 512 0), woken = []\<rparr> r s' j"
  using pipewrite_correct demo_pipe_env by blast

text \<open>
  C27: \<open>piperead\<close> on an empty pipe whose write end is open sleeps (or returns -1 when the caller is
  killed) and changes nothing. Otherwise it moves bytes from the head of the queue to the caller in
  order, wakes the writers and returns the number delivered: as many as requested, or all that were
  queued, or those before the first inaccessible byte, in which case one further byte is consumed.
\<close>
theorem piperead_correct:
  assumes "pipe_env root m ps ch s" "n \<le> 2147483647"
  shows "if pipe_queue (pi s) = [] \<and> writeopen (pi s)
    then piperead killed root ch addr n s = Ok (if killed then Done (- 1) else Blocked 0, s)
    else \<exists>s' j. piperead killed root ch addr n s = Ok (Done j, wakeup_chan Chan_nwrite s') \<and> delivered root m ps ch addr n 0 s s' j"
  using piperead_loop_spec [OF assms(1) order_refl assms(2), of addr]
  by (auto simp: piperead_def pipe_queue_empty)

theorem piperead_correct_witness:
  "piperead False 0x80029000 0x80020000 16 3 \<lparr>kmem = demo_user, pi = fresh_pipe (replicate 512 0), woken = []\<rparr> =
     Ok (Blocked 0, \<lparr>kmem = demo_user, pi = fresh_pipe (replicate 512 0), woken = []\<rparr>)"
proof -
  let ?s = "\<lparr>kmem = demo_user, pi = fresh_pipe (replicate 512 0), woken = []\<rparr>"
  obtain ps where "pipe_env 0x80029000 1 ps 0x80020000 ?s" using demo_pipe_env by blast
  from piperead_correct [OF this, of 3 False 16] show ?thesis
    using fresh_pipe_ok [of "replicate 512 0"] by (simp add: fresh_pipe_def)
qed

lemma pipe_reachable_live:
  assumes "pipe_step\<^sup>*\<^sup>* \<lparr>pstate = \<lparr>kmem = k, pi = fresh_pipe d, woken = []\<rparr>, rsleep = {}, wsleep = {}\<rparr> y" "length d = 512"
  shows "pipe_live y"
proof -
  have "pipe_live \<lparr>pstate = \<lparr>kmem = k, pi = fresh_pipe d, woken = []\<rparr>, rsleep = {}, wsleep = {}\<rparr>"
    using fresh_pipe_ok [OF assms(2)] by (simp add: pipe_live_def)
  with assms(1) show ?thesis by induction (auto intro: pipe_step_live)
qed

text \<open>
  C5: with any number of readers and writers that are not killed, in any interleaving of their
  sections and of closing either end, no process sleeps without cause: sleeping readers imply an
  empty pipe with an open write end, sleeping writers a full one with an open read end. So readers
  and writers never sleep at the same time.
\<close>
theorem pipe_no_lost_wakeup:
  assumes "pipe_step\<^sup>*\<^sup>* \<lparr>pstate = \<lparr>kmem = k, pi = fresh_pipe d, woken = []\<rparr>, rsleep = {}, wsleep = {}\<rparr> y" "length d = 512"
  shows "(rsleep y \<noteq> {} \<longrightarrow> pipe_queue (pi (pstate y)) = [] \<and> writeopen (pi (pstate y))) \<and>
    (wsleep y \<noteq> {} \<longrightarrow> length (pipe_queue (pi (pstate y))) = 512 \<and> readopen (pi (pstate y))) \<and>
    (rsleep y = {} \<or> wsleep y = {})"
  using pipe_reachable_live [OF assms] by (auto simp: pipe_live_def)

theorem pipe_no_lost_wakeup_witness:
  "\<exists>y. pipe_step\<^sup>*\<^sup>* \<lparr>pstate = \<lparr>kmem = demo_user, pi = fresh_pipe (replicate 512 0), woken = []\<rparr>, rsleep = {}, wsleep = {}\<rparr> y \<and>
     rsleep y = {1} \<and> wsleep y = {}"
proof -
  let ?s = "\<lparr>kmem = demo_user, pi = fresh_pipe (replicate 512 0), woken = []\<rparr>"
  let ?y = "\<lparr>pstate = ?s, rsleep = {}, wsleep = {}\<rparr>"
  let ?z = "(settle ?s ?y)\<lparr>rsleep := insert 1 (rsleep (settle ?s ?y))\<rparr>"
  have "piperead False 0 0 0 1 (pstate ?y) = Ok (Blocked 0, ?s)" by (simp add: piperead_def fresh_pipe_def)
  from pipe_step.read_sleep [OF _ this, of 1] have "pipe_step\<^sup>*\<^sup>* ?y ?z" by simp
  moreover from this have "rsleep ?z = {} \<or> wsleep ?z = {}"
    using pipe_no_lost_wakeup [of demo_user "replicate 512 0" ?z] by simp
  moreover have r: "rsleep ?z = {1}" by (simp add: settle_def)
  ultimately show ?thesis by (intro exI [of _ ?z]) (simp add: r)
qed

text \<open>A writer that sees itself killed at index \<open>k\<close> stops there, if it gets that far.\<close>

lemma pipewrite_killed_at:
  assumes env: "pipe_env root m ps ch s" and q: "pipe_queue (pi s) = []" and k: "0 \<le> k" "k < n" "k \<le> 512" and
    acc: "\<forall>x. 0 \<le> x \<and> x < k \<longrightarrow> uacc (kmem s) root (vpn (addr + of_int x))" and "readopen (pi s)"
  shows "\<exists>s'. pipewrite (\<lambda>i. k \<le> i) root ch addr n s = Ok (Done (- 1), s') \<and>
    pipe_queue (pi s') = ubytes (kmem s) root addr 0 k \<and> woken s' = woken s"
proof -
  let ?k = "\<lambda>i. k \<le> i"
  obtain r s' j where w: "pipewrite ?k root ch addr n s = Ok (r, s')" "wrote ?k root m ps ch addr n 0 s r s' j"
    unfolding pipewrite_def using pipewrite_loop_spec [OF env] by blast
  have queue: "pipe_queue (pi s') = ubytes (kmem s) root addr 0 j" and j: "0 \<le> j" and nk: "\<forall>x. 0 \<le> x \<and> x < j \<longrightarrow> \<not> k \<le> x"
    using w(2) q unfolding wrote_def by auto
  have jk: "j \<le> k" using nk k(1) j by (metis linorder_not_less order_refl)
  have stop: "r = Done (- 1) \<and> k \<le> j \<and> woken s' = woken s \<or> r = Blocked j \<and> length (pipe_queue (pi s')) = 512 \<and> \<not> k \<le> j \<or>
      r = Done j \<and> (j < n \<longrightarrow> \<not> uacc (kmem s) root (vpn (addr + of_int j)) \<and> \<not> k \<le> j)"
    using w(2) assms(7) unfolding wrote_def by blast
  have "length (pipe_queue (pi s')) = nat j" unfolding queue by (simp add: ubytes_def)
  then have "\<not> (length (pipe_queue (pi s')) = 512 \<and> \<not> k \<le> j)" using k(3) by linarith
  moreover have "\<not> (j < n \<longrightarrow> \<not> uacc (kmem s) root (vpn (addr + of_int j)) \<and> \<not> k \<le> j)"
    using acc j jk k(2) by (cases "j = k") auto
  ultimately have "r = Done (- 1)" "k \<le> j" "woken s' = woken s" using stop by auto
  then show ?thesis using w(1) queue jk by auto
qed

text \<open>
  C30: killing a writer loses a wakeup. In every reachable state of a pipe where readers sleep and the read
  end is open, take a writer that is killed after its first \<open>k\<close> bytes, at least one and at most 512. It
  returns -1 with its \<open>k\<close> bytes queued, and afterwards the same readers still sleep although there is now
  data for them: the state that C5 excludes when no writer is killed.
\<close>
theorem pipewrite_killed_no_wakeup:
  assumes "pipe_step\<^sup>*\<^sup>* \<lparr>pstate = \<lparr>kmem = k0, pi = fresh_pipe d, woken = []\<rparr>, rsleep = {}, wsleep = {}\<rparr> y" "length d = 512"
    and asleep: "rsleep y \<noteq> {}" and env: "readopen (pi (pstate y))" "pipe_env root m ps ch (pstate y)"
    and k: "0 < k" "k < n" "k \<le> 512" "\<forall>x. 0 \<le> x \<and> x < k \<longrightarrow> uacc (kmem (pstate y)) root (vpn (addr + of_int x))"
  shows "\<exists>s'. pipewrite (\<lambda>i. k \<le> i) root ch addr n (pstate y) = Ok (Done (- 1), s') \<and>
    rsleep (settle s' y) = rsleep y \<and>
    pipe_queue (pi (pstate (settle s' y))) = ubytes (kmem (pstate y)) root addr 0 k \<and>
    pipe_queue (pi (pstate (settle s' y))) \<noteq> []"
proof -
  have l: "pipe_queue (pi (pstate y)) = []" "woken (pstate y) = []"
    using pipe_reachable_live [OF assms(1,2)] asleep by (auto simp: pipe_live_def)
  obtain s' where s': "pipewrite (\<lambda>i. k \<le> i) root ch addr n (pstate y) = Ok (Done (- 1), s')"
      "pipe_queue (pi s') = ubytes (kmem (pstate y)) root addr 0 k" "woken s' = woken (pstate y)"
    using pipewrite_killed_at [OF env(2) l(1) less_imp_le [OF k(1)] k(2-4) env(1)] by blast
  moreover have "ubytes (kmem (pstate y)) root addr 0 k \<noteq> []" using k(1) by (simp add: ubytes_def)
  ultimately show ?thesis using l(2) by (intro exI [of _ s']) (simp add: settle_def)
qed

theorem pipewrite_killed_no_wakeup_witness:
  "\<exists>y s'. pipe_step\<^sup>*\<^sup>* \<lparr>pstate = \<lparr>kmem = demo_user, pi = fresh_pipe (replicate 512 0), woken = []\<rparr>, rsleep = {}, wsleep = {}\<rparr> y \<and>
     rsleep y = {1} \<and> pipewrite (\<lambda>i. 1 \<le> i) 0x80029000 0x80020000 16 3 (pstate y) = Ok (Done (- 1), s') \<and>
     rsleep (settle s' y) = {1} \<and> pipe_queue (pi (pstate (settle s' y))) \<noteq> []"
proof -
  let ?s = "\<lparr>kmem = demo_user, pi = fresh_pipe (replicate 512 0), woken = []\<rparr>"
  let ?y = "\<lparr>pstate = ?s, rsleep = {}, wsleep = {}\<rparr>"
  let ?z = "(settle ?s ?y)\<lparr>rsleep := insert 1 (rsleep (settle ?s ?y))\<rparr>"
  have "piperead False 0 0 0 1 (pstate ?y) = Ok (Blocked 0, ?s)" by (simp add: piperead_def fresh_pipe_def)
  from pipe_step.read_sleep [OF _ this, of 1] have run: "pipe_step\<^sup>*\<^sup>* ?y ?z" by simp
  have z: "rsleep ?z = {1}" "pstate ?z = ?s" "readopen (pi (pstate ?z))" by (simp_all add: settle_def fresh_pipe_def)
  obtain ps where e: "pipe_env 0x80029000 1 ps 0x80020000 ?s" "uacc demo_user 0x80029000 0" using demo_pipe_env by blast
  have a: "rsleep ?z \<noteq> {}" unfolding z(1) by simp
  have b: "pipe_env 0x80029000 1 ps 0x80020000 (pstate ?z)" unfolding z(2) by (rule e(1))
  have c: "\<forall>x. 0 \<le> x \<and> x < 1 \<longrightarrow> uacc (kmem (pstate ?z)) 0x80029000 (vpn (16 + of_int x))"
  proof (intro allI impI)
    fix x :: int assume "0 \<le> x \<and> x < 1"
    then have "x = 0" by simp
    then show "uacc (kmem (pstate ?z)) 0x80029000 (vpn (16 + of_int x))" unfolding z(2) using e(2) by simp
  qed
  obtain s' where s': "pipewrite (\<lambda>i. 1 \<le> i) 0x80029000 0x80020000 16 3 (pstate ?z) = Ok (Done (- 1), s')"
      "rsleep (settle s' ?z) = rsleep ?z" "pipe_queue (pi (pstate (settle s' ?z))) \<noteq> []"
    using pipewrite_killed_no_wakeup [OF run _ a z(3) b _ _ _ c, of 3] by auto
  have "rsleep (settle s' ?z) = {1}" using s'(2) z(1) by (rule trans)
  then show ?thesis using run z(1) s'(1,3) by blast
qed

end
