(* ===== verification/Spinlock.thy ===== *)
theory Spinlock
  imports Xv6_Prelude
begin

text \<open>
  Spinlocks (kernel/spinlock.c). Every CPU has its interrupt-enable bit and the \<open>push_off\<close> nesting
  of \<open>struct cpu\<close>. The operations are given as the steps another CPU can interleave with: the atomic
  swap, the write of the owner, the clearing of the owner, the atomic release. A step relation over
  any number of CPUs gives mutual exclusion, that interrupts are off while a lock is held, and that
  the checks of \<open>acquire\<close>, \<open>release\<close> and \<open>pop_off\<close> never panic.
\<close>

section \<open>The operations\<close>

record cpu =
  noff :: int
  intena :: bool
  sie :: bool

record spinlock =
  locked :: u32
  lcpu :: "nat option"

definition initlock :: spinlock where
  "initlock = \<lparr>locked = 0, lcpu = None\<rparr>"

definition push_off :: "cpu \<Rightarrow> cpu" where
  "push_off c =
     (let old = sie c;
          c = c\<lparr>sie := False\<rparr>;
          c = (if noff c = 0 then c\<lparr>intena := old\<rparr> else c)
      in c\<lparr>noff := noff c + 1\<rparr>)"

definition pop_off :: "cpu \<Rightarrow> cpu kres" where
  "pop_off c =
     (if sie c then Panic ''pop_off - interruptible''
      else if noff c < 1 then Panic ''pop_off''
      else
        let c = c\<lparr>noff := noff c - 1\<rparr>
        in Ok (if noff c = 0 \<and> intena c then c\<lparr>sie := True\<rparr> else c))"

definition holding :: "nat \<Rightarrow> spinlock \<Rightarrow> bool" where
  "holding i lk \<longleftrightarrow> locked lk \<noteq> 0 \<and> lcpu lk = Some i"

text \<open>\<open>__sync_lock_test_and_set\<close>: the old value and the lock with 1 in it.\<close>

definition test_and_set :: "spinlock \<Rightarrow> u32 \<times> spinlock" where
  "test_and_set lk = (locked lk, lk\<lparr>locked := 1\<rparr>)"

definition acquire_enter :: "nat \<Rightarrow> cpu \<Rightarrow> spinlock \<Rightarrow> cpu kres" where
  "acquire_enter i c lk = (let c = push_off c in if holding i lk then Panic ''acquire'' else Ok c)"

definition acquire_record :: "nat \<Rightarrow> spinlock \<Rightarrow> spinlock" where
  "acquire_record i lk = lk\<lparr>lcpu := Some i\<rparr>"

definition release_clear :: "nat \<Rightarrow> spinlock \<Rightarrow> spinlock kres" where
  "release_clear i lk = (if \<not> holding i lk then Panic ''release'' else Ok (lk\<lparr>lcpu := None\<rparr>))"

definition lock_release :: "spinlock \<Rightarrow> spinlock" where
  "lock_release lk = lk\<lparr>locked := 0\<rparr>"

text \<open>The whole operations, on a machine where no other CPU steps in between: a lock that is taken
  then spins for ever.\<close>

definition acquire :: "nat \<Rightarrow> cpu \<Rightarrow> spinlock \<Rightarrow> (cpu \<times> spinlock) kres" where
  "acquire i c lk =
     kbind (acquire_enter i c lk) (\<lambda>c.
       case test_and_set lk of (old, lk) \<Rightarrow>
         if old \<noteq> 0 then NoReturn else Ok (c, acquire_record i lk))"

definition release :: "nat \<Rightarrow> cpu \<Rightarrow> spinlock \<Rightarrow> (cpu \<times> spinlock) kres" where
  "release i c lk =
     kbind (release_clear i lk) (\<lambda>lk.
     kbind (pop_off c) (\<lambda>c. Ok (c, lock_release lk)))"

section \<open>Interleaved execution\<close>

text \<open>Where a CPU is with respect to the lock: between operations, spinning on the swap, after the
  swap, in the critical section, after clearing the owner, after the atomic release.\<close>

datatype pc = Idle | Spinning | Taken | Critical | Cleared | Released

record lsys =
  cpus :: "nat \<Rightarrow> cpu"
  pcs :: "nat \<Rightarrow> pc"
  slk :: spinlock

inductive lstep :: "lsys \<Rightarrow> lsys kres \<Rightarrow> bool" where
  enter: "pcs s i = Idle \<Longrightarrow>
    lstep s (kbind (acquire_enter i (cpus s i) (slk s)) (\<lambda>c. Ok (s\<lparr>cpus := (cpus s)(i := c), pcs := (pcs s)(i := Spinning)\<rparr>)))"
| swap: "pcs s i = Spinning \<Longrightarrow> test_and_set (slk s) = (old, lk) \<Longrightarrow>
    lstep s (Ok (s\<lparr>slk := lk, pcs := (pcs s)(i := if old \<noteq> 0 then Spinning else Taken)\<rparr>))"
| own: "pcs s i = Taken \<Longrightarrow>
    lstep s (Ok (s\<lparr>slk := acquire_record i (slk s), pcs := (pcs s)(i := Critical)\<rparr>))"
| clear: "pcs s i = Critical \<Longrightarrow>
    lstep s (kbind (release_clear i (slk s)) (\<lambda>lk. Ok (s\<lparr>slk := lk, pcs := (pcs s)(i := Cleared)\<rparr>)))"
| unlock: "pcs s i = Cleared \<Longrightarrow>
    lstep s (Ok (s\<lparr>slk := lock_release (slk s), pcs := (pcs s)(i := Released)\<rparr>))"
| leave: "pcs s i = Released \<Longrightarrow>
    lstep s (kbind (pop_off (cpus s i)) (\<lambda>c. Ok (s\<lparr>cpus := (cpus s)(i := c), pcs := (pcs s)(i := Idle)\<rparr>)))"
| nest: "lstep s (Ok (s\<lparr>cpus := (cpus s)(i := push_off (cpus s i))\<rparr>))"
| unnest: "(if pcs s i = Idle then 0 else 1) < noff (cpus s i) \<Longrightarrow>
    lstep s (kbind (pop_off (cpus s i)) (\<lambda>c. Ok (s\<lparr>cpus := (cpus s)(i := c)\<rparr>)))"

inductive lreach :: "lsys \<Rightarrow> lsys \<Rightarrow> bool" for s0 where
  start: "lreach s0 s0"
| step: "lreach s0 s \<Longrightarrow> lstep s (Ok s') \<Longrightarrow> lreach s0 s'"

section \<open>Correctness\<close>

definition cpu_ok :: "cpu \<Rightarrow> bool" where
  "cpu_ok c \<longleftrightarrow> 0 \<le> noff c \<and> (0 < noff c \<longrightarrow> \<not> sie c)"

definition holder :: "pc \<Rightarrow> bool" where
  "holder p \<longleftrightarrow> p \<in> {Taken, Critical, Cleared}"

definition cpus_ok :: "(nat \<Rightarrow> cpu) \<Rightarrow> (nat \<Rightarrow> pc) \<Rightarrow> bool" where
  "cpus_ok cs ps \<longleftrightarrow> (\<forall>i. cpu_ok (cs i) \<and> (ps i \<noteq> Idle \<longrightarrow> 0 < noff (cs i)))"

text \<open>\<open>h\<close> is the CPU that holds the lock, if there is one.\<close>

definition lock_ok :: "nat option \<Rightarrow> (nat \<Rightarrow> pc) \<Rightarrow> spinlock \<Rightarrow> bool" where
  "lock_ok h ps lk \<longleftrightarrow> (\<forall>i. holder (ps i) \<longleftrightarrow> h = Some i) \<and> (locked lk \<noteq> 0 \<longleftrightarrow> h \<noteq> None) \<and>
     (\<forall>i. lcpu lk = Some i \<longleftrightarrow> ps i = Critical)"

definition lock_inv :: "lsys \<Rightarrow> bool" where
  "lock_inv s \<longleftrightarrow> cpus_ok (cpus s) (pcs s) \<and> (\<exists>h. lock_ok h (pcs s) (slk s))"

lemma push_off_ok: "cpu_ok c \<Longrightarrow> cpu_ok (push_off c) \<and> noff (push_off c) = noff c + 1"
  by (simp add: push_off_def cpu_ok_def Let_def)

lemma pop_off_ok:
  "cpu_ok c \<Longrightarrow> 0 < noff c \<Longrightarrow> \<exists>c'. pop_off c = Ok c' \<and> cpu_ok c' \<and> noff c' = noff c - 1"
  by (auto simp: pop_off_def cpu_ok_def Let_def)

lemma push_pop_off: "0 \<le> noff c \<Longrightarrow> (0 < noff c \<longrightarrow> \<not> sie c) \<Longrightarrow>
    \<exists>c'. pop_off (push_off c) = Ok c' \<and> noff c' = noff c \<and> sie c' = sie c"
  by (auto simp: pop_off_def push_off_def Let_def)

lemma cpus_ok_upd:
  "cpus_ok cs ps \<Longrightarrow> cpu_ok c \<Longrightarrow> (p \<noteq> Idle \<longrightarrow> 0 < noff c) \<Longrightarrow> cpus_ok (cs(i := c)) (ps(i := p))"
  by (simp add: cpus_ok_def)

lemma cpus_ok_pc: "cpus_ok cs ps \<Longrightarrow> ps i \<noteq> Idle \<Longrightarrow> cpus_ok cs (ps(i := p))"
  by (simp add: cpus_ok_def)

lemma lock_ok_other:
  "lock_ok h ps lk \<Longrightarrow> \<not> holder (ps i) \<Longrightarrow> \<not> holder p \<Longrightarrow> lock_ok h (ps(i := p)) lk"
  by (auto simp: lock_ok_def holder_def)

lemma lock_ok_unique:
  "lock_ok h ps lk \<Longrightarrow> holder (ps i) \<Longrightarrow> h = Some i \<and> (\<forall>j. j \<noteq> i \<longrightarrow> \<not> holder (ps j))"
  by (simp add: lock_ok_def)

lemma lock_ok_swap:
  assumes "lock_ok h ps lk" "ps i = Spinning" "test_and_set lk = (old, lk')"
  shows "\<exists>h'. lock_ok h' (ps(i := if old \<noteq> 0 then Spinning else Taken)) lk'"
proof (cases "old = 0")
  case True
  hence "lock_ok (Some i) (ps(i := Taken)) lk'"
    using assms by (auto simp: lock_ok_def test_and_set_def holder_def)
  thus ?thesis using True by auto
next
  case False
  have "lock_ok h (ps(i := Spinning)) lk"
    using assms(2) lock_ok_other [OF assms(1), of i Spinning] by (simp add: holder_def)
  hence "lock_ok h (ps(i := Spinning)) lk'"
    using assms(3) False by (auto simp: lock_ok_def test_and_set_def)
  thus ?thesis using False by auto
qed

lemma lock_ok_own: "lock_ok h ps lk \<Longrightarrow> ps i = Taken \<Longrightarrow> lock_ok h (ps(i := Critical)) (acquire_record i lk)"
  using lock_ok_unique [of h ps lk i] by (fastforce simp: lock_ok_def acquire_record_def holder_def)

lemma lock_ok_clear:
  "lock_ok h ps lk \<Longrightarrow> ps i = Critical \<Longrightarrow>
     release_clear i lk = Ok (lk\<lparr>lcpu := None\<rparr>) \<and> lock_ok h (ps(i := Cleared)) (lk\<lparr>lcpu := None\<rparr>)"
  using lock_ok_unique [of h ps lk i] by (fastforce simp: lock_ok_def release_clear_def holding_def holder_def)

lemma lock_ok_unlock: "lock_ok h ps lk \<Longrightarrow> ps i = Cleared \<Longrightarrow> lock_ok None (ps(i := Released)) (lock_release lk)"
  using lock_ok_unique [of h ps lk i] by (fastforce simp: lock_ok_def lock_release_def holder_def)

lemma lock_inv_step:
  assumes "lock_inv s" "lstep s r"
  shows "\<exists>s'. r = Ok s' \<and> lock_inv s'"
proof -
  obtain h where c: "cpus_ok (cpus s) (pcs s)" and h: "lock_ok h (pcs s) (slk s)"
    using assms(1) by (auto simp: lock_inv_def)
  have ok: "cpu_ok (cpus s i)" "pcs s i \<noteq> Idle \<Longrightarrow> 0 < noff (cpus s i)" for i
    using c by (auto simp: cpus_ok_def)
  have push: "cpu_ok (push_off (cpus s i))" "0 < noff (push_off (cpus s i))" for i
    using push_off_ok [OF ok(1), of i] ok(1) [of i] by (auto simp: cpu_ok_def)
  show ?thesis
    using assms(2)
  proof (cases rule: lstep.cases)
    case (enter i)
    hence "\<not> holding i (slk s)"
      using h by (auto simp: lock_ok_def holding_def)
    with enter h c push show ?thesis
      by (auto simp: lock_inv_def acquire_enter_def holder_def intro!: cpus_ok_upd lock_ok_other)
  next
    case (swap i old lk)
    with c lock_ok_swap [OF h] show ?thesis
      by (auto simp: lock_inv_def intro!: cpus_ok_pc)
  next
    case (own i)
    with c lock_ok_own [OF h] show ?thesis
      by (auto simp: lock_inv_def intro!: cpus_ok_pc)
  next
    case (clear i)
    with c lock_ok_clear [OF h] show ?thesis
      by (auto simp: lock_inv_def intro!: cpus_ok_pc)
  next
    case (unlock i)
    with c lock_ok_unlock [OF h] show ?thesis
      by (auto simp: lock_inv_def intro!: cpus_ok_pc)
  next
    case (leave i)
    hence "\<exists>c'. pop_off (cpus s i) = Ok c' \<and> cpu_ok c'"
      using pop_off_ok [OF ok, of i] by auto
    moreover have "lock_ok h ((pcs s)(i := Idle)) (slk s)"
      using leave lock_ok_other [OF h, of i Idle] by (simp add: holder_def)
    ultimately show ?thesis
      using leave c by (auto simp: lock_inv_def intro!: cpus_ok_upd)
  next
    case (nest i)
    with h cpus_ok_upd [OF c push(1), of "pcs s i" i i] push(2) show ?thesis
      by (auto simp: lock_inv_def)
  next
    case (unnest i)
    hence "0 < noff (cpus s i)"
      by (auto split: if_splits)
    then obtain c' where "pop_off (cpus s i) = Ok c'" "cpu_ok c'" "noff c' = noff (cpus s i) - 1"
      using pop_off_ok [OF ok(1)] by blast
    with unnest h cpus_ok_upd [OF c, of c' "pcs s i" i] show ?thesis
      by (auto simp: lock_inv_def split: if_splits)
  qed
qed

lemma lock_inv_reach: "lreach s0 s \<Longrightarrow> lock_inv s0 \<Longrightarrow> lock_inv s"
  by (induction rule: lreach.induct) (use lock_inv_step in blast)+

text \<open>
  C7: from a state where no CPU is at the lock, whatever the CPUs do and in whatever order, at most
  one CPU is between the swap of acquire and the atomic release; interrupts are off on every CPU that
  spins on, holds or releases the lock; the lock word is set and the recorded owner is right; and no
  next step of any CPU panics.\<close>

theorem spinlock_mutual_exclusion:
  assumes "lreach s0 s" "\<forall>i. pcs s0 i = Idle" "\<forall>i. cpu_ok (cpus s0 i)" "slk s0 = initlock"
  shows "(\<forall>i j. holder (pcs s i) \<and> holder (pcs s j) \<longrightarrow> i = j) \<and>
    (\<forall>i. pcs s i \<noteq> Idle \<longrightarrow> \<not> sie (cpus s i)) \<and>
    (\<forall>i. holding i (slk s) \<longleftrightarrow> pcs s i = Critical) \<and> (\<forall>e. \<not> lstep s (Panic e))"
proof -
  have "cpus_ok (cpus s0) (pcs s0)" "lock_ok None (pcs s0) (slk s0)"
    using assms(2-4) by (auto simp: cpus_ok_def lock_ok_def initlock_def holder_def)
  hence inv: "lock_inv s"
    using lock_inv_reach assms(1) by (auto simp: lock_inv_def)
  then obtain h where h: "lock_ok h (pcs s) (slk s)"
    by (auto simp: lock_inv_def)
  have "\<not> lstep s (Panic e)" for e
    using lock_inv_step [OF inv] by auto
  moreover have "holding i (slk s) \<longleftrightarrow> pcs s i = Critical" for i
    using h by (auto simp: lock_ok_def holding_def holder_def)
  moreover have "\<not> sie (cpus s i)" if "pcs s i \<noteq> Idle" for i
    using inv that by (auto simp: lock_inv_def cpus_ok_def cpu_ok_def)
  moreover have "i = j" if "holder (pcs s i)" "holder (pcs s j)" for i j
    using h that by (simp add: lock_ok_def)
  ultimately show ?thesis
    by blast
qed

definition two_cpus :: lsys where
  "two_cpus = \<lparr>cpus = (\<lambda>_. \<lparr>noff = 0, intena = False, sie = True\<rparr>), pcs = (\<lambda>_. Idle), slk = initlock\<rparr>"

definition contended :: lsys where
  "contended = two_cpus\<lparr>cpus := (\<lambda>_. \<lparr>noff = 0, intena = False, sie = True\<rparr>)
       (0 := \<lparr>noff = 1, intena = True, sie = False\<rparr>, 1 := \<lparr>noff = 1, intena = True, sie = False\<rparr>),
     pcs := (\<lambda>_. Idle)(0 := Taken, 1 := Spinning), slk := \<lparr>locked = 1, lcpu = None\<rparr>\<rparr>"

lemma lstep_enter: "pcs s i = Idle \<Longrightarrow> acquire_enter i (cpus s i) (slk s) = Ok c \<Longrightarrow>
    lstep s (Ok (s\<lparr>cpus := (cpus s)(i := c), pcs := (pcs s)(i := Spinning)\<rparr>))"
  using lstep.enter [of s i] by simp

lemma contended_reach: "lreach two_cpus contended"
proof -
  let ?c = "\<lparr>noff = 1, intena = True, sie = False\<rparr>"
  let ?s1 = "two_cpus\<lparr>cpus := (cpus two_cpus)(0 := ?c), pcs := (pcs two_cpus)(0 := Spinning)\<rparr>"
  let ?s2 = "?s1\<lparr>cpus := (cpus ?s1)(1 := ?c), pcs := (pcs ?s1)(1 := Spinning)\<rparr>"
  have e: "acquire_enter i (cpus two_cpus i) initlock = Ok ?c" for i
    by (simp add: two_cpus_def acquire_enter_def push_off_def initlock_def holding_def Let_def)
  have "lstep two_cpus (Ok ?s1)"
    using e [of 0] by (intro lstep_enter) (simp_all add: two_cpus_def)
  moreover have "lstep ?s1 (Ok ?s2)"
    using e [of 1] by (intro lstep_enter) (simp_all add: two_cpus_def)
  moreover have "lstep ?s2 (Ok contended)"
    using lstep.swap [of ?s2 0 0 "\<lparr>locked = 1, lcpu = None\<rparr>"]
    by (simp add: contended_def two_cpus_def test_and_set_def initlock_def fun_upd_twist)
  ultimately show ?thesis
    using lreach.step [OF lreach.step [OF lreach.step [OF lreach.start]]] by blast
qed

theorem spinlock_mutual_exclusion_witness:
  "pcs contended 0 = Taken \<and> pcs contended 1 = Spinning \<and> \<not> sie (cpus contended 1) \<and> \<not> lstep contended (Panic ''acquire'')"
proof -
  have "(\<forall>i. pcs two_cpus i = Idle) \<and> (\<forall>i. cpu_ok (cpus two_cpus i)) \<and> slk two_cpus = initlock"
    by (simp add: two_cpus_def cpu_ok_def)
  with spinlock_mutual_exclusion [OF contended_reach] show ?thesis
    by (simp add: contended_def)
qed

text \<open>
  C32: acquire of a free lock followed by release, and any matched pair of push_off and pop_off,
  returns the CPU to the interrupt state and nesting depth it had, and the lock is free again.\<close>

theorem acquire_release_restores:
  assumes "cpu_ok c" "locked lk = 0"
  shows "\<exists>c1 lk1 c2. acquire i c lk = Ok (c1, lk1) \<and> holding i lk1 \<and> \<not> sie c1 \<and>
    release i c1 lk1 = Ok (c2, \<lparr>locked = 0, lcpu = None\<rparr>) \<and> noff c2 = noff c \<and> sie c2 = sie c"
proof -
  have c: "0 \<le> noff c" "0 < noff c \<longrightarrow> \<not> sie c"
    using assms(1) by (simp_all add: cpu_ok_def)
  obtain c' where "pop_off (push_off c) = Ok c'" "noff c' = noff c" "sie c' = sie c"
    using push_pop_off [OF c] by blast
  moreover have "\<not> sie (push_off c)"
    by (simp add: push_off_def Let_def)
  ultimately show ?thesis
    using assms(2)
    by (cases lk) (auto simp: acquire_def acquire_enter_def release_def holding_def test_and_set_def
        acquire_record_def release_clear_def lock_release_def Let_def)
qed

theorem acquire_release_restores_witness:
  "\<exists>c1 lk1 c2. acquire 3 \<lparr>noff = 0, intena = False, sie = True\<rparr> initlock = Ok (c1, lk1) \<and> holding 3 lk1 \<and> \<not> sie c1 \<and>
    release 3 c1 lk1 = Ok (c2, \<lparr>locked = 0, lcpu = None\<rparr>) \<and> noff c2 = 0 \<and> sie c2"
  using acquire_release_restores [of "\<lparr>noff = 0, intena = False, sie = True\<rparr>" initlock 3]
  by (simp add: cpu_ok_def initlock_def)

end
