(* ===== verification/Proc.thy ===== *)
theory Proc
  imports Vm_Byte Spinlock
begin

text \<open>
  The process table (kernel/proc.c, kernel/proc.h). Processes are
  addressed by their index in \<open>proc\<close>; a trapframe is the page of kernel memory \<open>p->trapframe\<close> points to.
  Each operation runs under the locks it takes, so it is one step; \<open>sleep\<close>, \<open>yield\<close> and \<open>exit\<close> end
  in \<open>sched\<close>, which gives the CPU to the scheduler: what they do before and after it are two functions.
\<close>

unbundle bit_operations_syntax

section \<open>State\<close>

datatype procstate = UNUSED | USED | SLEEPING | RUNNABLE | RUNNING | ZOMBIE

text \<open>The fields of \<open>struct trapframe\<close> the kernel uses, by their offset.\<close>

definition TF_kernel_satp :: u64 where "TF_kernel_satp = 0"
definition TF_kernel_sp :: u64 where "TF_kernel_sp = 8"
definition TF_kernel_trap :: u64 where "TF_kernel_trap = 16"
definition TF_epc :: u64 where "TF_epc = 24"
definition TF_kernel_hartid :: u64 where "TF_kernel_hartid = 32"
definition TF_sp :: u64 where "TF_sp = 48"
definition TF_a :: "nat \<Rightarrow> u64" where "TF_a n = 112 + 8 * of_nat n"
definition sizeof_trapframe :: u64 where "sizeof_trapframe = 288"

record ctx =
  ctx_ra :: u64
  ctx_sp :: u64
  ctx_s :: "nat \<Rightarrow> u64"

record proc =
  p_state :: procstate
  p_chan :: u64
  p_killed :: bool
  p_xstate :: u32
  p_pid :: u32
  p_parent :: "nat option"
  p_kstack :: u64
  p_sz :: u64
  p_pagetable :: u64
  p_trapframe :: u64
  p_context :: ctx
  p_ofile :: "nat \<Rightarrow> nat option"
  p_cwd :: "nat option"
  p_name :: "u8 list"

record ptst =
  p_tab :: "nat \<Rightarrow> proc"
  initproc :: "nat option"
  nextpid :: u32
  pk :: kst

text \<open>Symbols the linker places.\<close>

record ksym =
  trampoline :: u64
  forkret_addr :: u64
  proc_addr :: "nat \<Rightarrow> u64"

definition upd_proc :: "nat \<Rightarrow> (proc \<Rightarrow> proc) \<Rightarrow> ptst \<Rightarrow> ptst" where
  "upd_proc i f s = s\<lparr>p_tab := (p_tab s)(i := f (p_tab s i))\<rparr>"

section \<open>Allocation\<close>

definition procinit :: "ptst \<Rightarrow> ptst" where
  "procinit s = fold (\<lambda>i. upd_proc i (\<lambda>p. p\<lparr>p_state := UNUSED, p_kstack := KSTACK (of_nat i)\<rparr>)) [0..<NPROC] s"

definition allocpid :: "ptst \<Rightarrow> u32 \<times> ptst" where
  "allocpid s = (nextpid s, s\<lparr>nextpid := nextpid s + 1\<rparr>)"

definition proc_pagetable :: "ksym \<Rightarrow> u64 \<Rightarrow> kst \<Rightarrow> (u64 \<times> kst) kres" where
  "proc_pagetable y tf k =
     (case uvmcreate k of (pagetable, k) \<Rightarrow>
        if pagetable = 0 then Ok (0, k)
        else
          kbind (mappages pagetable TRAMPOLINE PGSIZE (trampoline y) (ucast (PTE_R OR PTE_X)) k) (\<lambda>(r, k).
            if r < 0 then kbind (returns (uvmfree pagetable 0 k)) (\<lambda>k. Ok (0, k))
            else
              kbind (mappages pagetable TRAPFRAME PGSIZE tf (ucast (PTE_R OR PTE_W)) k) (\<lambda>(r, k).
                if r < 0 then
                  kbind (uvmunmap pagetable TRAMPOLINE 1 False k) (\<lambda>k.
                  kbind (returns (uvmfree pagetable 0 k)) (\<lambda>k. Ok (0, k)))
                else Ok (pagetable, k))))"

definition proc_freepagetable :: "u64 \<Rightarrow> u64 \<Rightarrow> kst \<Rightarrow> kst kres" where
  "proc_freepagetable pagetable sz k =
     kbind (uvmunmap pagetable TRAMPOLINE 1 False k) (\<lambda>k.
     kbind (uvmunmap pagetable TRAPFRAME 1 False k) (\<lambda>k.
     returns (uvmfree pagetable sz k)))"

definition freeproc :: "nat \<Rightarrow> ptst \<Rightarrow> ptst kres" where
  "freeproc i s =
     (let p = p_tab s i
      in kbind (if p_trapframe p \<noteq> 0 then kfree (p_trapframe p) (pk s) else Ok (pk s)) (\<lambda>k.
         kbind (if p_pagetable p \<noteq> 0 then proc_freepagetable (p_pagetable p) (p_sz p) k else Ok k) (\<lambda>k.
           Ok (upd_proc i (\<lambda>p. p\<lparr>p_trapframe := 0, p_pagetable := 0, p_sz := 0, p_pid := 0, p_parent := None,
                 p_name := (p_name p)[0 := 0], p_chan := 0, p_killed := False, p_xstate := 0, p_state := UNUSED\<rparr>) (s\<lparr>pk := k\<rparr>)))))"

definition find_unused :: "ptst \<Rightarrow> nat option" where
  "find_unused s = List.find (\<lambda>i. p_state (p_tab s i) = UNUSED) [0..<NPROC]"

definition allocproc :: "ksym \<Rightarrow> ptst \<Rightarrow> (nat option \<times> ptst) kres" where
  "allocproc y s =
     (case find_unused s of
        None \<Rightarrow> Ok (None, s)
      | Some i \<Rightarrow>
          (case allocpid s of (pid, s) \<Rightarrow>
             let s = upd_proc i (\<lambda>p. p\<lparr>p_pid := pid, p_state := USED\<rparr>) s
             in case kalloc (pk s) of (tf, k) \<Rightarrow>
                  let s = upd_proc i (\<lambda>p. p\<lparr>p_trapframe := tf\<rparr>) (s\<lparr>pk := k\<rparr>)
                  in if tf = 0 then kbind (freeproc i s) (\<lambda>s. Ok (None, s))
                     else
                       kbind (proc_pagetable y tf (pk s)) (\<lambda>(pt, k).
                         let s = upd_proc i (\<lambda>p. p\<lparr>p_pagetable := pt\<rparr>) (s\<lparr>pk := k\<rparr>)
                         in if pt = 0 then kbind (freeproc i s) (\<lambda>s. Ok (None, s))
                            else Ok (Some i, upd_proc i (\<lambda>p. p\<lparr>p_context :=
                                   \<lparr>ctx_ra = forkret_addr y, ctx_sp = p_kstack p + PGSIZE, ctx_s = (\<lambda>_. 0)\<rparr>\<rparr>) s))))"

definition growproc :: "nat \<Rightarrow> int \<Rightarrow> ptst \<Rightarrow> (int \<times> ptst) kres" where
  "growproc i n s =
     (let p = p_tab s i; sz = p_sz p
      in if n > 0 then
           kbind (uvmalloc (p_pagetable p) sz (sz + of_int n) (ucast PTE_W) (pk s)) (\<lambda>(sz, k).
             let s = s\<lparr>pk := k\<rparr>
             in if sz = 0 then Ok (-1, s) else Ok (0, upd_proc i (\<lambda>p. p\<lparr>p_sz := sz\<rparr>) s))
         else if n < 0 then
           kbind (uvmdealloc (p_pagetable p) sz (sz + of_int n) (pk s)) (\<lambda>(sz, k).
             Ok (0, upd_proc i (\<lambda>p. p\<lparr>p_sz := sz\<rparr>) (s\<lparr>pk := k\<rparr>)))
         else Ok (0, s))"

section \<open>Sleeping, waking, killing\<close>

text \<open>\<open>me\<close> is \<open>myproc()\<close>, None on a CPU in its scheduler.\<close>

definition wakeup_proc :: "u64 \<Rightarrow> proc \<Rightarrow> proc" where
  "wakeup_proc ch p = (if p_state p = SLEEPING \<and> p_chan p = ch then p\<lparr>p_state := RUNNABLE\<rparr> else p)"

definition wakeup :: "nat option \<Rightarrow> u64 \<Rightarrow> ptst \<Rightarrow> ptst" where
  "wakeup me ch s = fold (\<lambda>i s. if me \<noteq> Some i then upd_proc i (wakeup_proc ch) s else s) [0..<NPROC] s"

definition sleep_begin :: "nat \<Rightarrow> u64 \<Rightarrow> ptst \<Rightarrow> ptst" where
  "sleep_begin i ch = upd_proc i (\<lambda>p. p\<lparr>p_chan := ch, p_state := SLEEPING\<rparr>)"

definition sleep_end :: "nat \<Rightarrow> ptst \<Rightarrow> ptst" where
  "sleep_end i = upd_proc i (\<lambda>p. p\<lparr>p_chan := 0\<rparr>)"

definition yield :: "nat \<Rightarrow> ptst \<Rightarrow> ptst" where
  "yield i = upd_proc i (\<lambda>p. p\<lparr>p_state := RUNNABLE\<rparr>)"

text \<open>The checks of \<open>sched\<close> before the switch, for a process that holds its lock or does not.\<close>

definition sched :: "bool \<Rightarrow> cpu \<Rightarrow> proc \<Rightarrow> unit kres" where
  "sched held c p =
     (if \<not> held then Panic ''sched p->lock''
      else if noff c \<noteq> 1 then Panic ''sched locks''
      else if p_state p = RUNNING then Panic ''sched running''
      else if sie c then Panic ''sched interruptible''
      else Ok ())"

text \<open>One iteration of the inner loop of \<open>scheduler\<close>: whether it switches to process \<open>i\<close>.\<close>

definition scheduler_pick :: "nat \<Rightarrow> ptst \<Rightarrow> ptst option" where
  "scheduler_pick i s =
     (if p_state (p_tab s i) = RUNNABLE then Some (upd_proc i (\<lambda>p. p\<lparr>p_state := RUNNING\<rparr>) s) else None)"

definition kill :: "u32 \<Rightarrow> ptst \<Rightarrow> int \<times> ptst" where
  "kill pid s =
     (case List.find (\<lambda>i. p_pid (p_tab s i) = pid) [0..<NPROC] of
        Some i \<Rightarrow>
          (0, upd_proc i (\<lambda>p. let p = p\<lparr>p_killed := True\<rparr>
                             in if p_state p = SLEEPING then p\<lparr>p_state := RUNNABLE\<rparr> else p) s)
      | None \<Rightarrow> (-1, s))"

definition setkilled :: "nat \<Rightarrow> ptst \<Rightarrow> ptst" where
  "setkilled i = upd_proc i (\<lambda>p. p\<lparr>p_killed := True\<rparr>)"

definition killed :: "nat \<Rightarrow> ptst \<Rightarrow> bool" where
  "killed i s = p_killed (p_tab s i)"

definition reparent :: "ksym \<Rightarrow> nat \<Rightarrow> ptst \<Rightarrow> ptst" where
  "reparent y i s =
     fold (\<lambda>j s. if p_parent (p_tab s j) = Some i
                 then wakeup (Some i) (case initproc s of Some n \<Rightarrow> proc_addr y n | None \<Rightarrow> 0)
                        (upd_proc j (\<lambda>p. p\<lparr>p_parent := initproc s\<rparr>) s)
                 else s) [0..<NPROC] s"

text \<open>The end of \<open>exit\<close>, after the files are closed: under \<open>wait_lock\<close> and the lock of the process.\<close>

definition exit_zombie :: "ksym \<Rightarrow> nat \<Rightarrow> u32 \<Rightarrow> ptst \<Rightarrow> ptst" where
  "exit_zombie y i status s =
     (let s = reparent y i s;
          s = wakeup (Some i) (case p_parent (p_tab s i) of Some n \<Rightarrow> proc_addr y n | None \<Rightarrow> 0) s
      in upd_proc i (\<lambda>p. p\<lparr>p_xstate := status, p_state := ZOMBIE\<rparr>) s)"

section \<open>wait\<close>

text \<open>What a scan of the table gives: whether the process has children, and the zombie it finds first.\<close>

definition wait_scan :: "nat \<Rightarrow> ptst \<Rightarrow> bool \<times> nat option" where
  "wait_scan i s =
     (let kids = filter (\<lambda>j. p_parent (p_tab s j) = Some i) [0..<NPROC]
      in (kids \<noteq> [], List.find (\<lambda>j. p_state (p_tab s j) = ZOMBIE) kids))"

datatype wait_res = Reaped u32 | Failed | Sleeps

text \<open>\<open>xaddr\<close> is the address of \<open>pp->xstate\<close>, whose four bytes are laid out there.\<close>

definition expose32 :: "u64 \<Rightarrow> u32 \<Rightarrow> kst \<Rightarrow> kst" where
  "expose32 a w k = k\<lparr>pmem := (\<lambda>x. if unat (x - a) < 4 then le_bytes 4 w ! unat (x - a) else pmem k x)\<rparr>"

definition wait :: "ksym \<Rightarrow> u64 \<Rightarrow> nat \<Rightarrow> u64 \<Rightarrow> ptst \<Rightarrow> (wait_res \<times> ptst) kres" where
  "wait y xaddr i addr s =
     (case wait_scan i s of
        (_, Some j) \<Rightarrow>
          let pid = p_pid (p_tab s j)
          in kbind (if addr \<noteq> 0
                    then copyout (p_pagetable (p_tab s i)) addr xaddr 4 (expose32 xaddr (p_xstate (p_tab s j)) (pk s))
                    else Ok (0, pk s)) (\<lambda>(r, k).
               let s = s\<lparr>pk := k\<rparr>
               in if r < 0 then Ok (Failed, s)
                  else kbind (freeproc j s) (\<lambda>s. Ok (Reaped pid, s)))
      | (havekids, None) \<Rightarrow>
          if \<not> havekids \<or> killed i s then Ok (Failed, s) else Ok (Sleeps, sleep_begin i (proc_addr y i) s))"

section \<open>Effect on the table\<close>


lemma upd_proc_tab [simp]:
  "p_tab (upd_proc i f s) j = (if j = i then f (p_tab s i) else p_tab s j)"
  "pk (upd_proc i f s) = pk s" "initproc (upd_proc i f s) = initproc s" "nextpid (upd_proc i f s) = nextpid s"
  by (simp_all add: upd_proc_def)

lemma fold_upd_proc:
  "distinct xs \<Longrightarrow> p_tab (fold (\<lambda>i s. if Q i then upd_proc i f s else s) xs s) j =
     (if j \<in> set xs \<and> Q j then f (p_tab s j) else p_tab s j)"
  by (induction xs arbitrary: s) auto

lemma wakeup_tab:
  "p_tab (wakeup me ch s) j = (if j < NPROC \<and> me \<noteq> Some j then wakeup_proc ch (p_tab s j) else p_tab s j)"
  by (simp add: wakeup_def fold_upd_proc)

lemma fold_initproc: "initproc (fold (\<lambda>i s. if Q i then upd_proc i f s else s) xs s) = initproc s"
  by (induction xs arbitrary: s) auto

lemma wakeup_initproc [simp]: "initproc (wakeup me ch s) = initproc s"
  by (simp add: wakeup_def fold_initproc)

section \<open>Scheduling\<close>

definition running :: "ptst \<Rightarrow> nat set" where
  "running s = {i. p_state (p_tab s i) = RUNNING}"

lemma running_wakeup [simp]: "running (wakeup me ch s) = running s"
  by (auto simp: running_def wakeup_tab wakeup_proc_def split: if_splits)

lemma running_kill [simp]: "running (snd (kill pid s)) = running s"
  by (auto simp: running_def kill_def Let_def split: option.splits if_splits)

lemma running_upd: "running (upd_proc i f s) = (if p_state (f (p_tab s i)) = RUNNING then insert i (running s) else running s - {i})"
  by (auto simp: running_def)

lemma running_reparent [simp]: "running (reparent y i s) = running s"
proof -
  have "running (fold (\<lambda>j s. if p_parent (p_tab s j) = Some i
      then wakeup (Some i) (case initproc s of Some n \<Rightarrow> proc_addr y n | None \<Rightarrow> 0) (upd_proc j (\<lambda>p. p\<lparr>p_parent := initproc s\<rparr>) s)
      else s) xs s) = running s" for xs
    by (induction xs arbitrary: s) (auto simp: running_upd, auto simp: running_def)
  then show ?thesis by (simp add: reparent_def)
qed

lemma running_exit: "running (exit_zombie y i st s) = running s - {i}"
  by (simp add: exit_zombie_def Let_def running_upd)

lemma running_freeproc: "freeproc i s = Ok s' \<Longrightarrow> running s' = running s - {i}"
  by (auto simp: freeproc_def Let_def running_upd) (auto simp: running_def)

lemma running_pk [simp]: "running (s\<lparr>pk := k\<rparr>) = running s" "running (s\<lparr>nextpid := n\<rparr>) = running s"
  by (simp_all add: running_def)

lemma find_unused_state: "find_unused s = Some i \<Longrightarrow> p_state (p_tab s i) = UNUSED \<and> i < NPROC"
  by (auto simp: find_unused_def find_Some_iff)

lemma freeproc_effect:
  assumes "freeproc i s = Ok s'"
  shows "\<forall>j. j \<noteq> i \<longrightarrow> p_tab s' j = p_tab s j" "p_state (p_tab s' i) = UNUSED" "p_killed (p_tab s' i) = False" "p_pid (p_tab s' i) = 0"
  using assms by (auto simp: freeproc_def Let_def)

text \<open>What allocproc does to the table: only the free slot it finds changes.\<close>

lemma allocproc_effect:
  assumes a: "allocproc y s = Ok (r, s')" and i: "find_unused s = Some i"
  shows "(\<forall>j. j \<noteq> i \<longrightarrow> p_tab s' j = p_tab s j) \<and>
    (r = None \<and> p_state (p_tab s' i) = UNUSED \<or>
     r = Some i \<and> p_state (p_tab s' i) = USED \<and> p_killed (p_tab s' i) = p_killed (p_tab s i) \<and> p_pid (p_tab s' i) = nextpid s)"
proof -
  define s1 where "s1 = upd_proc i (\<lambda>p. p\<lparr>p_pid := nextpid s, p_state := USED\<rparr>) (s\<lparr>nextpid := nextpid s + 1\<rparr>)"
  obtain tf k where k: "kalloc (pk s) = (tf, k)" by fastforce
  define s2 where "s2 = upd_proc i (\<lambda>p. p\<lparr>p_trapframe := tf\<rparr>) (s1\<lparr>pk := k\<rparr>)"
  have "allocproc y s = (if tf = 0 then kbind (freeproc i s2) (\<lambda>s. Ok (None, s))
      else kbind (proc_pagetable y tf (pk s2)) (\<lambda>(pt, k).
        let s = upd_proc i (\<lambda>p. p\<lparr>p_pagetable := pt\<rparr>) (s2\<lparr>pk := k\<rparr>)
        in if pt = 0 then kbind (freeproc i s) (\<lambda>s. Ok (None, s))
           else Ok (Some i, upd_proc i (\<lambda>p. p\<lparr>p_context :=
                  \<lparr>ctx_ra = forkret_addr y, ctx_sp = p_kstack p + PGSIZE, ctx_s = (\<lambda>_. 0)\<rparr>\<rparr>) s)))"
    unfolding allocproc_def i allocpid_def by (simp add: Let_def k s1_def s2_def)
  note a = a [unfolded this]
  have tab: "p_tab s2 j = p_tab s j" if "j \<noteq> i" for j using that by (simp add: s2_def s1_def)
  have ti: "p_state (p_tab s2 i) = USED" "p_killed (p_tab s2 i) = p_killed (p_tab s i)" "p_pid (p_tab s2 i) = nextpid s"
    by (simp_all add: s2_def s1_def)
  show ?thesis
  proof (cases "tf = 0")
    case True
    then have "freeproc i s2 = Ok s'" "r = None" using a by auto
    then show ?thesis using freeproc_effect [of i s2 s'] tab by simp
  next
    case False
    then obtain pt k' where pt: "proc_pagetable y tf (pk s2) = Ok (pt, k')" using a by (auto split: if_splits)
    define s3 where "s3 = upd_proc i (\<lambda>p. p\<lparr>p_pagetable := pt\<rparr>) (s2\<lparr>pk := k'\<rparr>)"
    show ?thesis
    proof (cases "pt = 0")
      case z: True
      then have "freeproc i s3 = Ok s'" "r = None" using a False pt by (auto simp: s3_def)
      then show ?thesis using freeproc_effect [of i s3 s'] tab by (simp add: s3_def)
    next
      case nz: False
      then have "r = Some i" "s' = upd_proc i (\<lambda>p. p\<lparr>p_context := \<lparr>ctx_ra = forkret_addr y, ctx_sp = p_kstack p + PGSIZE, ctx_s = (\<lambda>_. 0)\<rparr>\<rparr>) s3"
        using a False pt by (auto simp: s3_def Let_def)
      then show ?thesis using tab ti by (simp add: s3_def)
    qed
  qed
qed

lemma running_allocproc:
  assumes "allocproc y s = Ok (r, s')"
  shows "running s' = running s"
proof (cases "find_unused s")
  case None
  then show ?thesis using assms by (simp add: allocproc_def)
next
  case (Some i)
  have i: "p_state (p_tab s i) \<noteq> RUNNING" "p_state (p_tab s' i) \<noteq> RUNNING"
    using find_unused_state [OF Some] allocproc_effect [OF assms Some] by auto
  have "p_state (p_tab s' j) = RUNNING \<longleftrightarrow> p_state (p_tab s j) = RUNNING" for j
    using allocproc_effect [OF assms Some] i by (cases "j = i") auto
  then show ?thesis by (simp add: running_def)
qed

lemma running_wait: "wait y xa i addr s = Ok (r, s') \<Longrightarrow>
    running s' = (if r = Sleeps then running s - {i} else running s)"
proof -
  assume w: "wait y xa i addr s = Ok (r, s')"
  obtain h z where ws: "wait_scan i s = (h, z)" by fastforce
  show ?thesis
  proof (cases z)
    case None
    have "running (sleep_begin i ch s) = running s - {i}" for ch by (simp add: sleep_begin_def running_upd)
    then show ?thesis using w unfolding wait_def ws None by (auto split: if_splits)
  next
    case (Some j)
    then have "p_state (p_tab s j) = ZOMBIE" using ws by (auto simp: wait_scan_def Let_def find_Some_iff)
    then have j: "j \<notin> running s" by (simp add: running_def)
    obtain r0 :: int and k where "(if r0 < 0 then Ok (Failed, s\<lparr>pk := k\<rparr>)
        else kbind (freeproc j (s\<lparr>pk := k\<rparr>)) (\<lambda>t. Ok (Reaped (p_pid (p_tab s j)), t))) = Ok (r, s')"
      using w unfolding wait_def ws Some Let_def prod.case option.case by (rule kbind_pairE)
    then have "r \<noteq> Sleeps \<and> (s' = s\<lparr>pk := k\<rparr> \<or> freeproc j (s\<lparr>pk := k\<rparr>) = Ok s')" by (auto split: if_splits)
    then have "r \<noteq> Sleeps" "running s' = running s \<or> running s' = running s - {j}" using running_freeproc by auto
    then show ?thesis using j by auto
  qed
qed

text \<open>
  The machine: a process table and, for each CPU, the process it runs. A step is an iteration of a
  CPU's scheduler, or an operation of the process a CPU runs; the two steps of fork after the
  allocation are \<open>adopts\<close> and \<open>readies\<close>. Only wait sleeps on the address of the process itself.
\<close>

record msys =
  tab :: ptst
  cpu_proc :: "nat \<Rightarrow> nat option"

inductive mstep :: "ksym \<Rightarrow> msys \<Rightarrow> msys \<Rightarrow> bool" for y where
  pick: "cpu_proc m c = None \<Longrightarrow> scheduler_pick i (tab m) = Some s \<Longrightarrow>
    mstep y m (m\<lparr>tab := s, cpu_proc := (cpu_proc m)(c := Some i)\<rparr>)"
| yields: "cpu_proc m c = Some i \<Longrightarrow> mstep y m (m\<lparr>tab := yield i (tab m), cpu_proc := (cpu_proc m)(c := None)\<rparr>)"
| sleeps: "cpu_proc m c = Some i \<Longrightarrow> ch \<noteq> proc_addr y i \<Longrightarrow> mstep y m (m\<lparr>tab := sleep_begin i ch (tab m), cpu_proc := (cpu_proc m)(c := None)\<rparr>)"
| resumes: "cpu_proc m c = Some i \<Longrightarrow> mstep y m (m\<lparr>tab := sleep_end i (tab m)\<rparr>)"
| wakes: "mstep y m (m\<lparr>tab := wakeup (cpu_proc m c) ch (tab m)\<rparr>)"
| kills: "mstep y m (m\<lparr>tab := snd (kill pid (tab m))\<rparr>)"
| sets: "mstep y m (m\<lparr>tab := setkilled i (tab m)\<rparr>)"
| exits: "cpu_proc m c = Some i \<Longrightarrow> initproc (tab m) \<noteq> Some i \<Longrightarrow> mstep y m (m\<lparr>tab := exit_zombie y i st (tab m), cpu_proc := (cpu_proc m)(c := None)\<rparr>)"
| allocates: "cpu_proc m c = Some i \<Longrightarrow> allocproc y (tab m) = Ok (r, s) \<Longrightarrow> mstep y m (m\<lparr>tab := s\<rparr>)"
| readies: "cpu_proc m c = Some i \<Longrightarrow> p_state (p_tab (tab m) j) = USED \<Longrightarrow>
    mstep y m (m\<lparr>tab := upd_proc j (\<lambda>p. p\<lparr>p_state := RUNNABLE\<rparr>) (tab m)\<rparr>)"
| adopts: "cpu_proc m c = Some i \<Longrightarrow> p_state (p_tab (tab m) j) = USED \<Longrightarrow>
    mstep y m (m\<lparr>tab := upd_proc j (\<lambda>p. p\<lparr>p_parent := Some i\<rparr>) (tab m)\<rparr>)"
| reaps: "cpu_proc m c = Some i \<Longrightarrow> wait y xa i addr (tab m) = Ok (r, s) \<Longrightarrow>
    mstep y m (m\<lparr>tab := s, cpu_proc := (if r = Sleeps then (cpu_proc m)(c := None) else cpu_proc m)\<rparr>)"

inductive mreach :: "ksym \<Rightarrow> msys \<Rightarrow> msys \<Rightarrow> bool" for y m0 where
  start: "mreach y m0 m0"
| step: "mreach y m0 m \<Longrightarrow> mstep y m m' \<Longrightarrow> mreach y m0 m'"

definition sched_ok :: "nat set \<Rightarrow> (nat \<Rightarrow> nat option) \<Rightarrow> bool" where
  "sched_ok R f \<longleftrightarrow> (\<forall>i. i \<in> R \<longleftrightarrow> (\<exists>c. f c = Some i)) \<and> (\<forall>c d i. f c = Some i \<and> f d = Some i \<longrightarrow> c = d)"

lemma sched_ok_leave:
  assumes "sched_ok R f" "f c = Some i"
  shows "sched_ok (R - {i}) (f(c := None))"
proof -
  have R: "\<And>j. j \<in> R \<longleftrightarrow> (\<exists>d. f d = Some j)" and uniq: "\<And>d e j. f d = Some j \<Longrightarrow> f e = Some j \<Longrightarrow> d = e"
    using assms(1) by (auto simp: sched_ok_def)
  have "j \<in> R - {i} \<longleftrightarrow> (\<exists>d. (f(c := None)) d = Some j)" for j
  proof
    assume "j \<in> R - {i}"
    then obtain d where "f d = Some j" "j \<noteq> i" using R by blast
    then have "(f(c := None)) d = Some j" using assms(2) by auto
    then show "\<exists>d. (f(c := None)) d = Some j" ..
  next
    assume "\<exists>d. (f(c := None)) d = Some j"
    then obtain d where "d \<noteq> c" "f d = Some j" by (auto split: if_splits)
    then show "j \<in> R - {i}" using R uniq assms(2) by blast
  qed
  then show ?thesis using assms(1) by (auto simp: sched_ok_def split: if_splits)
qed

lemma sched_ok_enter:
  assumes "sched_ok R f" "f c = None" "i \<notin> R"
  shows "sched_ok (insert i R) (f(c := Some i))"
proof -
  have no: "f d \<noteq> Some i" for d using assms(1,3) by (auto simp: sched_ok_def)
  have "j \<in> insert i R \<longleftrightarrow> (\<exists>d. (f(c := Some i)) d = Some j)" for j
    using assms by (auto simp: sched_ok_def split: if_splits) (metis option.distinct(1))
  then show ?thesis using assms(1) no by (auto simp: sched_ok_def split: if_splits)
qed

lemma mstep_sched_ok:
  assumes "sched_ok (running (tab m)) (cpu_proc m)" "mstep y m m'"
  shows "sched_ok (running (tab m')) (cpu_proc m')"
  using assms(2)
proof cases
  case (pick c i s)
  then have "i \<notin> running (tab m)" "running s = insert i (running (tab m))"
    by (auto simp: scheduler_pick_def running_upd running_def split: if_splits)
  then show ?thesis using pick sched_ok_enter [OF assms(1)] by simp
next
  case (yields c i)
  then show ?thesis using sched_ok_leave [OF assms(1)] by (simp add: yield_def running_upd)
next
  case (sleeps c i ch)
  then show ?thesis using sched_ok_leave [OF assms(1)] by (simp add: sleep_begin_def running_upd)
next
  case (resumes c i)
  then have "running (sleep_end i (tab m)) = running (tab m)" by (auto simp: sleep_end_def running_def)
  then show ?thesis using resumes assms(1) by simp
next
  case (sets i)
  then have "running (setkilled i (tab m)) = running (tab m)" by (auto simp: setkilled_def running_def)
  then show ?thesis using sets assms(1) by simp
next
  case (exits c i st)
  then show ?thesis using sched_ok_leave [OF assms(1)] by (simp add: running_exit)
next
  case (readies c i j)
  then have "running (upd_proc j (\<lambda>p. p\<lparr>p_state := RUNNABLE\<rparr>) (tab m)) = running (tab m)"
    by (auto simp: running_def)
  then show ?thesis using readies assms(1) by simp
next
  case (adopts c i j)
  then have "running (upd_proc j (\<lambda>p. p\<lparr>p_parent := Some i\<rparr>) (tab m)) = running (tab m)"
    by (auto simp: running_def)
  then show ?thesis using adopts assms(1) by simp
next
  case (reaps c i xa addr r s)
  then show ?thesis using running_wait [OF reaps(3)] sched_ok_leave [OF assms(1) reaps(2)] assms(1) by simp
next
  case (allocates c i r s)
  then show ?thesis using running_allocproc [OF allocates(3)] assms(1) by simp
next
  case (wakes c ch)
  then show ?thesis using assms(1) by simp
next
  case (kills pid)
  then show ?thesis using assms(1) by simp
qed

lemma mreach_sched_ok:
  "mreach y m0 m \<Longrightarrow> sched_ok (running (tab m0)) (cpu_proc m0) \<Longrightarrow> sched_ok (running (tab m)) (cpu_proc m)"
  by (induction rule: mreach.induct) (auto intro: mstep_sched_ok)

section \<open>wait and exit\<close>

text \<open>The address of the process that \<open>reparent\<close> wakes.\<close>

abbreviation init_chan :: "ksym \<Rightarrow> ptst \<Rightarrow> u64" where
  "init_chan y s \<equiv> (case initproc s of Some n \<Rightarrow> proc_addr y n | None \<Rightarrow> 0)"

lemma wakeup_proc_simps [simp]:
  "p_parent (wakeup_proc ch p) = p_parent p" "p_chan (wakeup_proc ch p) = p_chan p" "p_pid (wakeup_proc ch p) = p_pid p"
  "wakeup_proc ch (wakeup_proc ch p) = wakeup_proc ch p"
  by (simp_all add: wakeup_proc_def)

lemma wakeup_proc_parent: "wakeup_proc ch (p\<lparr>p_parent := x\<rparr>) = (wakeup_proc ch p)\<lparr>p_parent := x\<rparr>"
  by (simp add: wakeup_proc_def)

lemma reparent_tab:
  "p_tab (reparent y i s) j =
     (let p = (if j < NPROC \<and> p_parent (p_tab s j) = Some i then (p_tab s j)\<lparr>p_parent := initproc s\<rparr> else p_tab s j)
      in if (\<exists>k < NPROC. p_parent (p_tab s k) = Some i) \<and> j < NPROC \<and> j \<noteq> i then wakeup_proc (init_chan y s) p else p) \<and>
   initproc (reparent y i s) = initproc s"
proof -
  define f where "f = (\<lambda>j s. if p_parent (p_tab s j) = Some i
      then wakeup (Some i) (init_chan y s) (upd_proc j (\<lambda>p. p\<lparr>p_parent := initproc s\<rparr>) s) else s)"
  have fe: "f j t = (if p_parent (p_tab t j) = Some i
      then wakeup (Some i) (init_chan y t) (upd_proc j (\<lambda>p. p\<lparr>p_parent := initproc t\<rparr>) t) else t)" for j t
    by (simp add: f_def)
  define R where "R n j = (if j < n \<and> p_parent (p_tab s j) = Some i then (p_tab s j)\<lparr>p_parent := initproc s\<rparr> else p_tab s j)" for n j
  define G where "G n \<longleftrightarrow> (\<exists>k < n. p_parent (p_tab s k) = Some i)" for n
  let ?ch = "init_chan y s"
  have "(\<forall>j. p_tab (fold f [0..<n] s) j = (if G n \<and> j < NPROC \<and> j \<noteq> i then wakeup_proc ?ch (R n j) else R n j)) \<and>
      initproc (fold f [0..<n] s) = initproc s" for n
  proof (induction n)
    case 0
    show ?case by (simp add: G_def R_def)
  next
    case (Suc n)
    define t where "t = fold f [0..<n] s"
    have ini: "initproc t = initproc s"
      and tab: "\<And>j. p_tab t j = (if G n \<and> j < NPROC \<and> j \<noteq> i then wakeup_proc ?ch (R n j) else R n j)"
      using Suc by (simp_all add: t_def)
    have par: "p_parent (p_tab t n) = p_parent (p_tab s n)" by (simp add: tab R_def)
    have step: "fold f [0..<Suc n] s = f n t" by (simp add: t_def)
    show ?case
    proof (cases "p_parent (p_tab s n) = Some i")
      case False
      then have "f n t = t" "R (Suc n) = R n" "G (Suc n) = G n"
        by (auto simp: fe par R_def G_def less_Suc_eq)
      then show ?thesis unfolding step using ini tab by simp
    next
      case True
      then have fn: "f n t = wakeup (Some i) ?ch (upd_proc n (\<lambda>p. p\<lparr>p_parent := initproc s\<rparr>) t)"
        by (simp add: fe par ini)
      have R: "R (Suc n) j = (if j = n then (R n n)\<lparr>p_parent := initproc s\<rparr> else R n j)" for j
        using True by (auto simp: R_def)
      have G: "G (Suc n)" unfolding G_def using True by blast
      have "p_tab (f n t) j = (if G (Suc n) \<and> j < NPROC \<and> j \<noteq> i then wakeup_proc ?ch (R (Suc n) j) else R (Suc n) j)" for j
        unfolding fn wakeup_tab upd_proc_tab R tab using G by (cases "j = n") (auto simp: wakeup_proc_parent)
      moreover have "initproc (f n t) = initproc s" unfolding fn by (simp add: ini)
      ultimately show ?thesis unfolding step by blast
    qed
  qed
  moreover have "reparent y i s = fold f [0..<NPROC] s" by (simp add: reparent_def f_def)
  ultimately show ?thesis unfolding Let_def R_def G_def by metis
qed

text \<open>A process that sleeps in wait, and the absence of a child it could reap.\<close>

definition in_wait :: "ksym \<Rightarrow> ptst \<Rightarrow> nat \<Rightarrow> bool" where
  "in_wait y s i \<longleftrightarrow> i < NPROC \<and> p_state (p_tab s i) = SLEEPING \<and> p_chan (p_tab s i) = proc_addr y i"

definition no_missed :: "ksym \<Rightarrow> ptst \<Rightarrow> bool" where
  "no_missed y s \<longleftrightarrow> (\<forall>i j. in_wait y s i \<and> j < NPROC \<and> p_parent (p_tab s j) = Some i \<longrightarrow> p_state (p_tab s j) \<noteq> ZOMBIE)"

lemma exit_no_missed:
  assumes inv: "no_missed y s" and i: "initproc s \<noteq> Some i"
  shows "no_missed y (exit_zombie y i st s)"
proof -
  define s1 where "s1 = reparent y i s"
  define pc where "pc = (case p_parent (p_tab s1 i) of Some n \<Rightarrow> proc_addr y n | None \<Rightarrow> 0)"
  let ?s2 = "wakeup (Some i) pc s1"
  have s': "exit_zombie y i st s = upd_proc i (\<lambda>p. p\<lparr>p_xstate := st, p_state := ZOMBIE\<rparr>) ?s2"
    by (simp add: exit_zombie_def s1_def pc_def Let_def)
  show ?thesis
    unfolding no_missed_def
  proof (intro allI impI notI)
    fix w j
    assume a: "in_wait y (exit_zombie y i st s) w \<and> j < NPROC \<and> p_parent (p_tab (exit_zombie y i st s) j) = Some w"
      and z: "p_state (p_tab (exit_zombie y i st s) j) = ZOMBIE"
    have w: "w \<noteq> i" "w < NPROC" "p_state (p_tab ?s2 w) = SLEEPING" "p_chan (p_tab ?s2 w) = proc_addr y w"
      using a by (auto simp: in_wait_def s' split: if_splits)
    have w1: "p_state (p_tab s1 w) = SLEEPING" "p_chan (p_tab s1 w) = proc_addr y w" "pc \<noteq> proc_addr y w"
      using w by (auto simp: wakeup_tab wakeup_proc_def split: if_splits)
    have w0: "in_wait y s w"
      using w1 w(1,2) by (auto simp: s1_def reparent_tab Let_def in_wait_def wakeup_proc_def split: if_splits)
    show False
    proof (cases "j = i")
      case True
      then have "p_parent (p_tab s1 i) = Some w" using a w(2) by (simp add: s' wakeup_tab)
      then show False using w1(3) by (simp add: pc_def)
    next
      case False
      have par: "p_parent (p_tab s1 j) = Some w" using a False by (simp add: s' wakeup_tab split: if_splits)
      have zj: "p_state (p_tab s j) = ZOMBIE"
        using z False by (auto simp: s' wakeup_tab s1_def reparent_tab Let_def wakeup_proc_def split: if_splits)
      show False
      proof (cases "p_parent (p_tab s j) = Some w")
        case True
        then show False using inv w0 a zj by (auto simp: no_missed_def)
      next
        case orphan: False
        then have "p_parent (p_tab s j) = Some i" "initproc s = Some w"
          using par a by (auto simp: s1_def reparent_tab Let_def split: if_splits)
        then have "p_state (p_tab s1 w) \<noteq> SLEEPING"
          using w0 w(1,2) a by (auto simp: s1_def reparent_tab Let_def in_wait_def wakeup_proc_def)
        then show False using w1(1) by simp
      qed
    qed
  qed
qed

lemma no_missed_weaken:
  assumes "no_missed y s" "\<And>w. in_wait y s' w \<Longrightarrow> in_wait y s w"
    "\<And>j. p_state (p_tab s' j) = ZOMBIE \<Longrightarrow> p_state (p_tab s j) = ZOMBIE \<and> p_parent (p_tab s' j) = p_parent (p_tab s j)"
  shows "no_missed y s'"
  using assms unfolding no_missed_def by metis

text \<open>A change of one entry that neither puts it to sleep in wait nor makes it a zombie.\<close>

lemma no_missed_entry:
  assumes "no_missed y s" "\<forall>j. j \<noteq> i \<longrightarrow> p_tab s' j = p_tab s j"
    "p_state (p_tab s' i) \<noteq> ZOMBIE" "p_state (p_tab s' i) = SLEEPING \<Longrightarrow> p_chan (p_tab s' i) \<noteq> proc_addr y i"
  shows "no_missed y s'"
  by (rule no_missed_weaken [OF assms(1)]) (use assms(2-) in \<open>force simp: in_wait_def\<close>)+

lemma no_missed_wakeup: "no_missed y s \<Longrightarrow> no_missed y (wakeup me ch s)"
  by (erule no_missed_weaken) (auto simp: in_wait_def wakeup_tab wakeup_proc_def split: if_splits)

lemma no_missed_kill: "no_missed y s \<Longrightarrow> no_missed y (snd (kill pid s))"
  by (erule no_missed_weaken) (auto simp: in_wait_def kill_def Let_def split: if_splits option.splits)

lemma no_missed_setkilled: "no_missed y s \<Longrightarrow> no_missed y (setkilled i s)"
  by (erule no_missed_weaken) (auto simp: in_wait_def setkilled_def split: if_splits)

lemma no_missed_pk: "no_missed y (s\<lparr>pk := k\<rparr>) = no_missed y s"
  by (simp add: no_missed_def in_wait_def)

lemma no_missed_allocproc:
  assumes "no_missed y s" "allocproc y s = Ok (r, s')"
  shows "no_missed y s'"
proof (cases "find_unused s")
  case None
  then show ?thesis using assms by (simp add: allocproc_def)
next
  case (Some i)
  show ?thesis
    using allocproc_effect [OF assms(2) Some] by (intro no_missed_entry [OF assms(1), of i]) auto
qed

lemma no_missed_wait:
  assumes inv: "no_missed y s" and w: "wait y xa i addr s = Ok (r, s')"
  shows "no_missed y s'"
proof -
  obtain h z where ws: "wait_scan i s = (h, z)" by fastforce
  show ?thesis
  proof (cases z)
    case None
    then have nz: "p_state (p_tab s j) \<noteq> ZOMBIE" if "j < NPROC" "p_parent (p_tab s j) = Some i" for j
      using ws that by (auto simp: wait_scan_def Let_def find_None_iff)
    have "no_missed y (sleep_begin i (proc_addr y i) s)"
      using inv nz unfolding no_missed_def by (auto simp: sleep_begin_def in_wait_def split: if_splits)
    then show ?thesis using w inv unfolding wait_def ws None by (auto split: if_splits)
  next
    case (Some j)
    obtain r0 :: int and k where "(if r0 < 0 then Ok (Failed, s\<lparr>pk := k\<rparr>)
        else kbind (freeproc j (s\<lparr>pk := k\<rparr>)) (\<lambda>t. Ok (Reaped (p_pid (p_tab s j)), t))) = Ok (r, s')"
      using w unfolding wait_def ws Some Let_def prod.case option.case by (rule kbind_pairE)
    then consider "s' = s\<lparr>pk := k\<rparr>" | "freeproc j (s\<lparr>pk := k\<rparr>) = Ok s'" by (auto split: if_splits)
    then show ?thesis
    proof cases
      case 2
      note e = freeproc_effect [OF 2]
      have "no_missed y (s\<lparr>pk := k\<rparr>)" by (simp add: no_missed_pk inv)
      from no_missed_entry [OF this e(1)] e(2) show ?thesis by simp
    qed (simp add: inv no_missed_pk)
  qed
qed

lemma mstep_no_missed:
  assumes inv: "no_missed y (tab m)" and sok: "sched_ok (running (tab m)) (cpu_proc m)" and st: "mstep y m m'"
  shows "no_missed y (tab m')"
  using st
proof cases
  case (pick c i s)
  then show ?thesis
    by (auto simp: scheduler_pick_def split: if_splits intro!: no_missed_entry [OF inv, of i])
next
  case (yields c i)
  then show ?thesis by (auto simp: yield_def intro!: no_missed_entry [OF inv, of i])
next
  case (sleeps c i ch)
  then show ?thesis by (auto simp: sleep_begin_def intro!: no_missed_entry [OF inv, of i])
next
  case (resumes c i)
  then have "p_state (p_tab (tab m) i) = RUNNING" using sok by (auto simp: sched_ok_def running_def)
  then show ?thesis using resumes by (auto simp: sleep_end_def intro!: no_missed_entry [OF inv, of i])
next
  case (exits c i st)
  then show ?thesis using exit_no_missed [OF inv] by simp
next
  case (readies c i j)
  then show ?thesis by (auto intro!: no_missed_entry [OF inv, of j])
next
  case (adopts c i j)
  then show ?thesis by (auto intro!: no_missed_entry [OF inv, of j])
next
  case (reaps c i xa addr r s)
  then show ?thesis using no_missed_wait [OF inv reaps(3)] by simp
next
  case (allocates c i r s)
  then show ?thesis using no_missed_allocproc [OF inv] by simp
qed (use inv no_missed_wakeup no_missed_kill no_missed_setkilled in auto)

lemma mreach_inv:
  assumes "mreach y m0 m" "sched_ok (running (tab m0)) (cpu_proc m0)" "no_missed y (tab m0)"
  shows "sched_ok (running (tab m)) (cpu_proc m) \<and> no_missed y (tab m)"
  using assms by (induction rule: mreach.induct) (auto intro: mstep_sched_ok mstep_no_missed)

text \<open>
  C9: in every interleaving of the schedulers and processes of any number of CPUs, no process runs on
  two CPUs, the running processes are those the CPUs run, and no wakeup of wait is lost: a process
  asleep in wait has no child that has exited.\<close>

theorem scheduling_safe:
  assumes "mreach y m0 m" "\<forall>c. cpu_proc m0 c = None" "\<forall>i. p_state (p_tab (tab m0) i) \<notin> {RUNNING, SLEEPING}"
  shows "(\<forall>c d i. cpu_proc m c = Some i \<and> cpu_proc m d = Some i \<longrightarrow> c = d) \<and>
    (\<forall>i. p_state (p_tab (tab m) i) = RUNNING \<longleftrightarrow> (\<exists>c. cpu_proc m c = Some i)) \<and>
    (\<forall>i j. in_wait y (tab m) i \<and> j < NPROC \<and> p_parent (p_tab (tab m) j) = Some i \<longrightarrow> p_state (p_tab (tab m) j) \<noteq> ZOMBIE)"
proof -
  have "sched_ok (running (tab m0)) (cpu_proc m0)" "no_missed y (tab m0)"
    using assms(2,3) by (auto simp: sched_ok_def running_def no_missed_def in_wait_def)
  from mreach_inv [OF assms(1) this] show ?thesis
    by (auto simp: sched_ok_def running_def no_missed_def)
qed

definition blank_proc :: proc where
  "blank_proc = \<lparr>p_state = UNUSED, p_chan = 0, p_killed = False, p_xstate = 0, p_pid = 0, p_parent = None, p_kstack = 0, p_sz = 0,
     p_pagetable = 0, p_trapframe = 0, p_context = \<lparr>ctx_ra = 0, ctx_sp = 0, ctx_s = (\<lambda>_. 0)\<rparr>, p_ofile = (\<lambda>_. None), p_cwd = None,
     p_name = replicate 16 0\<rparr>"

definition two_procs :: ptst where
  "two_procs = \<lparr>p_tab = (\<lambda>_. blank_proc)(1 := blank_proc\<lparr>p_state := RUNNABLE, p_pid := 1\<rparr>,
       2 := blank_proc\<lparr>p_state := RUNNABLE, p_pid := 2, p_parent := Some 1\<rparr>),
     initproc = Some 1, nextpid = 3, pk = \<lparr>kernel_end = 0x80021000, pmem = (\<lambda>_. 0), freelist = 0\<rparr>\<rparr>"

definition idle_machine :: msys where
  "idle_machine = \<lparr>tab = two_procs, cpu_proc = (\<lambda>_. None)\<rparr>"

definition plain_syms :: ksym where
  "plain_syms = \<lparr>trampoline = 0x80007000, forkret_addr = 0x80001000, proc_addr = (\<lambda>i. 0x80010000 + 360 * of_nat i)\<rparr>"

lemma mstep_pick:
  "cpu_proc m c = None \<Longrightarrow> p_state (p_tab (tab m) i) = RUNNABLE \<Longrightarrow>
     mstep y m (m\<lparr>tab := upd_proc i (\<lambda>p. p\<lparr>p_state := RUNNING\<rparr>) (tab m), cpu_proc := (cpu_proc m)(c := Some i)\<rparr>)"
  by (rule mstep.pick) (simp_all add: scheduler_pick_def)

theorem scheduling_safe_witness:
  "\<exists>m. mreach plain_syms idle_machine m \<and> cpu_proc m 0 = Some 1 \<and> cpu_proc m 1 = Some 2 \<and> p_state (p_tab (tab m) 2) = RUNNING"
proof -
  define m1 where "m1 = idle_machine\<lparr>tab := upd_proc 1 (\<lambda>p. p\<lparr>p_state := RUNNING\<rparr>) two_procs, cpu_proc := (\<lambda>_. None)(0 := Some 1)\<rparr>"
  define m2 where "m2 = m1\<lparr>tab := upd_proc 2 (\<lambda>p. p\<lparr>p_state := RUNNING\<rparr>) (tab m1), cpu_proc := (cpu_proc m1)(1 := Some 2)\<rparr>"
  have "mstep plain_syms idle_machine m1"
    using mstep_pick [of idle_machine 0 1] by (simp add: m1_def idle_machine_def two_procs_def)
  moreover have "mstep plain_syms m1 m2"
    using mstep_pick [of m1 1 2] by (simp add: m2_def m1_def idle_machine_def two_procs_def)
  ultimately have r: "mreach plain_syms idle_machine m2" by (meson mreach.intros)
  have "\<forall>c. cpu_proc idle_machine c = None" "\<forall>i. p_state (p_tab (tab idle_machine) i) \<notin> {RUNNING, SLEEPING}"
    by (simp_all add: idle_machine_def two_procs_def blank_proc_def)
  from scheduling_safe [OF r this] have "p_state (p_tab (tab m2) 2) = RUNNING \<longleftrightarrow> (\<exists>c. cpu_proc m2 c = Some 2)" by blast
  moreover have "cpu_proc m2 0 = Some 1" "cpu_proc m2 1 = Some 2" by (simp_all add: m2_def m1_def)
  ultimately show ?thesis using r by blast
qed

text \<open>
  C34: kill with pid 0. The slots of the table that are free have pid 0, so kill(0) finds one, marks it
  killed and reports success, and allocproc does not clear the mark: the next process created is born
  killed.\<close>

theorem kill_zero_marks_free_slot:
  assumes "find_unused s = Some i" "p_pid (p_tab s i) = 0" "\<forall>j < i. p_pid (p_tab s j) \<noteq> 0"
  shows "fst (kill 0 s) = 0 \<and> find_unused (snd (kill 0 s)) = Some i \<and> p_killed (p_tab (snd (kill 0 s)) i) \<and>
    (\<forall>y np s'. allocproc y (snd (kill 0 s)) = Ok (Some np, s') \<longrightarrow> np = i \<and> p_killed (p_tab s' i))"
proof -
  have i: "i < NPROC" "p_state (p_tab s i) = UNUSED" using find_unused_state [OF assms(1)] by auto
  have f: "List.find (\<lambda>j. p_pid (p_tab s j) = 0) [0..<NPROC] = Some i"
    using i(1) assms(2,3) by (auto simp: find_Some_iff)
  define t where "t = upd_proc i (\<lambda>p. p\<lparr>p_killed := True\<rparr>) s"
  have k: "kill 0 s = (0, t)" using i by (simp add: kill_def f t_def upd_proc_def)
  have st: "p_state (p_tab t j) = p_state (p_tab s j)" for j by (simp add: t_def)
  have u: "find_unused t = Some i" using assms(1) by (simp add: find_unused_def st)
  have kt: "p_killed (p_tab t i)" by (simp add: t_def)
  have "np = i \<and> p_killed (p_tab s' i)" if "allocproc y t = Ok (Some np, s')" for y np s'
    using allocproc_effect [OF that u] kt by simp
  then show ?thesis unfolding k fst_conv snd_conv using u kt by blast
qed

theorem kill_zero_marks_free_slot_witness:
  "fst (kill 0 two_procs) = 0 \<and> p_killed (p_tab (snd (kill 0 two_procs)) 0) \<and> find_unused (snd (kill 0 two_procs)) = Some 0"
proof -
  have "find_unused two_procs = Some 0"
    by (simp add: find_unused_def two_procs_def blank_proc_def NPROC_def upt_rec)
  moreover have "p_pid (p_tab two_procs 0) = 0" by (simp add: two_procs_def blank_proc_def)
  ultimately show ?thesis using kill_zero_marks_free_slot [of two_procs 0] by simp
qed

end
