(* ===== verification/File.thy ===== *)
theory File
  imports Fs Pipe Proc
begin

text \<open>
  The file table (kernel/file.c), the creation of pipes (kernel/pipe.c) and the state of the whole
  kernel that system calls act on. Open files are addressed by their index in \<open>ftable\<close>, pipes by the
  page they were allocated in. The kernel memory is that of the file system; the process table borrows
  it. Device drivers enter through \<open>devsw\<close>, a table of functions. A read or write that has to sleep
  gives \<open>Blocked\<close>.
\<close>

unbundle bit_operations_syntax

section \<open>State\<close>

definition NFILE :: nat where "NFILE = 100"
definition NDEV :: nat where "NDEV = 10"
definition NOFILE :: nat where "NOFILE = 16"

datatype ftype = FD_NONE | FD_PIPE | FD_INODE | FD_DEVICE

record xfile =
  ftype :: ftype
  fref :: int
  freadable :: bool
  fwritable :: bool
  fpipe :: u64
  fip :: nat
  foff :: u32
  fmajor :: u16

record kern =
  kfs :: fsst
  ftab :: "nat \<Rightarrow> xfile"
  kpipes :: "u64 \<Rightarrow> pipe"
  kpt :: ptst
  me :: nat
  ticks :: u32

type_synonym devfun = "bool \<Rightarrow> u64 \<Rightarrow> int \<Rightarrow> kern \<Rightarrow> (progress \<times> kern) kres"

record devfns =
  dread :: "devfun option"
  dwrite :: "devfun option"

text \<open>Addresses of the local variables and buffers whose address the code takes, initial contents of
  local arrays, linker symbols and the device table.\<close>

record kenv =
  efs :: fenv
  esym :: ksym
  edev :: "nat \<Rightarrow> devfns"
  ch_addr :: u64
  st_addr :: u64
  fd_addr :: u64
  arg_addr :: u64
  xstate_addr :: u64
  path_buf :: u64
  old_buf :: u64
  new_buf :: u64
  elf_addr :: u64
  ph_addr :: u64
  ustack_addr :: u64
  initcode_addr :: u64
  name_init :: "u8 list"

definition mycur :: "kern \<Rightarrow> proc" where
  "mycur K = p_tab (kpt K) (me K)"

definition kmemory :: "kern \<Rightarrow> kst" where
  "kmemory K = fmem (kfs K)"

definition set_kmemory :: "kst \<Rightarrow> kern \<Rightarrow> kern" where
  "set_kmemory k K = K\<lparr>kfs := (kfs K)\<lparr>fmem := k\<rparr>\<rparr>"

definition fs_env :: "kenv \<Rightarrow> kern \<Rightarrow> fenv" where
  "fs_env E K = (efs E)\<lparr>upt := p_pagetable (mycur K)\<rparr>"

definition do_fs :: "(fsst \<Rightarrow> fsst kres) \<Rightarrow> kern \<Rightarrow> kern kres" where
  "do_fs f K = kbind (f (kfs K)) (\<lambda>s. Ok (K\<lparr>kfs := s\<rparr>))"

definition get_fs :: "(fsst \<Rightarrow> ('a \<times> fsst) kres) \<Rightarrow> kern \<Rightarrow> ('a \<times> kern) kres" where
  "get_fs f K = kbind (f (kfs K)) (\<lambda>(r, s). Ok (r, K\<lparr>kfs := s\<rparr>))"

definition do_log :: "(lst \<Rightarrow> lst kres) \<Rightarrow> kern \<Rightarrow> kern kres" where
  "do_log f = do_fs (\<lambda>s. kbind (f (flog s)) (\<lambda>l. Ok (s\<lparr>flog := l\<rparr>)))"

definition get_pt :: "(ptst \<Rightarrow> ('a \<times> ptst) kres) \<Rightarrow> kern \<Rightarrow> ('a \<times> kern) kres" where
  "get_pt f K =
     kbind (f ((kpt K)\<lparr>pk := kmemory K\<rparr>)) (\<lambda>(r, s). Ok (r, set_kmemory (pk s) (K\<lparr>kpt := s\<rparr>)))"

definition upd_cur :: "(proc \<Rightarrow> proc) \<Rightarrow> kern \<Rightarrow> kern" where
  "upd_cur f K = K\<lparr>kpt := upd_proc (me K) f (kpt K)\<rparr>"

definition upd_file :: "nat \<Rightarrow> (xfile \<Rightarrow> xfile) \<Rightarrow> kern \<Rightarrow> kern" where
  "upd_file f g K = K\<lparr>ftab := (ftab K)(f := g (ftab K f))\<rparr>"

section \<open>Pipes as objects of the kernel\<close>

text \<open>Offsets of \<open>nread\<close> and \<open>nwrite\<close> in \<open>struct pipe\<close>, whose addresses are the sleep channels.\<close>

definition pchan_addr :: "u64 \<Rightarrow> pchan \<Rightarrow> u64" where
  "pchan_addr a c = (case c of Chan_nread \<Rightarrow> a + 536 | Chan_nwrite \<Rightarrow> a + 540)"

definition on_pipe :: "u64 \<Rightarrow> (pst \<Rightarrow> ('a \<times> pst) kres) \<Rightarrow> kern \<Rightarrow> ('a \<times> kern) kres" where
  "on_pipe a f K =
     kbind (f \<lparr>kmem = kmemory K, pi = kpipes K a, woken = []\<rparr>) (\<lambda>(r, s).
       let K = set_kmemory (kmem s) (K\<lparr>kpipes := (kpipes K)(a := pi s)\<rparr>)
       in Ok (r, K\<lparr>kpt := fold (\<lambda>c. wakeup (Some (me K)) (pchan_addr a c)) (woken s) (kpt K)\<rparr>))"

section \<open>Files\<close>

definition filealloc :: "kern \<Rightarrow> nat option \<times> kern" where
  "filealloc K =
     (case List.find (\<lambda>f. fref (ftab K f) = 0) [0..<NFILE] of
        Some f \<Rightarrow> (Some f, upd_file f (\<lambda>x. x\<lparr>fref := 1\<rparr>) K)
      | None \<Rightarrow> (None, K))"

definition filedup :: "nat \<Rightarrow> kern \<Rightarrow> kern kres" where
  "filedup f K =
     (if fref (ftab K f) < 1 then Panic ''filedup'' else Ok (upd_file f (\<lambda>x. x\<lparr>fref := fref x + 1\<rparr>) K))"

definition fileclose :: "nat \<Rightarrow> kern \<Rightarrow> kern kres" where
  "fileclose f K =
     (if fref (ftab K f) < 1 then Panic ''fileclose''
      else
        let K = upd_file f (\<lambda>x. x\<lparr>fref := fref x - 1\<rparr>) K
        in if fref (ftab K f) > 0 then Ok K
           else
             let ff = ftab K f;
                 K = upd_file f (\<lambda>x. x\<lparr>fref := 0, ftype := FD_NONE\<rparr>) K
             in case ftype ff of
                  FD_PIPE \<Rightarrow>
                    kbind (on_pipe (fpipe ff) (\<lambda>s. kbind (pipeclose (fpipe ff) (fwritable ff) s) (\<lambda>s. Ok ((), s))) K)
                      (\<lambda>(_, K). Ok K)
                | FD_NONE \<Rightarrow> Ok K
                | _ \<Rightarrow> kbind (do_log begin_op K) (\<lambda>K. kbind (do_fs (iput (fip ff)) K) (do_log end_op)))"

text \<open>The fields of \<open>struct stat\<close> laid out at \<open>a\<close>; the padding between them keeps what was there.\<close>

definition put_stat :: "u64 \<Rightarrow> fstat \<Rightarrow> kst \<Rightarrow> kst" where
  "put_stat a st k =
     k\<lparr>pmem := put_bytes (a + 16) (le_bytes 8 (st_size st))
                (put_bytes a (le_bytes 4 (st_dev st) @ le_bytes 4 (st_ino st) @ le_bytes 2 (st_type st) @ le_bytes 2 (st_nlink st))
                  (pmem k))\<rparr>"

definition sizeof_stat :: u64 where "sizeof_stat = 24"

definition filestat :: "kenv \<Rightarrow> nat \<Rightarrow> u64 \<Rightarrow> kern \<Rightarrow> (int \<times> kern) kres" where
  "filestat E f addr K =
     (if ftype (ftab K f) = FD_INODE \<or> ftype (ftab K f) = FD_DEVICE then
        let ip = fip (ftab K f)
        in kbind (do_fs (ilock (Some ip)) K) (\<lambda>K.
             let K = set_kmemory (put_stat (st_addr E) (stati ip (kfs K)) (kmemory K)) K
             in kbind (do_fs (iunlock (Some ip)) K) (\<lambda>K.
                kbind (copyout (p_pagetable (mycur K)) addr (st_addr E) sizeof_stat (kmemory K)) (\<lambda>(r, k).
                  let K = set_kmemory k K in if r < 0 then Ok (-1, K) else Ok (0, K))))
      else Ok (-1, K))"

definition major_ok :: "kenv \<Rightarrow> xfile \<Rightarrow> bool" where
  "major_ok E x \<longleftrightarrow> \<not> (sint (fmajor x) < 0 \<or> sint (fmajor x) \<ge> int NDEV)"

definition fileread :: "kenv \<Rightarrow> nat \<Rightarrow> u64 \<Rightarrow> int \<Rightarrow> kern \<Rightarrow> (progress \<times> kern) kres" where
  "fileread E f addr n K =
     (let x = ftab K f
      in if \<not> freadable x then Ok (Done (-1), K)
         else case ftype x of
           FD_PIPE \<Rightarrow>
             on_pipe (fpipe x) (piperead (p_killed (mycur K)) (p_pagetable (mycur K)) (ch_addr E) addr n) K
         | FD_DEVICE \<Rightarrow>
             (if \<not> major_ok E x then Ok (Done (-1), K)
              else case dread (edev E (unat (fmajor x))) of
                None \<Rightarrow> Ok (Done (-1), K)
              | Some g \<Rightarrow> g True addr n K)
         | FD_INODE \<Rightarrow>
             kbind (do_fs (ilock (Some (fip x))) K) (\<lambda>K.
             kbind (get_fs (readi (fs_env E K) (fip x) True addr (foff x) (of_int n)) K) (\<lambda>(r, K).
               let K = (if r > 0 then upd_file f (\<lambda>x. x\<lparr>foff := foff x + of_int r\<rparr>) K else K)
               in kbind (do_fs (iunlock (Some (fip x))) K) (\<lambda>K. Ok (Done r, K))))
         | FD_NONE \<Rightarrow> Panic ''fileread'')"

definition max_write :: int where
  "max_write = ((int MAXOPBLOCKS - 1 - 1 - 2) div 2) * int BSIZE"

function filewrite_loop :: "kenv \<Rightarrow> nat \<Rightarrow> u64 \<Rightarrow> int \<Rightarrow> int \<Rightarrow> kern \<Rightarrow> (int \<times> kern) kres" where
  "filewrite_loop E f addr n i K =
     (if i < n then
        let n1 = (if n - i > max_write then max_write else n - i);
            ip = fip (ftab K f)
        in kbind (do_log begin_op K) (\<lambda>K.
           kbind (do_fs (ilock (Some ip)) K) (\<lambda>K.
           kbind (get_fs (writei (fs_env E K) ip True (addr + of_int i) (foff (ftab K f)) (of_int n1)) K) (\<lambda>(r, K).
             let K = (if r > 0 then upd_file f (\<lambda>x. x\<lparr>foff := foff x + of_int r\<rparr>) K else K)
             in kbind (do_fs (iunlock (Some ip)) K) (\<lambda>K.
                kbind (do_log end_op K) (\<lambda>K.
                  if r \<noteq> n1 then Ok (i, K) else filewrite_loop E f addr n (i + r) K)))))
      else Ok (i, K))"
  by pat_completeness auto
termination
  by (relation "measure (\<lambda>(E, f, addr, n, i, K). nat (n - i))")
    (auto simp: max_write_def MAXOPBLOCKS_def BSIZE_def split: if_splits)

declare filewrite_loop.simps [simp del]

definition filewrite :: "kenv \<Rightarrow> nat \<Rightarrow> u64 \<Rightarrow> int \<Rightarrow> kern \<Rightarrow> (progress \<times> kern) kres" where
  "filewrite E f addr n K =
     (let x = ftab K f
      in if \<not> fwritable x then Ok (Done (-1), K)
         else case ftype x of
           FD_PIPE \<Rightarrow>
             on_pipe (fpipe x) (pipewrite (\<lambda>_. p_killed (mycur K)) (p_pagetable (mycur K)) (ch_addr E) addr n) K
         | FD_DEVICE \<Rightarrow>
             (if \<not> major_ok E x then Ok (Done (-1), K)
              else case dwrite (edev E (unat (fmajor x))) of
                None \<Rightarrow> Ok (Done (-1), K)
              | Some g \<Rightarrow> g True addr n K)
         | FD_INODE \<Rightarrow>
             kbind (filewrite_loop E f addr n 0 K) (\<lambda>(i, K). Ok (Done (if i = n then n else -1), K))
         | FD_NONE \<Rightarrow> Panic ''filewrite'')"

section \<open>Creating a pipe\<close>

definition close_opt :: "nat option \<Rightarrow> kern \<Rightarrow> kern kres" where
  "close_opt f K = (case f of None \<Rightarrow> Ok K | Some f \<Rightarrow> fileclose f K)"

definition pipealloc_bad :: "nat option \<Rightarrow> nat option \<Rightarrow> kern \<Rightarrow> ((nat \<times> nat) option \<times> kern) kres" where
  "pipealloc_bad f0 f1 K = kbind (close_opt f0 K) (\<lambda>K. kbind (close_opt f1 K) (\<lambda>K. Ok (None, K)))"

text \<open>The data of the new pipe is what its page holds.\<close>

definition pipealloc :: "kern \<Rightarrow> ((nat \<times> nat) option \<times> kern) kres" where
  "pipealloc K =
     (case filealloc K of
        (None, K) \<Rightarrow> pipealloc_bad None None K
      | (Some f0, K) \<Rightarrow>
          (case filealloc K of
             (None, K) \<Rightarrow> pipealloc_bad (Some f0) None K
           | (Some f1, K) \<Rightarrow>
               (case kalloc (kmemory K) of (pa, k) \<Rightarrow>
                  let K = set_kmemory k K
                  in if pa = 0 then pipealloc_bad (Some f0) (Some f1) K
                     else
                       let K = K\<lparr>kpipes := (kpipes K)(pa := \<lparr>pdata = bytes (pmem k) (pa + 24) 512, nread = 0, nwrite = 0,
                                 readopen = True, writeopen = True\<rparr>)\<rparr>;
                           K = upd_file f0 (\<lambda>x. x\<lparr>ftype := FD_PIPE, freadable := True, fwritable := False, fpipe := pa\<rparr>) K;
                           K = upd_file f1 (\<lambda>x. x\<lparr>ftype := FD_PIPE, freadable := False, fwritable := True, fpipe := pa\<rparr>) K
                       in Ok (Some (f0, f1), K))))"

end
