(* ===== verification/Sysfile.thy ===== *)
theory Sysfile
  imports File
begin

text \<open>
  System call arguments (kernel/syscall.c) and the file system calls (kernel/sysfile.c). A handler
  gives the value for register a0 as an integer; a path that was copied in is read from its buffer as a
  byte list. The labels \<open>bad\<close> and \<open>fail\<close> of the code are functions of their own.
\<close>

unbundle bit_operations_syntax

section \<open>Arguments (kernel/syscall.c)\<close>

definition MAXPATH :: nat where "MAXPATH = 128"
definition MAXARG :: nat where "MAXARG = 32"

definition fetchaddr :: "u64 \<Rightarrow> u64 \<Rightarrow> kern \<Rightarrow> (int \<times> kern) kres" where
  "fetchaddr addr ip K =
     (let p = mycur K
      in if addr \<ge> p_sz p \<or> addr + 8 > p_sz p then Ok (-1, K)
         else
           kbind (copyin (p_pagetable p) ip addr 8 (kmemory K)) (\<lambda>(r, k).
             let K = set_kmemory k K in if r \<noteq> 0 then Ok (-1, K) else Ok (0, K)))"

definition kstrlen :: "u64 \<Rightarrow> kern \<Rightarrow> int kres" where
  "kstrlen a K = (case strlen (pmem (kmemory K)) a of None \<Rightarrow> NoReturn | Some n \<Rightarrow> Ok n)"

definition fetchstr :: "u64 \<Rightarrow> u64 \<Rightarrow> nat \<Rightarrow> kern \<Rightarrow> (int \<times> kern) kres" where
  "fetchstr addr buf mx K =
     kbind (copyinstr (p_pagetable (mycur K)) buf addr (of_nat mx) (kmemory K)) (\<lambda>(r, k).
       let K = set_kmemory k K
       in if r < 0 then Ok (-1, K) else kbind (kstrlen buf K) (\<lambda>n. Ok (n, K)))"

definition argraw :: "nat \<Rightarrow> kern \<Rightarrow> u64 kres" where
  "argraw n K =
     (if n \<le> 5 then Ok (load64 (pmem (kmemory K)) (p_trapframe (mycur K) + TF_a n)) else Panic ''argraw'')"

definition argint :: "nat \<Rightarrow> kern \<Rightarrow> int kres" where
  "argint n K = kbind (argraw n K) (\<lambda>w. Ok (sint (ucast w :: u32)))"

definition argaddr :: "nat \<Rightarrow> kern \<Rightarrow> u64 kres" where
  "argaddr n K = argraw n K"

definition argstr :: "nat \<Rightarrow> u64 \<Rightarrow> nat \<Rightarrow> kern \<Rightarrow> (int \<times> kern) kres" where
  "argstr n buf mx K = kbind (argaddr n K) (\<lambda>addr. fetchstr addr buf mx K)"

definition path_at :: "u64 \<Rightarrow> kern \<Rightarrow> u8 list" where
  "path_at a K = cstr (bytes (pmem (kmemory K)) a MAXPATH)"

section \<open>Descriptors\<close>

definition argfd :: "nat \<Rightarrow> kern \<Rightarrow> (nat \<times> nat) option kres" where
  "argfd n K =
     kbind (argint n K) (\<lambda>fd.
       if fd < 0 \<or> fd \<ge> int NOFILE then Ok None
       else case p_ofile (mycur K) (nat fd) of
         None \<Rightarrow> Ok None
       | Some f \<Rightarrow> Ok (Some (nat fd, f)))"

definition set_ofile :: "nat \<Rightarrow> nat option \<Rightarrow> kern \<Rightarrow> kern" where
  "set_ofile fd f = upd_cur (\<lambda>p. p\<lparr>p_ofile := (p_ofile p)(fd := f)\<rparr>)"

definition fdalloc :: "nat \<Rightarrow> kern \<Rightarrow> nat option \<times> kern" where
  "fdalloc f K =
     (case List.find (\<lambda>fd. p_ofile (mycur K) fd = None) [0..<NOFILE] of
        Some fd \<Rightarrow> (Some fd, set_ofile fd (Some f) K)
      | None \<Rightarrow> (None, K))"

definition sys_dup :: "kern \<Rightarrow> (int \<times> kern) kres" where
  "sys_dup K =
     kbind (argfd 0 K) (\<lambda>r.
       case r of
         None \<Rightarrow> Ok (-1, K)
       | Some (_, f) \<Rightarrow>
           (case fdalloc f K of
              (None, K) \<Rightarrow> Ok (-1, K)
            | (Some fd, K) \<Rightarrow> kbind (filedup f K) (\<lambda>K. Ok (int fd, K))))"

definition sys_read :: "kenv \<Rightarrow> kern \<Rightarrow> (progress \<times> kern) kres" where
  "sys_read E K =
     kbind (argaddr 1 K) (\<lambda>p.
     kbind (argint 2 K) (\<lambda>n.
     kbind (argfd 0 K) (\<lambda>r.
       case r of None \<Rightarrow> Ok (Done (-1), K) | Some (_, f) \<Rightarrow> fileread E f p n K)))"

definition sys_write :: "kenv \<Rightarrow> kern \<Rightarrow> (progress \<times> kern) kres" where
  "sys_write E K =
     kbind (argaddr 1 K) (\<lambda>p.
     kbind (argint 2 K) (\<lambda>n.
     kbind (argfd 0 K) (\<lambda>r.
       case r of None \<Rightarrow> Ok (Done (-1), K) | Some (_, f) \<Rightarrow> filewrite E f p n K)))"

definition sys_close :: "kern \<Rightarrow> (int \<times> kern) kres" where
  "sys_close K =
     kbind (argfd 0 K) (\<lambda>r.
       case r of
         None \<Rightarrow> Ok (-1, K)
       | Some (fd, f) \<Rightarrow> kbind (fileclose f (set_ofile fd None K)) (\<lambda>K. Ok (0, K)))"

definition sys_fstat :: "kenv \<Rightarrow> kern \<Rightarrow> (int \<times> kern) kres" where
  "sys_fstat E K =
     kbind (argaddr 1 K) (\<lambda>st.
     kbind (argfd 0 K) (\<lambda>r.
       case r of None \<Rightarrow> Ok (-1, K) | Some (_, f) \<Rightarrow> filestat E f st K))"

section \<open>Links\<close>

definition k_namei :: "kenv \<Rightarrow> u8 list \<Rightarrow> kern \<Rightarrow> (nat option \<times> kern) kres" where
  "k_namei E pth K = get_fs (namei (fs_env E K) (the (p_cwd (mycur K))) (name_init E) pth) K"

definition k_nameiparent :: "kenv \<Rightarrow> u8 list \<Rightarrow> kern \<Rightarrow> (nat option \<times> u8 list \<times> kern) kres" where
  "k_nameiparent E pth K =
     kbind (nameiparent (fs_env E K) (the (p_cwd (mycur K))) pth (name_init E) (kfs K)) (\<lambda>(ip, name, s). Ok (ip, name, K\<lparr>kfs := s\<rparr>))"

definition upd_nlink :: "nat \<Rightarrow> (u16 \<Rightarrow> u16) \<Rightarrow> kern \<Rightarrow> kern" where
  "upd_nlink ip g K = K\<lparr>kfs := upd_inode ip (\<lambda>x. x\<lparr>inlink := g (inlink x)\<rparr>) (kfs K)\<rparr>"

definition kinode :: "kern \<Rightarrow> nat \<Rightarrow> inode" where
  "kinode K ip = itab (kfs K) ip"

definition fail_op :: "kern \<Rightarrow> (int \<times> kern) kres" where
  "fail_op K = kbind (do_log end_op K) (\<lambda>K. Ok (-1, K))"

definition sys_link_bad :: "nat \<Rightarrow> kern \<Rightarrow> (int \<times> kern) kres" where
  "sys_link_bad ip K =
     kbind (do_fs (ilock (Some ip)) K) (\<lambda>K.
     kbind (do_fs (iupdate ip) (upd_nlink ip (\<lambda>n. n - 1) K)) (\<lambda>K.
     kbind (do_fs (iunlockput ip) K) fail_op))"

definition sys_link :: "kenv \<Rightarrow> kern \<Rightarrow> (int \<times> kern) kres" where
  "sys_link E K =
     kbind (argstr 0 (old_buf E) MAXPATH K) (\<lambda>(r, K).
     if r < 0 then Ok (-1, K) else
     kbind (argstr 1 (new_buf E) MAXPATH K) (\<lambda>(r, K).
     if r < 0 then Ok (-1, K) else
     let old = path_at (old_buf E) K; new = path_at (new_buf E) K in
     kbind (do_log begin_op K) (\<lambda>K.
     kbind (k_namei E old K) (\<lambda>(ipo, K).
     case ipo of
       None \<Rightarrow> fail_op K
     | Some ip \<Rightarrow>
         kbind (do_fs (ilock (Some ip)) K) (\<lambda>K.
         if itype (kinode K ip) = T_DIR then kbind (do_fs (iunlockput ip) K) fail_op
         else
           kbind (do_fs (iupdate ip) (upd_nlink ip (\<lambda>n. n + 1) K)) (\<lambda>K.
           kbind (do_fs (iunlock (Some ip)) K) (\<lambda>K.
           kbind (k_nameiparent E new K) (\<lambda>(dpo, name, K).
           case dpo of
             None \<Rightarrow> sys_link_bad ip K
           | Some dp \<Rightarrow>
               kbind (do_fs (ilock (Some dp)) K) (\<lambda>K.
               kbind (if idev (kinode K dp) \<noteq> idev (kinode K ip) then Ok (-1, K)
                      else get_fs (dirlink (fs_env E K) dp name (inum (kinode K ip))) K) (\<lambda>(r, K).
               if r < 0 then kbind (do_fs (iunlockput dp) K) (sys_link_bad ip)
               else
                 kbind (do_fs (iunlockput dp) K) (\<lambda>K.
                 kbind (do_fs (iput ip) K) (\<lambda>K.
                 kbind (do_log end_op K) (\<lambda>K. Ok (0, K))))))))))))))"

function isdirempty_loop :: "fenv \<Rightarrow> nat \<Rightarrow> nat \<Rightarrow> nat \<Rightarrow> fsst \<Rightarrow> (bool \<times> fsst) kres" where
  "isdirempty_loop e dp n off s =
     (if off < n then
        kbind (read_dirent e dp off ''isdirempty: readi'' s) (\<lambda>(de, s).
          if de_inum de \<noteq> 0 then Ok (False, s) else isdirempty_loop e dp n (off + sizeof_dirent) s)
      else Ok (True, s))"
  by pat_completeness auto
termination
  by (relation "measure (\<lambda>(e, dp, n, off, s). n - off)") (auto simp: sizeof_dirent_def)

declare isdirempty_loop.simps [simp del]

definition isdirempty :: "fenv \<Rightarrow> nat \<Rightarrow> fsst \<Rightarrow> (bool \<times> fsst) kres" where
  "isdirempty e dp s = isdirempty_loop e dp (unat (isize (itab s dp))) (2 * sizeof_dirent) s"

definition DOT :: "u8 list" where "DOT = [46]"
definition DOTDOT :: "u8 list" where "DOTDOT = [46, 46]"

definition sys_unlink_bad :: "nat \<Rightarrow> kern \<Rightarrow> (int \<times> kern) kres" where
  "sys_unlink_bad dp K = kbind (do_fs (iunlockput dp) K) fail_op"

definition sys_unlink :: "kenv \<Rightarrow> kern \<Rightarrow> (int \<times> kern) kres" where
  "sys_unlink E K =
     kbind (argstr 0 (path_buf E) MAXPATH K) (\<lambda>(r, K).
     if r < 0 then Ok (-1, K) else
     kbind (do_log begin_op K) (\<lambda>K.
     kbind (k_nameiparent E (path_at (path_buf E) K) K) (\<lambda>(dpo, name, K).
     case dpo of
       None \<Rightarrow> fail_op K
     | Some dp \<Rightarrow>
         kbind (do_fs (ilock (Some dp)) K) (\<lambda>K.
         if namecmp name DOT = 0 \<or> namecmp name DOTDOT = 0 then sys_unlink_bad dp K
         else
           kbind (get_fs (dirlookup (fs_env E K) dp name) K) (\<lambda>(r, K).
           case r of
             None \<Rightarrow> sys_unlink_bad dp K
           | Some (ip, off) \<Rightarrow>
               kbind (do_fs (ilock (Some ip)) K) (\<lambda>K.
               if sint (inlink (kinode K ip)) < 1 then Panic ''unlink: nlink < 1''
               else
                 kbind (if itype (kinode K ip) = T_DIR then get_fs (isdirempty (fs_env E K) ip) K else Ok (True, K)) (\<lambda>(e, K).
                 if itype (kinode K ip) = T_DIR \<and> \<not> e then kbind (do_fs (iunlockput ip) K) (sys_unlink_bad dp)
                 else
                   let K = K\<lparr>kfs := put_dirent (fs_env E K) \<lparr>de_inum = 0, de_name = replicate DIRSIZ 0\<rparr> (kfs K)\<rparr> in
                   kbind (get_fs (writei (fs_env E K) dp False (dea (efs E)) off (of_nat sizeof_dirent)) K) (\<lambda>(r, K).
                   if r \<noteq> int sizeof_dirent then Panic ''unlink: writei''
                   else
                     kbind (if itype (kinode K ip) = T_DIR then do_fs (iupdate dp) (upd_nlink dp (\<lambda>n. n - 1) K) else Ok K) (\<lambda>K.
                     kbind (do_fs (iunlockput dp) K) (\<lambda>K.
                     kbind (do_fs (iupdate ip) (upd_nlink ip (\<lambda>n. n - 1) K)) (\<lambda>K.
                     kbind (do_fs (iunlockput ip) K) (\<lambda>K.
                     kbind (do_log end_op K) (\<lambda>K. Ok (0, K)))))))))))))) "

section \<open>Creation\<close>

definition create_fail :: "nat \<Rightarrow> nat \<Rightarrow> kern \<Rightarrow> (nat option \<times> kern) kres" where
  "create_fail ip dp K =
     kbind (do_fs (iupdate ip) (upd_nlink ip (\<lambda>_. 0) K)) (\<lambda>K.
     kbind (do_fs (iunlockput ip) K) (\<lambda>K.
     kbind (do_fs (iunlockput dp) K) (\<lambda>K. Ok (None, K))))"

text \<open>The entries \<^verbatim>\<open>.\<close> and \<^verbatim>\<open>..\<close> of a new directory: whether either link failed.\<close>

definition create_dots :: "kenv \<Rightarrow> nat \<Rightarrow> nat \<Rightarrow> kern \<Rightarrow> (bool \<times> kern) kres" where
  "create_dots E ip dp K =
     kbind (get_fs (dirlink (fs_env E K) ip DOT (inum (kinode K ip))) K) (\<lambda>(r, K).
       if r < 0 then Ok (True, K)
       else kbind (get_fs (dirlink (fs_env E K) ip DOTDOT (inum (kinode K dp))) K) (\<lambda>(r, K). Ok (r < 0, K)))"

definition create :: "kenv \<Rightarrow> u8 list \<Rightarrow> u16 \<Rightarrow> u16 \<Rightarrow> u16 \<Rightarrow> kern \<Rightarrow> (nat option \<times> kern) kres" where
  "create E pth type mj mn K =
     kbind (k_nameiparent E pth K) (\<lambda>(dpo, name, K).
     case dpo of
       None \<Rightarrow> Ok (None, K)
     | Some dp \<Rightarrow>
         kbind (do_fs (ilock (Some dp)) K) (\<lambda>K.
         kbind (get_fs (dirlookup (fs_env E K) dp name) K) (\<lambda>(r, K).
         case r of
           Some (ip, _) \<Rightarrow>
             kbind (do_fs (iunlockput dp) K) (\<lambda>K.
             kbind (do_fs (ilock (Some ip)) K) (\<lambda>K.
             if type = T_FILE \<and> (itype (kinode K ip) = T_FILE \<or> itype (kinode K ip) = T_DEVICE) then Ok (Some ip, K)
             else kbind (do_fs (iunlockput ip) K) (\<lambda>K. Ok (None, K))))
         | None \<Rightarrow>
             kbind (get_fs (ialloc (idev (kinode K dp)) type) K) (\<lambda>(ipo, K).
             case ipo of
               None \<Rightarrow> kbind (do_fs (iunlockput dp) K) (\<lambda>K. Ok (None, K))
             | Some ip \<Rightarrow>
                 kbind (do_fs (ilock (Some ip)) K) (\<lambda>K.
                 kbind (do_fs (iupdate ip) (K\<lparr>kfs := upd_inode ip (\<lambda>x. x\<lparr>imajor := mj, iminor := mn, inlink := 1\<rparr>) (kfs K)\<rparr>)) (\<lambda>K.
                 kbind (if type = T_DIR then create_dots E ip dp K else Ok (False, K)) (\<lambda>(failed, K).
                 if failed then create_fail ip dp K
                 else
                   kbind (get_fs (dirlink (fs_env E K) dp name (inum (kinode K ip))) K) (\<lambda>(r, K).
                   if r < 0 then create_fail ip dp K
                   else
                     kbind (if type = T_DIR then do_fs (iupdate dp) (upd_nlink dp (\<lambda>n. n + 1) K) else Ok K) (\<lambda>K.
                     kbind (do_fs (iunlockput dp) K) (\<lambda>K. Ok (Some ip, K)))))))))))"

section \<open>Opening (kernel/fcntl.h)\<close>

definition O_RDONLY :: int where "O_RDONLY = 0"
definition O_WRONLY :: u32 where "O_WRONLY = 0x001"
definition O_RDWR :: u32 where "O_RDWR = 0x002"
definition O_CREATE :: u32 where "O_CREATE = 0x200"
definition O_TRUNC :: u32 where "O_TRUNC = 0x400"

definition has_mode :: "int \<Rightarrow> u32 \<Rightarrow> bool" where
  "has_mode omode f \<longleftrightarrow> (of_int omode :: u32) AND f \<noteq> 0"

text \<open>Finding the inode, locked: the first half of \<open>sys_open\<close>.\<close>

definition open_inode :: "kenv \<Rightarrow> int \<Rightarrow> kern \<Rightarrow> (nat option \<times> kern) kres" where
  "open_inode E omode K =
     (if has_mode omode O_CREATE then create E (path_at (path_buf E) K) T_FILE 0 0 K
      else
        kbind (k_namei E (path_at (path_buf E) K) K) (\<lambda>(ipo, K).
        case ipo of
          None \<Rightarrow> Ok (None, K)
        | Some ip \<Rightarrow>
            kbind (do_fs (ilock (Some ip)) K) (\<lambda>K.
            if itype (kinode K ip) = T_DIR \<and> omode \<noteq> O_RDONLY then kbind (do_fs (iunlockput ip) K) (\<lambda>K. Ok (None, K))
            else Ok (Some ip, K))))"

definition open_undo :: "nat \<Rightarrow> kern \<Rightarrow> (int \<times> kern) kres" where
  "open_undo ip K = kbind (do_fs (iunlockput ip) K) fail_op"

definition open_file :: "nat \<Rightarrow> nat \<Rightarrow> int \<Rightarrow> kern \<Rightarrow> kern" where
  "open_file f ip omode K =
     (let x = kinode K ip;
          K = (if itype x = T_DEVICE then upd_file f (\<lambda>g. g\<lparr>ftype := FD_DEVICE, fmajor := imajor x\<rparr>) K
               else upd_file f (\<lambda>g. g\<lparr>ftype := FD_INODE, foff := 0\<rparr>) K)
      in upd_file f (\<lambda>g. g\<lparr>fip := ip, freadable := \<not> has_mode omode O_WRONLY,
           fwritable := has_mode omode O_WRONLY \<or> has_mode omode O_RDWR\<rparr>) K)"

definition sys_open :: "kenv \<Rightarrow> kern \<Rightarrow> (int \<times> kern) kres" where
  "sys_open E K =
     kbind (argint 1 K) (\<lambda>omode.
     kbind (argstr 0 (path_buf E) MAXPATH K) (\<lambda>(n, K).
     if n < 0 then Ok (-1, K) else
     kbind (do_log begin_op K) (\<lambda>K.
     kbind (open_inode E omode K) (\<lambda>(ipo, K).
     case ipo of
       None \<Rightarrow> fail_op K
     | Some ip \<Rightarrow>
         let mj = sint (imajor (kinode K ip)) in
         if itype (kinode K ip) = T_DEVICE \<and> (mj < 0 \<or> mj \<ge> int NDEV) then open_undo ip K
         else
           (case filealloc K of
              (None, K) \<Rightarrow> open_undo ip K
            | (Some f, K) \<Rightarrow>
                (case fdalloc f K of
                   (None, K) \<Rightarrow> kbind (fileclose f K) (open_undo ip)
                 | (Some fd, K) \<Rightarrow>
                     let K = open_file f ip omode K in
                     kbind (if has_mode omode O_TRUNC \<and> itype (kinode K ip) = T_FILE then do_fs (itrunc ip) K else Ok K) (\<lambda>K.
                     kbind (do_fs (iunlock (Some ip)) K) (\<lambda>K.
                     kbind (do_log end_op K) (\<lambda>K. Ok (int fd, K))))))))))"

definition sys_mkdir :: "kenv \<Rightarrow> kern \<Rightarrow> (int \<times> kern) kres" where
  "sys_mkdir E K =
     kbind (do_log begin_op K) (\<lambda>K.
     kbind (argstr 0 (path_buf E) MAXPATH K) (\<lambda>(r, K).
     if r < 0 then fail_op K
     else
       kbind (create E (path_at (path_buf E) K) T_DIR 0 0 K) (\<lambda>(ipo, K).
       case ipo of
         None \<Rightarrow> fail_op K
       | Some ip \<Rightarrow> kbind (do_fs (iunlockput ip) K) (\<lambda>K. kbind (do_log end_op K) (\<lambda>K. Ok (0, K))))))"

definition sys_mknod :: "kenv \<Rightarrow> kern \<Rightarrow> (int \<times> kern) kres" where
  "sys_mknod E K =
     kbind (do_log begin_op K) (\<lambda>K.
     kbind (argint 1 K) (\<lambda>mj.
     kbind (argint 2 K) (\<lambda>mn.
     kbind (argstr 0 (path_buf E) MAXPATH K) (\<lambda>(r, K).
     if r < 0 then fail_op K
     else
       kbind (create E (path_at (path_buf E) K) T_DEVICE (of_int mj) (of_int mn) K) (\<lambda>(ipo, K).
       case ipo of
         None \<Rightarrow> fail_op K
       | Some ip \<Rightarrow> kbind (do_fs (iunlockput ip) K) (\<lambda>K. kbind (do_log end_op K) (\<lambda>K. Ok (0, K))))))))"

definition sys_chdir :: "kenv \<Rightarrow> kern \<Rightarrow> (int \<times> kern) kres" where
  "sys_chdir E K =
     kbind (do_log begin_op K) (\<lambda>K.
     kbind (argstr 0 (path_buf E) MAXPATH K) (\<lambda>(r, K).
     if r < 0 then fail_op K
     else
       kbind (k_namei E (path_at (path_buf E) K) K) (\<lambda>(ipo, K).
       case ipo of
         None \<Rightarrow> fail_op K
       | Some ip \<Rightarrow>
           kbind (do_fs (ilock (Some ip)) K) (\<lambda>K.
           if itype (kinode K ip) \<noteq> T_DIR then kbind (do_fs (iunlockput ip) K) fail_op
           else
             kbind (do_fs (iunlock (Some ip)) K) (\<lambda>K.
             kbind (do_fs (iput (the (p_cwd (mycur K)))) K) (\<lambda>K.
             kbind (do_log end_op K) (\<lambda>K. Ok (0, upd_cur (\<lambda>p. p\<lparr>p_cwd := Some ip\<rparr>) K))))))))"

definition close_both :: "nat \<Rightarrow> nat \<Rightarrow> kern \<Rightarrow> (int \<times> kern) kres" where
  "close_both rf wrf K = kbind (fileclose rf K) (\<lambda>K. kbind (fileclose wrf K) (\<lambda>K. Ok (-1, K)))"

definition sys_pipe :: "kenv \<Rightarrow> kern \<Rightarrow> (int \<times> kern) kres" where
  "sys_pipe E K =
     kbind (argaddr 0 K) (\<lambda>fdarray.
     kbind (pipealloc K) (\<lambda>(r, K).
     case r of
       None \<Rightarrow> Ok (-1, K)
     | Some (rf, wrf) \<Rightarrow>
         (case fdalloc rf K of
            (None, K) \<Rightarrow> close_both rf wrf K
          | (Some fd0, K) \<Rightarrow>
              (case fdalloc wrf K of
                 (None, K) \<Rightarrow> close_both rf wrf (set_ofile fd0 None K)
               | (Some fd1, K) \<Rightarrow>
                   let pt = p_pagetable (mycur K);
                       undo = (\<lambda>K. close_both rf wrf (set_ofile fd1 None (set_ofile fd0 None K)))
                   in kbind (copyout pt fdarray (fd_addr E) 4 (expose32 (fd_addr E) (of_nat fd0) (kmemory K))) (\<lambda>(r, k).
                      let K = set_kmemory k K in
                      if r < 0 then undo K
                      else
                        kbind (copyout pt (fdarray + 4) (fd_addr E) 4 (expose32 (fd_addr E) (of_nat fd1) (kmemory K))) (\<lambda>(r, k).
                        let K = set_kmemory k K in
                        if r < 0 then undo K else Ok (0, K)))))))"

end
