(* ===== verification/Sh.thy ===== *)
theory Sh
  imports Sysfile "HOL-Library.Sublist"
begin

text \<open>
  The shell's parser (user/sh.c). A pointer into the line, which ends with a NUL, is the list of the
  bytes from there to the end: the pointer \<open>es\<close> is the empty list, and the NUL it points to is what
  dereferencing the empty list gives. A word is the pair of pointers to its first byte and past its last.
  The functions that call one another carry a bound on the depth of the calls, and None is running out
  of it; \<open>parsecmd\<close> uses a bound that is always enough. malloc is taken to succeed. The lemmas show that
  the parser ends, that its trees are well-formed, and that terminating the words keeps them apart.
\<close>

unbundle bit_operations_syntax

type_synonym ptr = "u8 list"
type_synonym tword = "ptr \<times> ptr"

text \<open>One constructor for each of the structures that begin with the type field. The words are a
  parameter, so that the tree of a line can be compared with one over byte strings.\<close>

datatype 'w cmd = EXEC "'w list" | REDIR "'w cmd" 'w int int | PIPE "'w cmd" "'w cmd" | LIST "'w cmd" "'w cmd" | BACK "'w cmd"

definition MAXARGS :: nat where "MAXARGS = 10"

definition whitespace :: "u8 list" where "whitespace = [32, 9, 13, 10, 11]"
definition symbols :: "u8 list" where "symbols = [60, 124, 62, 38, 59, 40, 41]"

definition skipws :: "ptr \<Rightarrow> ptr" where
  "skipws s = dropWhile (\<lambda>c. c \<in> set whitespace) s"

text \<open>The result is the token, the pointers \<open>*q\<close> and \<open>*eq\<close>, and the new \<open>*ps\<close>. Tokens are character
  codes: 97 for a word, 43 for \<^verbatim>\<open>>>\<close>, 0 at the end.\<close>

definition gettoken :: "ptr \<Rightarrow> u8 \<times> ptr \<times> ptr \<times> ptr" where
  "gettoken ps =
     (let s = skipws ps; q = s;
          (ret, s) =
            (case s of
               [] \<Rightarrow> (0, [])
             | c # r \<Rightarrow>
                 if c \<in> {124, 40, 41, 59, 38, 60} then (c, r)
                 else if c = 62 then (if r \<noteq> [] \<and> hd r = 62 then (43, tl r) else (62, r))
                 else (97, dropWhile (\<lambda>c. c \<notin> set whitespace \<and> c \<notin> set symbols) s))
      in (ret, q, s, skipws s))"

definition peek :: "ptr \<Rightarrow> u8 list \<Rightarrow> bool \<times> ptr" where
  "peek ps toks = (let s = skipws ps in (s \<noteq> [] \<and> hd s \<in> set toks, s))"

definition next_ps :: "u8 \<times> ptr \<times> ptr \<times> ptr \<Rightarrow> ptr" where
  "next_ps r = snd (snd (snd r))"

lemma skipws_length: "length (skipws s) \<le> length s"
  by (simp add: skipws_def length_dropWhile_le)

lemma gettoken_shorter:
  assumes "skipws s \<noteq> []"
  shows "length (next_ps (gettoken s)) < length s"
proof -
  obtain c r where cr: "skipws s = c # r" using assms by (cases "skipws s") auto
  have le: "length (skipws x) \<le> length x" for x by (rule skipws_length)
  have "c \<notin> set whitespace" using cr hd_dropWhile [of "\<lambda>c. c \<in> set whitespace" s] by (simp add: skipws_def)
  moreover have "set symbols = {124, 40, 41, 59, 38, 60, 62}" by (auto simp: symbols_def)
  ultimately have "length (next_ps (gettoken s)) \<le> length r"
    using le [of r] le [of "tl r"] le [of "dropWhile (\<lambda>c. c \<notin> set whitespace \<and> c \<notin> set symbols) r"]
      length_dropWhile_le [of "\<lambda>c. c \<notin> set whitespace \<and> c \<notin> set symbols" r]
    by (cases r) (auto simp: gettoken_def next_ps_def cr Let_def)
  then show ?thesis using skipws_length [of s] cr by simp
qed

text \<open>The redirections that follow, each with its file, mode and descriptor, in order.\<close>

definition redir_mode :: "u8 \<Rightarrow> int \<times> int" where
  "redir_mode tok =
     (if tok = 60 then (O_RDONLY, 0) else if tok = 62 then (uint (O_WRONLY OR O_CREATE OR O_TRUNC), 1)
      else (uint (O_WRONLY OR O_CREATE), 1))"

type_synonym redir = "tword \<times> int \<times> int"

lemma skipws_Nil [simp]: "skipws [] = []"
  by (simp add: skipws_def)

lemma skipws_idem [simp]: "skipws (skipws s) = skipws s"
  by (simp add: skipws_def dropWhile_idem)

lemma gettoken_end: "skipws s = [] \<Longrightarrow> gettoken s = (0, [], [], [])"
  by (simp add: gettoken_def)

lemma gettoken_rest: "gettoken s = (t, q, e, s') \<Longrightarrow> length s' \<le> length s \<and> (skipws s \<noteq> [] \<longrightarrow> length s' < length s)"
proof -
  assume a: "gettoken s = (t, q, e, s')"
  show ?thesis
  proof (cases "skipws s = []")
    case True
    then show ?thesis using a gettoken_end by simp
  next
    case False
    then show ?thesis using gettoken_shorter [OF False] a by (simp add: next_ps_def)
  qed
qed

lemma peek_rest: "peek s toks = (ok, s') \<Longrightarrow> s' = skipws s \<and> length s' \<le> length s \<and> (ok \<longrightarrow> skipws s' \<noteq> [])"
  using skipws_length [of s] by (auto simp: peek_def Let_def)

function parseredirs_loop :: "redir list \<Rightarrow> ptr \<Rightarrow> (redir list \<times> ptr) kres" where
  "parseredirs_loop rs s =
     (let (ok, s) = peek s [60, 62]
      in if \<not> ok then Ok (rs, s)
         else
           let (tok, _, _, s) = gettoken s;
               (t, q, eq, s) = gettoken s
           in if t \<noteq> 97 then Panic ''missing file for redirection''
              else parseredirs_loop (rs @ [((q, eq), redir_mode tok)]) s)"
  by pat_completeness auto
termination
  by (relation "measure (\<lambda>(rs, s). length s)") (auto dest!: peek_rest [OF sym] gettoken_rest [OF sym])

declare parseredirs_loop.simps [simp del]

definition redirs :: "'w cmd \<Rightarrow> ('w \<times> int \<times> int) list \<Rightarrow> 'w cmd" where
  "redirs cmd rs = foldl (\<lambda>c (f, mode, fd). REDIR c f mode fd) cmd rs"

definition parseredirs :: "tword cmd \<Rightarrow> ptr \<Rightarrow> (tword cmd \<times> ptr) kres" where
  "parseredirs cmd s = kbind (parseredirs_loop [] s) (\<lambda>(rs, s). Ok (redirs cmd rs, s))"

lemma parseredirs_rest: "parseredirs_loop rs s = Ok (rs', s') \<Longrightarrow> length s' \<le> length s"
proof (induction rs s arbitrary: rs' s' rule: parseredirs_loop.induct)
  case (1 rs s)
  obtain ok s1 where p: "peek s [60, 62] = (ok, s1)" by fastforce
  obtain tok a b s2 where g: "gettoken s1 = (tok, a, b, s2)" by (metis prod_cases4)
  obtain t q e s3 where h: "gettoken s2 = (t, q, e, s3)" by (metis prod_cases4)
  note le = peek_rest [OF p] gettoken_rest [OF g] gettoken_rest [OF h]
  show ?case
  proof (cases "ok \<and> t = 97")
    case True
    then have "parseredirs_loop (rs @ [((q, e), redir_mode tok)]) s3 = Ok (rs', s')"
      using 1(2) p g h by (subst (asm) parseredirs_loop.simps) simp
    then have "length s' \<le> length s3" using 1(1) [OF p [symmetric] refl _ g [symmetric] refl refl refl h [symmetric] refl refl] True by simp
    then show ?thesis using le by linarith
  next
    case False
    then show ?thesis using 1(2) p g h le by (subst (asm) parseredirs_loop.simps) (auto split: if_splits)
  qed
qed

lemma gettoken_some: "gettoken s = (t, q, e, s') \<Longrightarrow> t \<noteq> 0 \<Longrightarrow> length s' < length s"
  using gettoken_rest [of s] gettoken_end [of s] by (cases "skipws s = []") auto

text \<open>The loop of \<open>parseexec\<close>. The code fills the argument vector of a command around which it has
  already put redirections: the words and the redirections are collected side by side.\<close>

function parseexec_loop :: "tword list \<Rightarrow> redir list \<Rightarrow> ptr \<Rightarrow> (tword list \<times> redir list \<times> ptr) kres" where
  "parseexec_loop args rs s =
     (let (stop, s) = peek s [124, 41, 38, 59]
      in if stop then Ok (args, rs, s)
         else
           let (tok, q, eq, s) = gettoken s
           in if tok = 0 then Ok (args, rs, s)
              else if tok \<noteq> 97 then Panic ''syntax''
              else if length args + 1 \<ge> MAXARGS then Panic ''too many args''
              else kbind (parseredirs_loop rs s) (\<lambda>(rs, s). parseexec_loop (args @ [(q, eq)]) rs s))"
  by pat_completeness auto
termination
  by (relation "measure (\<lambda>(args, rs, s). length s)")
    (auto dest!: peek_rest [OF sym] gettoken_some [OF sym] parseredirs_rest)

declare parseexec_loop.simps [simp del]

function back_loop :: "tword cmd \<Rightarrow> ptr \<Rightarrow> tword cmd \<times> ptr" where
  "back_loop cmd s =
     (let (ok, s) = peek s [38]
      in if ok then back_loop (BACK cmd) (next_ps (gettoken s)) else (cmd, s))"
  by pat_completeness auto
termination
  by (relation "measure (\<lambda>(cmd, s). length s)") (auto dest!: peek_rest [OF sym] intro: order.strict_trans2 [OF gettoken_shorter])

declare back_loop.simps [simp del]

section \<open>The recursive parser\<close>

definition pbind :: "('a \<times> ptr) kres option \<Rightarrow> ('a \<Rightarrow> ptr \<Rightarrow> ('b \<times> ptr) kres option) \<Rightarrow> ('b \<times> ptr) kres option" where
  "pbind r f = (case r of None \<Rightarrow> None | Some (Ok (c, s)) \<Rightarrow> f c s | Some (Panic e) \<Rightarrow> Some (Panic e)
     | Some (Wait e) \<Rightarrow> Some (Wait e) | Some NoReturn \<Rightarrow> Some NoReturn)"

fun parseline :: "nat \<Rightarrow> ptr \<Rightarrow> (tword cmd \<times> ptr) kres option"
  and parsepipe :: "nat \<Rightarrow> ptr \<Rightarrow> (tword cmd \<times> ptr) kres option"
  and parseexec :: "nat \<Rightarrow> ptr \<Rightarrow> (tword cmd \<times> ptr) kres option"
  and parseblock :: "nat \<Rightarrow> ptr \<Rightarrow> (tword cmd \<times> ptr) kres option" where
  "parseline 0 s = None"
| "parseline (Suc n) s =
     pbind (parsepipe n s) (\<lambda>cmd s.
       let (cmd, s) = back_loop cmd s;
           (ok, s) = peek s [59]
       in if ok then pbind (parseline n (next_ps (gettoken s))) (\<lambda>right s. Some (Ok (LIST cmd right, s)))
          else Some (Ok (cmd, s)))"
| "parsepipe 0 s = None"
| "parsepipe (Suc n) s =
     pbind (parseexec n s) (\<lambda>cmd s.
       let (ok, s) = peek s [124]
       in if ok then pbind (parsepipe n (next_ps (gettoken s))) (\<lambda>right s. Some (Ok (PIPE cmd right, s)))
          else Some (Ok (cmd, s)))"
| "parseexec 0 s = None"
| "parseexec (Suc n) s =
     (let (ok, s) = peek s [40]
      in if ok then parseblock n s
         else Some (kbind (parseredirs_loop [] s) (\<lambda>(rs, s).
                    kbind (parseexec_loop [] rs s) (\<lambda>(args, rs, s). Ok (redirs (EXEC args) rs, s)))))"
| "parseblock 0 s = None"
| "parseblock (Suc n) s =
     (let (ok, s) = peek s [40]
      in if \<not> ok then Some (Panic ''parseblock'')
         else pbind (parseline n (next_ps (gettoken s))) (\<lambda>cmd s.
                let (ok, s) = peek s [41]
                in if \<not> ok then Some (Panic ''syntax - missing )'')
                   else Some (parseredirs cmd (next_ps (gettoken s)))))"

text \<open>The index of a pointer in the line of length \<open>n\<close>, and the strings that the tree refers to, given
  their terminators.\<close>

definition ptr_index :: "nat \<Rightarrow> ptr \<Rightarrow> nat" where
  "ptr_index n p = n - length p"

definition nul_at :: "nat \<Rightarrow> tword \<Rightarrow> u8 list \<Rightarrow> u8 list" where
  "nul_at n w buf = buf[ptr_index n (snd w) := 0]"

fun nulterminate :: "nat \<Rightarrow> tword cmd \<Rightarrow> u8 list \<Rightarrow> u8 list" where
  "nulterminate n (EXEC args) buf = fold (nul_at n) args buf"
| "nulterminate n (REDIR c f mode fd) buf = nul_at n f (nulterminate n c buf)"
| "nulterminate n (PIPE l r) buf = nulterminate n r (nulterminate n l buf)"
| "nulterminate n (LIST l r) buf = nulterminate n r (nulterminate n l buf)"
| "nulterminate n (BACK c) buf = nulterminate n c buf"

definition parse_fuel :: "ptr \<Rightarrow> nat" where
  "parse_fuel s = 4 * length s + 4"

text \<open>The result is the tree and the buffer, with its final NUL, in which the words have been
  terminated.\<close>

definition parsecmd :: "ptr \<Rightarrow> (tword cmd \<times> u8 list) kres option" where
  "parsecmd s =
     pbind (parseline (parse_fuel s) s) (\<lambda>cmd s'.
       let (_, s') = peek s' []
       in if s' \<noteq> [] then Some (Panic ''syntax'') else Some (Ok (cmd, nulterminate (length s) cmd (s @ [0]))))"

section \<open>What the tokens are\<close>

definition delim :: "u8 \<Rightarrow> bool" where
  "delim c \<longleftrightarrow> c \<in> set whitespace \<or> c \<in> set symbols"

definition good_word :: "u8 list \<Rightarrow> bool" where
  "good_word w \<longleftrightarrow> w \<noteq> [] \<and> (\<forall>c \<in> set w. \<not> delim c)"

definition ends_word :: "u8 list \<Rightarrow> bool" where
  "ends_word x \<longleftrightarrow> x = [] \<or> delim (hd x)"

text \<open>A word of the line \<open>s\<close>: both its pointers point into the line, and it cannot be made longer.\<close>

definition word_in :: "ptr \<Rightarrow> tword \<Rightarrow> bool" where
  "word_in s w \<longleftrightarrow> (case w of (q, e) \<Rightarrow> suffix q s \<and> (\<exists>t. q = t @ e \<and> good_word t \<and> ends_word e))"

definition text_of :: "tword \<Rightarrow> u8 list" where
  "text_of w = take (length (fst w) - length (snd w)) (fst w)"

lemma word_text: "word_in s w \<Longrightarrow> good_word (text_of w)"
  by (auto simp: word_in_def text_of_def split: prod.splits)

lemma skipws_suffix: "suffix (skipws s) s"
  by (simp add: skipws_def suffix_dropWhile)

lemma gettoken_default:
  assumes "skipws s = c # r" "\<not> delim c"
  shows "gettoken s = (97, c # r, dropWhile (\<lambda>c. \<not> delim c) (c # r), skipws (dropWhile (\<lambda>c. \<not> delim c) (c # r)))"
proof -
  have n: "c \<notin> set whitespace \<and> c \<notin> set symbols" using assms(2) by (simp add: delim_def)
  have "c \<notin> {124, 40, 41, 59, 38, 60}" "c \<noteq> 62" using n by (auto simp: symbols_def)
  moreover have "dropWhile (\<lambda>c. c \<notin> set whitespace \<and> c \<notin> set symbols) x = dropWhile (\<lambda>c. \<not> delim c) x" for x by (simp add: delim_def)
  ultimately show ?thesis by (simp add: gettoken_def assms(1) Let_def)
qed

lemma gettoken_op:
  assumes "skipws s = c # r" "delim c"
  shows "fst (gettoken s) \<noteq> 97 \<and> fst (gettoken s) \<noteq> 0"
proof -
  have "c \<notin> set whitespace" using assms(1) hd_dropWhile [of "\<lambda>c. c \<in> set whitespace" s] by (simp add: skipws_def)
  then have "c \<in> {124, 40, 41, 59, 38, 60, 62}" using assms(2) by (auto simp: delim_def symbols_def)
  then show ?thesis by (auto simp: gettoken_def assms(1) Let_def)
qed

lemma gettoken_word_in:
  assumes "gettoken s = (97, q, e, s')"
  shows "word_in s (q, e)"
proof (cases "skipws s")
  case Nil
  then show ?thesis using assms by (simp add: gettoken_end)
next
  case (Cons c r)
  have "\<not> delim c" using gettoken_op [OF Cons] assms by auto
  then have q: "q = c # r" "e = dropWhile (\<lambda>c. \<not> delim c) q" using gettoken_default [OF Cons] assms by auto
  let ?t = "takeWhile (\<lambda>c. \<not> delim c) q"
  have "q = ?t @ e" unfolding q(2) by simp
  moreover have "?t \<noteq> []" using \<open>\<not> delim c\<close> q(1) by simp
  then have "good_word ?t" by (auto simp: good_word_def dest: set_takeWhileD)
  moreover have "ends_word e" unfolding ends_word_def q(2) using hd_dropWhile [of "\<lambda>c. \<not> delim c" q] by (metis (no_types, lifting))
  ultimately show ?thesis using skipws_suffix [of s] Cons q(1) unfolding word_in_def by auto
qed

lemma gettoken_suffix:
  assumes "gettoken s = (t, q, e, s')"
  shows "suffix s' s"
proof (cases "skipws s")
  case Nil
  then show ?thesis using assms by (simp add: gettoken_end)
next
  case (Cons c r)
  have cr: "suffix (c # r) s" using skipws_suffix [of s] Cons by simp
  then have r: "suffix r s" by (meson suffix_ConsD suffix_order.trans suffix_ConsI suffix_order.refl)
  have "suffix e s"
    using assms Cons r cr suffix_order.trans [OF suffix_dropWhile r] suffix_order.trans [OF suffix_tl r]
    by (auto simp: gettoken_def Let_def split: if_splits)
  moreover have "s' = skipws e" using assms by (auto simp: gettoken_def Let_def split: prod.splits)
  ultimately show ?thesis using skipws_suffix suffix_order.trans by blast
qed

lemma peek_suffix: "peek s toks = (ok, s') \<Longrightarrow> suffix s' s"
  using peek_rest [of s] skipws_suffix [of s] by auto

lemma next_suffix: "suffix (next_ps (gettoken s)) s"
  using gettoken_suffix [of s] by (cases "gettoken s") (auto simp: next_ps_def)

lemma word_in_suffix: "word_in s' w \<Longrightarrow> suffix s' s \<Longrightarrow> word_in s w"
  by (auto simp: word_in_def dest: suffix_order.trans split: prod.splits)

section \<open>Well-formed commands\<close>

definition modes :: "(int \<times> int) set" where
  "modes = {redir_mode 60, redir_mode 62, redir_mode 43}"

text \<open>A command that runcmd can handle: at most nine words, and one of the three ways to redirect.\<close>

fun good_cmd :: "('w \<Rightarrow> bool) \<Rightarrow> 'w cmd \<Rightarrow> bool" where
  "good_cmd P (EXEC args) \<longleftrightarrow> length args < MAXARGS \<and> (\<forall>w \<in> set args. P w)"
| "good_cmd P (REDIR c f mode fd) \<longleftrightarrow> good_cmd P c \<and> P f \<and> (mode, fd) \<in> modes"
| "good_cmd P (PIPE l r) \<longleftrightarrow> good_cmd P l \<and> good_cmd P r"
| "good_cmd P (LIST l r) \<longleftrightarrow> good_cmd P l \<and> good_cmd P r"
| "good_cmd P (BACK c) \<longleftrightarrow> good_cmd P c"

lemma good_cmd_mono: "good_cmd P c \<Longrightarrow> (\<And>w. P w \<Longrightarrow> Q w) \<Longrightarrow> good_cmd Q c"
  by (induction c) auto

lemma good_cmd_words: "good_cmd P c \<Longrightarrow> w \<in> set_cmd c \<Longrightarrow> P w"
  by (induction c) auto

lemma good_cmd_map: "good_cmd P (map_cmd f c) \<longleftrightarrow> good_cmd (\<lambda>w. P (f w)) c"
  by (induction c) auto

lemma redirs_snoc: "redirs c (rs @ [(f, m, d)]) = REDIR (redirs c rs) f m d"
  by (simp add: redirs_def)

lemma redirs_Nil [simp]: "redirs c [] = c"
  by (simp add: redirs_def)

lemma good_redirs: "good_cmd P c \<Longrightarrow> (\<forall>(f, md) \<in> set rs. P f \<and> md \<in> modes) \<Longrightarrow> good_cmd P (redirs c rs)"
  by (induction rs rule: rev_induct) (auto simp: redirs_snoc)

lemma redir_mode_modes: "t \<in> {60, 62, 43} \<Longrightarrow> redir_mode t \<in> modes"
  by (auto simp: modes_def)

section \<open>Every tree the parser returns is well-formed\<close>

definition good_redir_list :: "ptr \<Rightarrow> redir list \<Rightarrow> bool" where
  "good_redir_list s rs \<longleftrightarrow> (\<forall>(f, md) \<in> set rs. word_in s f \<and> md \<in> modes)"

lemma redir_token: "peek s [60, 62] = (True, s1) \<Longrightarrow> gettoken s1 = (tok, a, b, s2) \<Longrightarrow> tok \<in> {60, 62, 43}"
proof -
  assume a: "peek s [60, 62] = (True, s1)" "gettoken s1 = (tok, a, b, s2)"
  then obtain c r where "s1 = c # r" "c \<in> {60, 62}" "skipws s1 = s1"
    by (auto simp: peek_def Let_def neq_Nil_conv) (metis skipws_idem)+
  then show ?thesis using a(2) by (auto simp: gettoken_def split: if_splits)
qed

lemma parseredirs_good:
  "parseredirs_loop rs s = Ok (rs', s') \<Longrightarrow> suffix s l \<Longrightarrow> good_redir_list l rs \<Longrightarrow> good_redir_list l rs' \<and> suffix s' l"
proof (induction rs s arbitrary: rs' s' rule: parseredirs_loop.induct)
  case (1 rs s)
  obtain ok s1 where p: "peek s [60, 62] = (ok, s1)" by fastforce
  obtain tok a b s2 where g: "gettoken s1 = (tok, a, b, s2)" by (metis prod_cases4)
  obtain t q e s3 where h: "gettoken s2 = (t, q, e, s3)" by (metis prod_cases4)
  have s1: "suffix s1 l" using peek_suffix [OF p] 1(3) by (rule suffix_order.trans)
  have s2: "suffix s2 l" using gettoken_suffix [OF g] s1 by (rule suffix_order.trans)
  have s3: "suffix s3 l" using gettoken_suffix [OF h] s2 by (rule suffix_order.trans)
  show ?case
  proof (cases "ok \<and> t = 97")
    case True
    then have r: "parseredirs_loop (rs @ [((q, e), redir_mode tok)]) s3 = Ok (rs', s')"
      using 1(2) p g h by (subst (asm) parseredirs_loop.simps) simp
    have "word_in l (q, e)" using gettoken_word_in [of s2 q e s3] h True word_in_suffix [OF _ s2] by simp
    moreover have "redir_mode tok \<in> modes" using redir_token [of s s1] p g True by (intro redir_mode_modes) simp
    ultimately have "good_redir_list l (rs @ [((q, e), redir_mode tok)])" using 1(4) by (auto simp: good_redir_list_def)
    then show ?thesis using 1(1) [OF p [symmetric] refl _ g [symmetric] refl refl refl h [symmetric] refl refl] True r s3 by simp
  next
    case False
    then show ?thesis using 1(2,4) p g h s1 by (subst (asm) parseredirs_loop.simps) (auto split: if_splits)
  qed
qed

lemma parseexec_loop_good:
  "parseexec_loop args rs s = Ok (args', rs', s') \<Longrightarrow> suffix s l \<Longrightarrow> good_redir_list l rs \<Longrightarrow> good_cmd (word_in l) (EXEC args) \<Longrightarrow>
    good_redir_list l rs' \<and> good_cmd (word_in l) (EXEC args') \<and> suffix s' l"
proof (induction args rs s arbitrary: args' rs' s' rule: parseexec_loop.induct)
  case (1 args rs s)
  obtain stop s1 where p: "peek s [124, 41, 38, 59] = (stop, s1)" by fastforce
  obtain tok q e s2 where g: "gettoken s1 = (tok, q, e, s2)" by (metis prod_cases4)
  have s1: "suffix s1 l" using peek_suffix [OF p] 1(3) by (rule suffix_order.trans)
  have s2: "suffix s2 l" using gettoken_suffix [OF g] s1 by (rule suffix_order.trans)
  show ?case
  proof (cases "stop \<or> tok = 0")
    case True
    then show ?thesis using 1(2,4,5) p g s1 s2 by (subst (asm) parseexec_loop.simps) (auto split: if_splits)
  next
    case False
    have c: "tok = 97" "length args + 1 < MAXARGS" using 1(2) p g False by (subst (asm) parseexec_loop.simps, simp split: if_splits)+
    then obtain rs1 s3 where r: "parseredirs_loop rs s2 = Ok (rs1, s3)" and k: "parseexec_loop (args @ [(q, e)]) rs1 s3 = Ok (args', rs', s')"
      using 1(2) p g False by (subst (asm) parseexec_loop.simps) auto
    have w: "word_in l (q, e)" using gettoken_word_in [of s1 q e s2] g c(1) word_in_suffix [OF _ s1] by simp
    have "good_redir_list l rs1 \<and> suffix s3 l" by (rule parseredirs_good [OF r s2 1(4)])
    moreover have "good_cmd (word_in l) (EXEC (args @ [(q, e)]))" using 1(5) w c(2) by auto
    ultimately show ?thesis using 1(1) [OF p [symmetric] refl _ g [symmetric] refl refl refl] False c r k by simp
  qed
qed

lemma back_loop_good:
  "back_loop c s = (c', s') \<Longrightarrow> suffix s l \<Longrightarrow> good_cmd P c \<Longrightarrow> good_cmd P c' \<and> suffix s' l"
proof (induction c s arbitrary: c' s' rule: back_loop.induct)
  case (1 c s)
  obtain ok s1 where p: "peek s [38] = (ok, s1)" by fastforce
  have s1: "suffix s1 l" using peek_suffix [OF p] 1(3) by (rule suffix_order.trans)
  show ?case
  proof (cases ok)
    case True
    then have "back_loop (BACK c) (next_ps (gettoken s1)) = (c', s')" using 1(2) p by (subst (asm) back_loop.simps) simp
    moreover have "suffix (next_ps (gettoken s1)) l" using next_suffix s1 by (rule suffix_order.trans)
    ultimately show ?thesis using 1(1) [OF p [symmetric] refl True] 1(4) by simp
  next
    case False
    then show ?thesis using 1(2,4) p s1 by (subst (asm) back_loop.simps) simp
  qed
qed

definition parsed_ok :: "ptr \<Rightarrow> (tword cmd \<times> ptr) kres option \<Rightarrow> bool" where
  "parsed_ok l r \<longleftrightarrow> (\<forall>c s'. r = Some (Ok (c, s')) \<longrightarrow> good_cmd (word_in l) c \<and> suffix s' l)"

lemma pbind_ok: "pbind r f = Some (Ok y) \<longleftrightarrow> (\<exists>c s. r = Some (Ok (c, s)) \<and> f c s = Some (Ok y))"
  by (auto simp: pbind_def split: option.splits kres.splits)

lemma parsed_bind:
  "parsed_ok l r \<Longrightarrow> (\<And>c s. good_cmd (word_in l) c \<Longrightarrow> suffix s l \<Longrightarrow> parsed_ok l (f c s)) \<Longrightarrow> parsed_ok l (pbind r f)"
  unfolding parsed_ok_def pbind_ok by blast

lemma parseredirs_parsed: "good_cmd (word_in l) c \<Longrightarrow> suffix s l \<Longrightarrow> parsed_ok l (Some (parseredirs c s))"
  unfolding parsed_ok_def parseredirs_def
  by (auto elim!: kbind_pairE dest!: parseredirs_good [where l = l] intro!: good_redirs simp: good_redir_list_def)

lemma exec_parsed:
  assumes "suffix s l"
  shows "parsed_ok l (Some (kbind (parseredirs_loop [] s) (\<lambda>(rs, s). kbind (parseexec_loop [] rs s) (\<lambda>(args, rs, s). Ok (redirs (EXEC args) rs, s)))))"
  unfolding parsed_ok_def
proof (intro allI impI)
  fix c s'
  assume "Some (kbind (parseredirs_loop [] s) (\<lambda>(rs, s). kbind (parseexec_loop [] rs s) (\<lambda>(args, rs, s). Ok (redirs (EXEC args) rs, s)))) = Some (Ok (c, s'))"
  then obtain rs s1 args rs' where r: "parseredirs_loop [] s = Ok (rs, s1)" "parseexec_loop [] rs s1 = Ok (args, rs', s')" "c = redirs (EXEC args) rs'"
    by auto
  have "good_redir_list l rs \<and> suffix s1 l" by (rule parseredirs_good [OF r(1) assms]) (simp add: good_redir_list_def)
  then have "good_redir_list l rs' \<and> good_cmd (word_in l) (EXEC args) \<and> suffix s' l"
    using parseexec_loop_good [OF r(2), of l] by (simp add: MAXARGS_def)
  then show "good_cmd (word_in l) c \<and> suffix s' l" unfolding r(3) by (intro conjI good_redirs) (auto simp: good_redir_list_def)
qed

lemma parsed_peek: "suffix s l \<Longrightarrow> (\<And>ok s'. suffix s' l \<Longrightarrow> parsed_ok l (f ok s')) \<Longrightarrow> parsed_ok l (case peek s toks of (ok, s') \<Rightarrow> f ok s')"
  using peek_suffix [of s toks] suffix_order.trans by (cases "peek s toks") auto

lemma parsed_return: "good_cmd (word_in l) c \<Longrightarrow> suffix s l \<Longrightarrow> parsed_ok l (Some (Ok (c, s)))"
  by (simp add: parsed_ok_def)

lemma suffix_next: "suffix x l \<Longrightarrow> suffix (next_ps (gettoken x)) l"
  using next_suffix suffix_order.trans by blast

lemma line_tail:
  assumes "\<And>s. suffix s l \<Longrightarrow> parsed_ok l (parseline n s)" "good_cmd (word_in l) c" "suffix s l"
  shows "parsed_ok l (let (cmd, s) = back_loop c s; (ok, s) = peek s [59]
     in if ok then pbind (parseline n (next_ps (gettoken s))) (\<lambda>right s. Some (Ok (LIST cmd right, s))) else Some (Ok (cmd, s)))"
proof -
  obtain c2 s2 where b: "back_loop c s = (c2, s2)" by fastforce
  note bg = back_loop_good [OF b assms(3,2)]
  have "parsed_ok l (if ok then pbind (parseline n (next_ps (gettoken s3))) (\<lambda>right s. Some (Ok (LIST c2 right, s))) else Some (Ok (c2, s3)))"
    if s3: "suffix s3 l" for ok s3
  proof (cases ok)
    case True
    have "parsed_ok l (pbind (parseline n (next_ps (gettoken s3))) (\<lambda>right s. Some (Ok (LIST c2 right, s))))"
      by (rule parsed_bind [OF assms(1) [OF suffix_next [OF s3]]]) (use bg in \<open>simp add: parsed_return\<close>)
    then show ?thesis using True by simp
  qed (use bg s3 in \<open>simp add: parsed_return\<close>)
  then show ?thesis unfolding b Let_def prod.case by (rule parsed_peek [OF conjunct2 [OF bg]])
qed

lemma pipe_tail:
  assumes "\<And>s. suffix s l \<Longrightarrow> parsed_ok l (parsepipe n s)" "good_cmd (word_in l) c" "suffix s l"
  shows "parsed_ok l (let (ok, s) = peek s [124]
     in if ok then pbind (parsepipe n (next_ps (gettoken s))) (\<lambda>right s. Some (Ok (PIPE c right, s))) else Some (Ok (c, s)))"
proof -
  have "parsed_ok l (if ok then pbind (parsepipe n (next_ps (gettoken s3))) (\<lambda>right s. Some (Ok (PIPE c right, s))) else Some (Ok (c, s3)))"
    if s3: "suffix s3 l" for ok s3
  proof (cases ok)
    case True
    have "parsed_ok l (pbind (parsepipe n (next_ps (gettoken s3))) (\<lambda>right s. Some (Ok (PIPE c right, s))))"
      by (rule parsed_bind [OF assms(1) [OF suffix_next [OF s3]]]) (use assms(2) in \<open>simp add: parsed_return\<close>)
    then show ?thesis using True by simp
  qed (use assms(2) s3 in \<open>simp add: parsed_return\<close>)
  then show ?thesis unfolding Let_def by (rule parsed_peek [OF assms(3)])
qed

lemma block_tail:
  assumes "good_cmd (word_in l) c" "suffix s l"
  shows "parsed_ok l (let (ok, s) = peek s [41] in if \<not> ok then Some (Panic ''syntax - missing )'') else Some (parseredirs c (next_ps (gettoken s))))"
proof -
  have "parsed_ok l (if \<not> ok then Some (Panic ''syntax - missing )'') else Some (parseredirs c (next_ps (gettoken s3))))" if "suffix s3 l" for ok s3
    using parseredirs_parsed [OF assms(1) suffix_next [OF that]] by (simp add: parsed_ok_def)
  then show ?thesis unfolding Let_def by (rule parsed_peek [OF assms(2)])
qed

lemma parser_good:
  "\<forall>s. suffix s l \<longrightarrow> parsed_ok l (parseline n s) \<and> parsed_ok l (parsepipe n s) \<and> parsed_ok l (parseexec n s) \<and> parsed_ok l (parseblock n s)"
proof (induction n)
  case (Suc n)
  have "parsed_ok l (parseline (Suc n) s)" if "suffix s l" for s
    unfolding parseline.simps by (rule parsed_bind) (use Suc that line_tail in blast)+
  moreover have "parsed_ok l (parsepipe (Suc n) s)" if "suffix s l" for s
    unfolding parsepipe.simps by (rule parsed_bind) (use Suc that pipe_tail in blast)+
  moreover have "parsed_ok l (parseexec (Suc n) s)" if "suffix s l" for s
    unfolding parseexec.simps Let_def by (rule parsed_peek [OF that]) (use Suc exec_parsed in auto)
  moreover have "parsed_ok l (pbind (parseline n (next_ps (gettoken s))) (\<lambda>cmd s.
                let (ok, s) = peek s [41] in if \<not> ok then Some (Panic ''syntax - missing )'') else Some (parseredirs cmd (next_ps (gettoken s)))))"
    if "suffix s l" for s
    by (rule parsed_bind) (use Suc suffix_next [OF that] block_tail in blast)+
  then have "parsed_ok l (parseblock (Suc n) s)" if "suffix s l" for s
    unfolding parseblock.simps Let_def [of "peek s [40]"] by (intro parsed_peek [OF that]) (auto simp: parsed_ok_def)
  ultimately show ?case by blast
qed (simp add: parsed_ok_def)

section \<open>The depth of the calls\<close>

lemma pbind_some: "r \<noteq> None \<Longrightarrow> (\<And>c s. r = Some (Ok (c, s)) \<Longrightarrow> f c s \<noteq> None) \<Longrightarrow> pbind r f \<noteq> None"
  by (auto simp: pbind_def split: option.splits kres.splits)

lemma pbind_return [simp]: "pbind r (\<lambda>c s. Some (g c s)) = None \<longleftrightarrow> r = None"
  by (auto simp: pbind_def split: option.splits kres.splits)

lemma parser_rest:
  assumes "parseline n s = Some (Ok (c, s')) \<or> parsepipe n s = Some (Ok (c, s')) \<or> parseexec n s = Some (Ok (c, s'))"
  shows "length s' \<le> length s"
  using parser_good [rule_format, of s s n, OF suffix_order.refl] assms unfolding parsed_ok_def by (blast dest: suffix_length_le)

lemma back_loop_rest: "back_loop c s = (c', s') \<Longrightarrow> length s' \<le> length s"
proof (induction c s arbitrary: c' s' rule: back_loop.induct)
  case (1 c s)
  obtain ok s1 where p: "peek s [38] = (ok, s1)" by fastforce
  show ?case
  proof (cases ok)
    case True
    then have "back_loop (BACK c) (next_ps (gettoken s1)) = (c', s')" using 1(2) p by (subst (asm) back_loop.simps) simp
    then have "length s' \<le> length (next_ps (gettoken s1))" using 1(1) [OF p [symmetric] refl True] by simp
    then show ?thesis using suffix_length_le [OF next_suffix [of s1]] peek_rest [OF p] by linarith
  qed (use 1(2) p peek_rest [OF p] in \<open>subst (asm) back_loop.simps, simp\<close>)
qed

lemma peek_next: "peek s toks = (True, s') \<Longrightarrow> length (next_ps (gettoken s')) < length s"
  using peek_rest [of s toks] gettoken_shorter [of s'] by fastforce

lemma fuel_enough:
  "\<forall>s. (4 * length s + 4 \<le> n \<longrightarrow> parseline n s \<noteq> None) \<and> (4 * length s + 3 \<le> n \<longrightarrow> parsepipe n s \<noteq> None) \<and>
       (4 * length s + 2 \<le> n \<longrightarrow> parseexec n s \<noteq> None) \<and> (4 * length s + 1 \<le> n \<longrightarrow> parseblock n s \<noteq> None)"
proof (induction n)
  case (Suc n)
  have "parseline (Suc n) s \<noteq> None" if f: "4 * length s + 4 \<le> Suc n" for s
    unfolding parseline.simps
  proof (rule pbind_some)
    show "parsepipe n s \<noteq> None" using Suc f by simp
    fix c s1 assume "parsepipe n s = Some (Ok (c, s1))"
    then have "length s1 \<le> length s" using parser_rest by blast
    moreover obtain c2 s2 where b: "back_loop c s1 = (c2, s2)" by fastforce
    moreover obtain ok s3 where p: "peek s2 [59] = (ok, s3)" by fastforce
    ultimately have "ok \<Longrightarrow> length (next_ps (gettoken s3)) < length s" using back_loop_rest [OF b] peek_next [of s2 "[59]" s3] by fastforce
    then have "ok \<Longrightarrow> parseline n (next_ps (gettoken s3)) \<noteq> None" using Suc f by simp
    then show "(let (cmd, s) = back_loop c s1; (ok, s) = peek s [59]
       in if ok then pbind (parseline n (next_ps (gettoken s))) (\<lambda>right s. Some (Ok (LIST cmd right, s))) else Some (Ok (cmd, s))) \<noteq> None"
      unfolding b p Let_def prod.case by (cases ok) (simp_all del: not_None_eq)
  qed
  moreover have "parsepipe (Suc n) s \<noteq> None" if f: "4 * length s + 3 \<le> Suc n" for s
    unfolding parsepipe.simps
  proof (rule pbind_some)
    show "parseexec n s \<noteq> None" using Suc f by simp
    fix c s1 assume "parseexec n s = Some (Ok (c, s1))"
    then have "length s1 \<le> length s" using parser_rest by blast
    moreover obtain ok s3 where p: "peek s1 [124] = (ok, s3)" by fastforce
    ultimately have "ok \<Longrightarrow> length (next_ps (gettoken s3)) < length s" using peek_next [of s1 "[124]" s3] by fastforce
    then have "ok \<Longrightarrow> parsepipe n (next_ps (gettoken s3)) \<noteq> None" using Suc f by simp
    then show "(let (ok, s) = peek s1 [124]
       in if ok then pbind (parsepipe n (next_ps (gettoken s))) (\<lambda>right s. Some (Ok (PIPE c right, s))) else Some (Ok (c, s))) \<noteq> None"
      unfolding p Let_def prod.case by (cases ok) (simp_all del: not_None_eq)
  qed
  moreover have "parseexec (Suc n) s \<noteq> None" if f: "4 * length s + 2 \<le> Suc n" for s
  proof -
    obtain ok s1 where p: "peek s [40] = (ok, s1)" by fastforce
    have "4 * length s1 + 1 \<le> n" using f peek_rest [OF p] by linarith
    then have "parseblock n s1 \<noteq> None" using Suc by blast
    then show ?thesis unfolding parseexec.simps p Let_def prod.case by simp
  qed
  moreover have "parseblock (Suc n) s \<noteq> None" if f: "4 * length s + 1 \<le> Suc n" for s
  proof -
    obtain ok s1 where p: "peek s [40] = (ok, s1)" by fastforce
    have "ok \<Longrightarrow> parseline n (next_ps (gettoken s1)) \<noteq> None" using Suc f peek_next [of s "[40]" s1] p by simp
    then have "ok \<Longrightarrow> pbind (parseline n (next_ps (gettoken s1))) (\<lambda>cmd s. case peek s [41] of (ok, s) \<Rightarrow>
        if \<not> ok then Some (Panic ''syntax - missing )'') else Some (parseredirs cmd (next_ps (gettoken s)))) \<noteq> None"
      by (rule pbind_some) (simp_all split: prod.splits)
    then show ?thesis unfolding parseblock.simps p Let_def prod.case by (cases ok) (simp_all del: not_None_eq)
  qed
  ultimately show ?case by blast
qed simp

section \<open>Terminating the words\<close>

definition cstring_at :: "u8 list \<Rightarrow> nat \<Rightarrow> u8 list" where
  "cstring_at buf i = takeWhile (\<lambda>c. c \<noteq> 0) (drop i buf)"

lemma fold_nul: "i < length buf \<Longrightarrow> fold (nul_at n) ws buf ! i = (if \<exists>w \<in> set ws. ptr_index n (snd w) = i then 0 else buf ! i) \<and> length (fold (nul_at n) ws buf) = length buf"
  by (induction ws arbitrary: buf) (auto simp: nul_at_def nth_list_update)

lemma nulterminate_nth:
  "i < length buf \<Longrightarrow> nulterminate n c buf ! i = (if \<exists>w \<in> set_cmd c. ptr_index n (snd w) = i then 0 else buf ! i) \<and> length (nulterminate n c buf) = length buf"
proof (induction c arbitrary: buf)
  case (EXEC args)
  then show ?case using fold_nul [of i buf n args] by simp
next
  case (REDIR c f m d)
  show ?case using REDIR(1) [OF REDIR(2)] REDIR(2) by (cases "ptr_index n (snd f) = i") (simp_all add: nul_at_def)
next
  case (PIPE l r)
  then show ?case using PIPE(1) [OF PIPE(3)] PIPE(2) [of "nulterminate n l buf"] by auto
next
  case (LIST l r)
  then show ?case using LIST(1) [OF LIST(3)] LIST(2) [of "nulterminate n l buf"] by auto
next
  case (BACK c)
  then show ?case by simp
qed

lemma good_word_nonzero: "0 \<notin> set s \<Longrightarrow> word_in s (q, e) \<Longrightarrow> 0 \<notin> set q"
  by (auto simp: word_in_def suffix_def)

lemma takeWhile_nul: "0 \<notin> set t \<Longrightarrow> takeWhile (\<lambda>c. c \<noteq> 0) (t @ 0 # y) = (t :: u8 list)"
  by (induction t) auto

lemma word_read:
  assumes s: "0 \<notin> set s" and c: "good_cmd (word_in s) c" and w: "w \<in> set_cmd c"
  shows "cstring_at (nulterminate (length s) c (s @ [0])) (ptr_index (length s) (fst w)) = text_of w"
proof -
  obtain q e where qe: "w = (q, e)" by fastforce
  have "word_in s (q, e)" using good_cmd_words [OF c w] qe by simp
  then obtain p t where p: "s = p @ q" "q = t @ e" "good_word t" "ends_word e" by (auto simp: word_in_def suffix_def)
  let ?n = "length s" and ?b = "nulterminate (length s) c (s @ [0])"
  have len: "length ?b = ?n + 1" using nulterminate_nth [of 0 "s @ [0]" ?n c] by simp
  have at: "?b ! (length p + i) = t ! i" if i: "i < length t" for i
  proof -
    have "ptr_index ?n (snd v) \<noteq> length p + i" if v: "v \<in> set_cmd c" for v
    proof
      assume x: "ptr_index ?n (snd v) = length p + i"
      have "word_in s v" by (rule good_cmd_words [OF c v])
      then have sf: "suffix (snd v) s" and ew: "ends_word (snd v)" by (auto simp: word_in_def intro: suffix_order.trans [OF suffixI] split: prod.splits)
      then obtain p' where p': "s = p' @ snd v" by (auto simp: suffix_def)
      have "length p' = length p + i" using x p' by (simp add: ptr_index_def)
      moreover have "snd v = drop (length p') s" by (subst p') simp
      ultimately have "snd v = drop i t @ e" using p(1,2) i by simp
      then have "hd (snd v) = t ! i" "snd v \<noteq> []" using i by (simp_all add: hd_append hd_drop_conv_nth)
      then show False using ew p(3) i by (auto simp: ends_word_def good_word_def)
    qed
    then have "?b ! (length p + i) = (s @ [0]) ! (length p + i)" using nulterminate_nth [of "length p + i" "s @ [0]" ?n c] p i by auto
    then show ?thesis using p i by (simp add: nth_append)
  qed
  have e: "?b ! (length p + length t) = 0"
  proof -
    have "ptr_index ?n (snd w) = length p + length t" using p qe by (simp add: ptr_index_def)
    then show ?thesis using nulterminate_nth [of "length p + length t" "s @ [0]" ?n c] w p by auto
  qed
  have "drop (length p) ?b = t @ 0 # drop (Suc (length p + length t)) ?b"
    by (rule nth_equalityI) (use len p at e in \<open>auto simp: nth_append nth_Cons' not_less\<close>)
  moreover have "0 \<notin> set t" using s p by auto
  note takeWhile_nul [OF this]
  ultimately show ?thesis using p qe by (simp add: cstring_at_def ptr_index_def text_of_def)
qed

end
