(* ===== verification/Sh_Correct.thy ===== *)
theory Sh_Correct
  imports Sh
begin

text \<open>
  The shell's parser reads back what a printer writes. Commands over byte strings are printed with the
  parentheses they need; every level of the recursive descent parses what the printer writes at that
  level, whatever may follow it there.
\<close>

section \<open>Printing and parsing\<close>

definition redir_op :: "int \<Rightarrow> int \<Rightarrow> u8 list" where
  "redir_op m d = (if (m, d) = redir_mode 60 then [60] else if (m, d) = redir_mode 62 then [62] else [62, 62])"

definition redir_text :: "u8 list \<Rightarrow> int \<Rightarrow> int \<Rightarrow> u8 list" where
  "redir_text f m d = redir_op m d @ f @ [32]"

definition paren :: "bool \<Rightarrow> u8 list \<Rightarrow> u8 list" where
  "paren b x = (if b then [40] @ x @ [41] else x)"

text \<open>The text of a command at the level of a line (0), before an ampersand (1), of a pipeline (2), and
  of a single command (3), in parentheses where it is needed.\<close>

fun show_cmd :: "nat \<Rightarrow> u8 list cmd \<Rightarrow> u8 list" where
  "show_cmd k (LIST l r) = paren (k > 0) (show_cmd 1 l @ [59] @ show_cmd 0 r)"
| "show_cmd k (BACK c) = paren (k > 1) (show_cmd 1 c @ [38])"
| "show_cmd k (PIPE l r) = paren (k > 2) (show_cmd 3 l @ [124] @ show_cmd 2 r)"
| "show_cmd k (REDIR c f m d) = show_cmd 3 c @ redir_text f m d"
| "show_cmd k (EXEC args) = concat (map (\<lambda>w. w @ [32]) args)"

text \<open>What may follow a text: the end, or one of the given bytes after blanks.\<close>

definition follows :: "u8 set \<Rightarrow> u8 list \<Rightarrow> bool" where
  "follows F x \<longleftrightarrow> (case skipws x of [] \<Rightarrow> True | c # _ \<Rightarrow> c \<in> F)"

lemma peek_follows: "follows F x \<Longrightarrow> F \<inter> set toks = {} \<Longrightarrow> peek x toks = (False, skipws x)"
  by (auto simp: peek_def Let_def follows_def split: list.splits)

lemma skipws_solid: "\<not> c \<in> set whitespace \<Longrightarrow> skipws (c # x) = c # x"
  by (simp add: skipws_def)

lemma skipws_blank [simp]: "skipws (32 # x) = skipws x"
  by (simp add: skipws_def whitespace_def)

lemma good_wordE:
  assumes "good_word w"
  obtains c r where "w = c # r" "\<not> delim c" "c \<notin> set whitespace"
  using assms by (cases w) (auto simp: good_word_def delim_def)

lemma gettoken_good_word:
  assumes "good_word w"
  shows "gettoken (w @ 32 # x) = (97, w @ 32 # x, 32 # x, skipws x)"
proof -
  obtain c r where w: "w = c # r" "\<not> delim c" "c \<notin> set whitespace" using assms by (rule good_wordE)
  have "dropWhile (\<lambda>c. \<not> delim c) (w @ 32 # x) = 32 # x"
    using assms by (subst dropWhile_append2) (auto simp: good_word_def delim_def whitespace_def)
  moreover have "skipws (w @ 32 # x) = c # r @ 32 # x" using w skipws_solid by simp
  ultimately show ?thesis using gettoken_default [of "w @ 32 # x" c] w by simp
qed

lemma gettoken_symbol:
  assumes "c \<in> {124, 40, 41, 59, 38, 60}"
  shows "gettoken (c # x) = (c, c # x, x, skipws x)"
proof -
  have "skipws (c # x) = c # x" using assms by (intro skipws_solid) (auto simp: whitespace_def)
  then show ?thesis using assms by (auto simp: gettoken_def)
qed

lemma next_symbol: "c \<in> {124, 40, 41, 59, 38, 60} \<Longrightarrow> next_ps (gettoken (c # x)) = skipws x"
  by (simp add: gettoken_symbol next_ps_def)

lemma peek_symbol: "c \<in> set toks \<Longrightarrow> c \<notin> set whitespace \<Longrightarrow> peek (c # x) toks = (True, c # x)"
  by (simp add: peek_def skipws_solid)

lemma peek_skipws [simp]: "peek (skipws x) toks = peek x toks"
  by (simp add: peek_def)

lemma redir_modes_distinct: "redir_mode 60 \<noteq> redir_mode 62" "redir_mode 60 \<noteq> redir_mode 43" "redir_mode 62 \<noteq> redir_mode 43"
  by (simp_all add: redir_mode_def O_RDONLY_def O_WRONLY_def O_CREATE_def O_TRUNC_def)

lemma redir_parse:
  assumes "good_word f" "(m, d) \<in> modes"
  shows "parseredirs_loop rs (redir_text f m d @ x) = parseredirs_loop (rs @ [((f @ 32 # x, 32 # x), m, d)]) (skipws x)"
proof -
  obtain c r where w: "f = c # r" "\<not> delim c" "c \<notin> set whitespace" using assms(1) by (rule good_wordE)
  have c: "c \<noteq> 62" using w(2) by (auto simp: delim_def symbols_def)
  have sk: "skipws (f @ 32 # x) = f @ 32 # x" using w skipws_solid by simp
  have ws: "62 \<notin> set whitespace" "60 \<notin> set whitespace" by (simp_all add: whitespace_def)
  obtain tok where tok: "(m, d) = redir_mode tok" "gettoken (redir_op m d @ f @ 32 # x) = (tok, redir_op m d @ f @ 32 # x, f @ 32 # x, f @ 32 # x)"
    and pk: "peek (redir_op m d @ f @ 32 # x) [60, 62] = (True, redir_op m d @ f @ 32 # x)"
  proof (cases "(m, d) = redir_mode 60")
    case True
    then show ?thesis using that [of 60] gettoken_symbol [of 60 "f @ 32 # x"] sk ws by (simp add: redir_op_def peek_symbol)
  next
    case False
    show ?thesis
    proof (cases "(m, d) = redir_mode 62")
      case True
      have "skipws (62 # f @ 32 # x) = 62 # f @ 32 # x" using ws by (intro skipws_solid)
      then have "gettoken (62 # f @ 32 # x) = (62, 62 # f @ 32 # x, f @ 32 # x, f @ 32 # x)" using sk w(1) c by (simp add: gettoken_def)
      then show ?thesis using that [of 62] True redir_modes_distinct ws by (simp add: redir_op_def peek_symbol)
    next
      case n: False
      have "skipws (62 # 62 # f @ 32 # x) = 62 # 62 # f @ 32 # x" using ws by (intro skipws_solid)
      then have "gettoken (62 # 62 # f @ 32 # x) = (43, 62 # 62 # f @ 32 # x, f @ 32 # x, f @ 32 # x)" using sk by (simp add: gettoken_def)
      moreover have "(m, d) = redir_mode 43" using assms(2) False n by (auto simp: modes_def)
      ultimately show ?thesis using that [of 43] redir_modes_distinct ws by (simp add: redir_op_def peek_symbol)
    qed
  qed
  show ?thesis
    using tok pk gettoken_good_word [OF assms(1), of x] by (subst parseredirs_loop.simps) (simp add: redir_text_def)
qed

lemma parse_skipws:
  "parseredirs_loop rs (skipws s) = parseredirs_loop rs s" "parseexec_loop a rs (skipws s) = parseexec_loop a rs s" "back_loop c (skipws s) = back_loop c s"
  by (subst (1 2) parseredirs_loop.simps, simp) (subst (1 2) parseexec_loop.simps, simp, subst (1 2) back_loop.simps, simp)

lemma parser_skipws: "parseexec n (skipws s) = parseexec n s" "parsepipe n (skipws s) = parsepipe n s" "parseline n (skipws s) = parseline n s"
proof -
  have e: "parseexec n (skipws s) = parseexec n s" for n by (cases n) simp_all
  have p: "parsepipe n (skipws s) = parsepipe n s" for n by (cases n) (simp_all add: e)
  show "parseexec n (skipws s) = parseexec n s" "parsepipe n (skipws s) = parsepipe n s" "parseline n (skipws s) = parseline n s"
    by (rule e, rule p) (cases n; simp add: p)
qed

definition text_redir :: "redir \<Rightarrow> u8 list \<times> int \<times> int" where
  "text_redir r = (text_of (fst r), snd r)"

definition redirs_text :: "(u8 list \<times> int \<times> int) list \<Rightarrow> u8 list" where
  "redirs_text ds = concat (map (\<lambda>(f, m, d). redir_text f m d) ds)"

definition words_text :: "u8 list list \<Rightarrow> u8 list" where
  "words_text ws = concat (map (\<lambda>w. w @ [32]) ws)"

definition good_redirections :: "(u8 list \<times> int \<times> int) list \<Rightarrow> bool" where
  "good_redirections ds \<longleftrightarrow> (\<forall>(f, md) \<in> set ds. good_word f \<and> md \<in> modes)"

lemma text_of_word: "text_of (w @ x, x) = w"
  by (simp add: text_of_def)

lemma text_redir_word: "text_redir ((w @ x, x), md) = (w, md)"
  by (simp add: text_redir_def text_of_word)

lemma redirs_parse:
  assumes "good_redirections ds" "follows F x" "F \<inter> {60, 62} = {}"
  shows "\<exists>ds'. parseredirs_loop rs (redirs_text ds @ x) = Ok (rs @ ds', skipws x) \<and> map text_redir ds' = ds"
  using assms(1)
proof (induction ds arbitrary: rs)
  case Nil
  have "peek x [60, 62] = (False, skipws x)" using assms(2,3) by (intro peek_follows) auto
  then show ?case by (subst parseredirs_loop.simps) (simp add: redirs_text_def)
next
  case (Cons r ds)
  obtain f m d where r: "r = (f, m, d)" by (cases r)
  let ?y = "redirs_text ds @ x"
  have g: "good_word f" "(m, d) \<in> modes" "good_redirections ds" using Cons(2) r by (auto simp: good_redirections_def)
  obtain ds' where ds': "parseredirs_loop (rs @ [((f @ 32 # ?y, 32 # ?y), m, d)]) ?y = Ok ((rs @ [((f @ 32 # ?y, 32 # ?y), m, d)]) @ ds', skipws x)" "map text_redir ds' = ds"
    using Cons(1) [OF g(3)] by blast
  have "parseredirs_loop rs (redirs_text (r # ds) @ x) = Ok (rs @ (((f @ 32 # ?y, 32 # ?y), m, d) # ds'), skipws x)"
    using redir_parse [OF g(1,2), of rs ?y] ds'(1) parse_skipws(1) by (simp add: redirs_text_def r)
  then show ?case using ds'(2) r by (intro exI [of _ "((f @ 32 # ?y, 32 # ?y), m, d) # ds'"]) (simp add: text_redir_word)
qed

lemma exec_end:
  assumes "follows {124, 41, 38, 59} x"
  shows "parseexec_loop args rs x = Ok (args, rs, skipws x)"
proof (cases "skipws x")
  case Nil
  then show ?thesis by (subst parseexec_loop.simps) (simp add: peek_def gettoken_end)
next
  case (Cons c r)
  then have "peek x [124, 41, 38, 59] = (True, skipws x)" using assms by (auto simp: peek_def follows_def)
  then show ?thesis by (subst parseexec_loop.simps) simp
qed

lemma peek_word:
  assumes "good_word w" "\<forall>c \<in> set toks. delim c"
  shows "peek (w @ x) toks = (False, w @ x)"
proof -
  obtain c r where w: "w = c # r" "\<not> delim c" "c \<notin> set whitespace" using assms(1) by (rule good_wordE)
  then show ?thesis using assms(2) skipws_solid [of c "r @ x"] by (auto simp: peek_def)
qed

lemma delim_symbols: "delim 60" "delim 62" "delim 124" "delim 41" "delim 38" "delim 59" "delim 40"
  by (simp_all add: delim_def symbols_def)

lemma words_parse:
  assumes "good_redirections ds" "follows {124, 41, 38, 59} x"
  shows "\<forall>w \<in> set ws. good_word w \<Longrightarrow> length args + length ws < MAXARGS \<Longrightarrow> ws \<noteq> [] \<Longrightarrow>
    \<exists>args' ds'. parseexec_loop args rs (words_text ws @ redirs_text ds @ x) = Ok (args @ args', rs @ ds', skipws x) \<and> map text_of args' = ws \<and> map text_redir ds' = ds"
proof (induction ws arbitrary: args)
  case (Cons w ws)
  have w: "good_word w" using Cons(2) by simp
  let ?y = "words_text ws @ redirs_text ds @ x"
  let ?a = "(w @ 32 # ?y, 32 # ?y)"
  have i: "words_text (w # ws) @ redirs_text ds @ x = w @ 32 # ?y" by (simp add: words_text_def)
  have step: "parseexec_loop args rs (words_text (w # ws) @ redirs_text ds @ x) = kbind (parseredirs_loop rs ?y) (\<lambda>(rs, s). parseexec_loop (args @ [?a]) rs s)"
    unfolding i using peek_word [OF w] gettoken_good_word [OF w, of ?y] Cons(3) parse_skipws(1) [of rs ?y]
    by (subst parseexec_loop.simps) (simp add: delim_symbols)
  show ?case
  proof (cases ws)
    case Nil
    obtain ds' where ds': "parseredirs_loop rs ?y = Ok (rs @ ds', skipws x)" "map text_redir ds' = ds"
      using redirs_parse [OF assms, of rs] Nil by (auto simp: words_text_def)
    have "parseexec_loop args rs (words_text (w # ws) @ redirs_text ds @ x) = Ok (args @ [?a], rs @ ds', skipws x)"
      unfolding step ds'(1) using parse_skipws(2) exec_end [OF assms(2)] by simp
    then show ?thesis using ds'(2) Nil by (intro exI [of _ "[?a]"] exI [of _ ds']) (simp add: text_of_word)
  next
    case c: (Cons v vs)
    have v: "good_word v" using Cons(2) c by simp
    then have "peek ?y [60, 62] = (False, ?y)" using peek_word [OF v, of "[60, 62]" "32 # words_text vs @ redirs_text ds @ x"] c by (simp add: words_text_def delim_symbols)
    then have r: "parseredirs_loop rs ?y = Ok (rs, ?y)" by (subst parseredirs_loop.simps) simp
    obtain args' ds' where "parseexec_loop (args @ [?a]) rs ?y = Ok ((args @ [?a]) @ args', rs @ ds', skipws x)" "map text_of args' = ws" "map text_redir ds' = ds"
      using Cons(1) [of "args @ [?a]"] Cons(2,3) c by auto
    then show ?thesis unfolding step r by (intro exI [of _ "?a # args'"] exI [of _ ds']) (simp add: text_of_word)
  qed
qed simp

lemma map_redirs: "map_cmd f (redirs c rs) = redirs (map_cmd f c) (map (\<lambda>(w, md). (f w, md)) rs)"
  by (induction rs rule: rev_induct) (auto simp: redirs_snoc)

lemma text_redir_map: "map (\<lambda>(w, md). (text_of w, md)) rs = map text_redir rs"
  by (auto simp: text_redir_def)

lemma exec_parse:
  assumes g: "good_redirections ds" "\<forall>w \<in> set ws. good_word w" "length ws < MAXARGS" and x: "follows {124, 41, 38, 59} x"
  shows "\<exists>c'. parseexec (Suc n) (words_text ws @ redirs_text ds @ x) = Some (Ok (c', skipws x)) \<and> map_cmd text_of c' = redirs (EXEC ws) ds"
proof -
  let ?s = "words_text ws @ redirs_text ds @ x"
  have r: "\<exists>args ds'. kbind (parseredirs_loop [] ?s) (\<lambda>(rs, s). parseexec_loop [] rs s) = Ok (args, ds', skipws x) \<and> map text_of args = ws \<and> map text_redir ds' = ds"
  proof (cases ws)
    case Nil
    obtain ds' where "parseredirs_loop [] ?s = Ok (ds', skipws x)" "map text_redir ds' = ds"
      using redirs_parse [OF g(1) x, of "[]"] Nil by (auto simp: words_text_def)
    then show ?thesis using Nil parse_skipws(2) exec_end [OF x] by simp
  next
    case (Cons v vs)
    have v: "good_word v" using g(2) Cons by simp
    have "peek ?s [60, 62] = (False, ?s)" using peek_word [OF v, of "[60, 62]" "32 # words_text vs @ redirs_text ds @ x"] Cons by (simp add: words_text_def delim_symbols)
    then have "parseredirs_loop [] ?s = Ok ([], ?s)" by (subst parseredirs_loop.simps) simp
    then show ?thesis using words_parse [OF g(1) x g(2), of "[]" "[]"] g(3) Cons by auto
  qed
  have nb: "peek ?s [40] = (False, skipws ?s)"
  proof (cases ws)
    case (Cons v vs)
    have v: "good_word v" using g(2) Cons by simp
    have s: "?s = v @ 32 # words_text vs @ redirs_text ds @ x" using Cons by (simp add: words_text_def)
    show ?thesis unfolding s using peek_word [OF v, of "[40]" "32 # words_text vs @ redirs_text ds @ x"] delim_symbols by (auto simp: peek_def Let_def)
  next
    case Nil
    show ?thesis
    proof (cases ds)
      case ds: (Cons d ds')
      obtain f m k where d: "d = (f, m, k)" by (cases d)
      have "redir_op m k \<noteq> [] \<and> hd (redir_op m k) \<in> {60, 62}" by (simp add: redir_op_def)
      then obtain c z where c: "?s = c # z" "c \<in> {60, 62}" using Nil ds d by (cases "redir_op m k") (auto simp: words_text_def redirs_text_def redir_text_def)
      then have "skipws ?s = c # z" by (subst c(1), intro skipws_solid) (auto simp: whitespace_def)
      then show ?thesis using c by (auto simp: peek_def)
    next
      case nil: Nil
      show ?thesis using peek_follows [OF x, of "[40]"] Nil nil by (simp add: words_text_def redirs_text_def)
    qed
  qed
  obtain args ds' where a: "kbind (parseredirs_loop [] ?s) (\<lambda>(rs, s). parseexec_loop [] rs s) = Ok (args, ds', skipws x)" "map text_of args = ws" "map text_redir ds' = ds"
    using r by (elim exE conjE) (rule that)
  from kbind_pairE [OF a(1)] obtain rs s1
    where b: "parseexec_loop [] rs s1 = Ok (args, ds', skipws x)" "parseredirs_loop [] ?s = Ok (rs, s1)" .
  have "parseexec (Suc n) ?s = Some (Ok (redirs (EXEC args) ds', skipws x))" 
    unfolding parseexec.simps nb Let_def prod.case if_False parse_skipws(1) b(2) using b(1) by simp
  then show ?thesis using a(2,3) by (simp add: map_redirs text_redir_map)
qed

fun unredir :: "'w cmd \<Rightarrow> 'w cmd \<times> ('w \<times> int \<times> int) list" where
  "unredir (REDIR c f m d) = (fst (unredir c), snd (unredir c) @ [(f, m, d)])"
| "unredir c = (c, [])"

lemma unredir_redirs: "redirs (fst (unredir c)) (snd (unredir c)) = c"
  by (induction c rule: unredir.induct) (simp_all add: redirs_snoc)

lemma unredir_show: "show_cmd 3 c = show_cmd 3 (fst (unredir c)) @ redirs_text (snd (unredir c))"
  by (induction c rule: unredir.induct) (simp_all add: redirs_text_def)

lemma unredir_good:
  "good_cmd good_word c \<Longrightarrow> good_cmd good_word (fst (unredir c)) \<and> good_redirections (snd (unredir c))"
  by (induction c rule: unredir.induct) (auto simp: good_redirections_def)

lemma unredir_size: "size (fst (unredir c)) \<le> size c"
  by (induction c rule: unredir.induct) simp_all

lemma unredir_base: "fst (unredir c) \<noteq> REDIR b f m d"
  by (induction c rule: unredir.induct) simp_all

text \<open>Parsing the text of a command at each level, before what may follow it there.\<close>

definition exec_rt :: "u8 list cmd \<Rightarrow> bool" where
  "exec_rt c \<longleftrightarrow> (\<forall>x n. follows {124, 41, 38, 59} x \<and> 4 * length (show_cmd 3 c @ x) + 2 \<le> n \<longrightarrow>
     (\<exists>c'. parseexec n (show_cmd 3 c @ x) = Some (Ok (c', skipws x)) \<and> map_cmd text_of c' = c))"

definition pipe_rt :: "u8 list cmd \<Rightarrow> bool" where
  "pipe_rt c \<longleftrightarrow> (\<forall>x n. follows {41, 38, 59} x \<and> 4 * length (show_cmd 2 c @ x) + 3 \<le> n \<longrightarrow>
     (\<exists>c'. parsepipe n (show_cmd 2 c @ x) = Some (Ok (c', skipws x)) \<and> map_cmd text_of c' = c))"

definition back_rt :: "u8 list cmd \<Rightarrow> bool" where
  "back_rt c \<longleftrightarrow> (\<forall>x n. follows {41, 38, 59} x \<and> 4 * length (show_cmd 1 c @ x) + 3 \<le> n \<longrightarrow>
     (\<exists>c0 s0 c'. parsepipe n (show_cmd 1 c @ x) = Some (Ok (c0, s0)) \<and> back_loop c0 s0 = back_loop c' (skipws x) \<and> map_cmd text_of c' = c))"

definition line_rt :: "u8 list cmd \<Rightarrow> bool" where
  "line_rt c \<longleftrightarrow> (\<forall>x n. follows {41} x \<and> 4 * length (show_cmd 0 c @ x) + 4 \<le> n \<longrightarrow>
     (\<exists>c'. parseline n (show_cmd 0 c @ x) = Some (Ok (c', skipws x)) \<and> map_cmd text_of c' = c))"

lemma exec_rtE:
  assumes "exec_rt c" "follows {124, 41, 38, 59} x" "4 * length (show_cmd 3 c @ x) + 2 \<le> n"
  obtains c' where "parseexec n (show_cmd 3 c @ x) = Some (Ok (c', skipws x))" "map_cmd text_of c' = c"
  using assms unfolding exec_rt_def by blast

lemma pipe_rtE:
  assumes "pipe_rt c" "follows {41, 38, 59} x" "4 * length (show_cmd 2 c @ x) + 3 \<le> n"
  obtains c' where "parsepipe n (show_cmd 2 c @ x) = Some (Ok (c', skipws x))" "map_cmd text_of c' = c"
  using assms unfolding pipe_rt_def by blast

lemma back_rtE:
  assumes "back_rt c" "follows {41, 38, 59} x" "4 * length (show_cmd 1 c @ x) + 3 \<le> n"
  obtains c0 s0 c' where "parsepipe n (show_cmd 1 c @ x) = Some (Ok (c0, s0))" "back_loop c0 s0 = back_loop c' (skipws x)" "map_cmd text_of c' = c"
  using assms unfolding back_rt_def by blast

lemma line_rtE:
  assumes "line_rt c" "follows {41} x" "4 * length (show_cmd 0 c @ x) + 4 \<le> n"
  obtains c' where "parseline n (show_cmd 0 c @ x) = Some (Ok (c', skipws x))" "map_cmd text_of c' = c"
  using assms unfolding line_rt_def by blast

lemma follows_mono: "follows F x \<Longrightarrow> F \<subseteq> G \<Longrightarrow> follows G x"
  by (auto simp: follows_def split: list.splits)

lemma follows_symbol: "c \<in> F \<Longrightarrow> c \<notin> set whitespace \<Longrightarrow> follows F (c # x)"
  by (simp add: follows_def skipws_solid)

lemma not_blank: "124 \<notin> set whitespace" "41 \<notin> set whitespace" "38 \<notin> set whitespace" "59 \<notin> set whitespace" "40 \<notin> set whitespace"
  by (simp_all add: whitespace_def)

lemma pbind_Ok [simp]: "pbind (Some (Ok (c, s))) f = f c s"
  by (simp add: pbind_def)

lemma back_stop: "follows F x \<Longrightarrow> 38 \<notin> F \<Longrightarrow> back_loop c (skipws x) = (c, skipws x)"
  using peek_follows [of F x "[38]"] by (subst back_loop.simps) simp

lemma exec_pipe:
  assumes "exec_rt c" "show_cmd 2 c = show_cmd 3 c"
  shows "pipe_rt c"
  unfolding pipe_rt_def
proof (intro allI impI, elim conjE)
  fix x n assume x: "follows {41, 38, 59} x" and n: "4 * length (show_cmd 2 c @ x) + 3 \<le> n"
  then obtain k where k: "n = Suc k" by (cases n) auto
  have f: "follows {124, 41, 38, 59} x" using x by (rule follows_mono) auto
  have "4 * length (show_cmd 3 c @ x) + 2 \<le> k" using n k assms(2) by simp
  from exec_rtE [OF assms(1) f this] obtain c' where c': "parseexec k (show_cmd 2 c @ x) = Some (Ok (c', skipws x))" "map_cmd text_of c' = c"
    unfolding assms(2) .
  moreover have "peek x [124] = (False, skipws x)" by (rule peek_follows [OF x]) simp
  ultimately show "\<exists>c'. parsepipe n (show_cmd 2 c @ x) = Some (Ok (c', skipws x)) \<and> map_cmd text_of c' = c" by (simp add: k)
qed

lemma pipe_pipe:
  assumes "exec_rt l" "pipe_rt r"
  shows "pipe_rt (PIPE l r)"
  unfolding pipe_rt_def
proof (intro allI impI, elim conjE)
  fix x n assume x: "follows {41, 38, 59} x" and n: "4 * length (show_cmd 2 (PIPE l r) @ x) + 3 \<le> n"
  then obtain k where k: "n = Suc k" by (cases n) auto
  let ?y = "show_cmd 2 r @ x"
  have t: "show_cmd 2 (PIPE l r) @ x = show_cmd 3 l @ 124 # ?y" by (simp add: paren_def)
  have f: "follows {124, 41, 38, 59} (124 # ?y)" by (rule follows_symbol) (simp_all add: not_blank)
  have nk: "4 * length (show_cmd 3 l @ 124 # ?y) + 2 \<le> k" "4 * length ?y + 3 \<le> k" using n k unfolding t by simp_all
  from exec_rtE [OF assms(1) f nk(1)] obtain l'
    where l': "parseexec k (show_cmd 3 l @ 124 # ?y) = Some (Ok (l', skipws (124 # ?y)))" "map_cmd text_of l' = l" .
  from pipe_rtE [OF assms(2) x nk(2)] obtain r' where r': "parsepipe k ?y = Some (Ok (r', skipws x))" "map_cmd text_of r' = r" .
  have "parsepipe n (show_cmd 2 (PIPE l r) @ x) = Some (Ok (PIPE l' r', skipws x))"
    unfolding t k using l'(1) r'(1) peek_symbol [of 124 "[124]" ?y] not_blank parser_skipws(2) [of k ?y] by (simp add: next_symbol)
  then show "\<exists>c'. parsepipe n (show_cmd 2 (PIPE l r) @ x) = Some (Ok (c', skipws x)) \<and> map_cmd text_of c' = PIPE l r" using l'(2) r'(2) by auto
qed

lemma pipe_back:
  assumes "pipe_rt c" "show_cmd 1 c = show_cmd 2 c"
  shows "back_rt c"
  using assms unfolding pipe_rt_def back_rt_def by metis

lemma back_back:
  assumes "back_rt c"
  shows "back_rt (BACK c)"
  unfolding back_rt_def
proof (intro allI impI, elim conjE)
  fix x n assume x: "follows {41, 38, 59} x" and n: "4 * length (show_cmd 1 (BACK c) @ x) + 3 \<le> n"
  have t: "show_cmd 1 (BACK c) @ x = show_cmd 1 c @ 38 # x" by (simp add: paren_def)
  have f: "follows {41, 38, 59} (38 # x)" by (rule follows_symbol) (simp_all add: not_blank)
  from back_rtE [OF assms f n [unfolded t]] obtain c0 s0 c'
    where c: "parsepipe n (show_cmd 1 c @ 38 # x) = Some (Ok (c0, s0))" "back_loop c0 s0 = back_loop c' (skipws (38 # x))" "map_cmd text_of c' = c" .
  have "back_loop c' (38 # x) = back_loop (BACK c') (skipws x)"
    using peek_symbol [of 38 "[38]" x] not_blank by (subst back_loop.simps) (simp add: next_symbol)
  then show "\<exists>c0 s0 c'. parsepipe n (show_cmd 1 (BACK c) @ x) = Some (Ok (c0, s0)) \<and> back_loop c0 s0 = back_loop c' (skipws x) \<and> map_cmd text_of c' = BACK c"
    unfolding t using c by (intro exI [of _ c0] exI [of _ s0] exI [of _ "BACK c'"]) (simp add: skipws_solid not_blank)
qed

lemma back_line:
  assumes "back_rt c" "show_cmd 0 c = show_cmd 1 c"
  shows "line_rt c"
  unfolding line_rt_def
proof (intro allI impI, elim conjE)
  fix x n assume x: "follows {41} x" and n: "4 * length (show_cmd 0 c @ x) + 4 \<le> n"
  then obtain k where k: "n = Suc k" by (cases n) auto
  have f: "follows {41, 38, 59} x" using x by (rule follows_mono) auto
  have "4 * length (show_cmd 1 c @ x) + 3 \<le> k" using n k assms(2) by simp
  from back_rtE [OF assms(1) f this] obtain c0 s0 c'
    where c: "parsepipe k (show_cmd 0 c @ x) = Some (Ok (c0, s0))" "back_loop c0 s0 = back_loop c' (skipws x)" "map_cmd text_of c' = c"
    unfolding assms(2) .
  have "peek x [59] = (False, skipws x)" by (rule peek_follows [OF x]) simp
  then have "parseline n (show_cmd 0 c @ x) = Some (Ok (c', skipws x))" unfolding k using c(1,2) back_stop [OF x] by simp
  then show "\<exists>c'. parseline n (show_cmd 0 c @ x) = Some (Ok (c', skipws x)) \<and> map_cmd text_of c' = c" using c(3) by blast
qed

lemma line_list:
  assumes "back_rt l" "line_rt r"
  shows "line_rt (LIST l r)"
  unfolding line_rt_def
proof (intro allI impI, elim conjE)
  fix x n assume x: "follows {41} x" and n: "4 * length (show_cmd 0 (LIST l r) @ x) + 4 \<le> n"
  then obtain k where k: "n = Suc k" by (cases n) auto
  let ?y = "show_cmd 0 r @ x"
  have t: "show_cmd 0 (LIST l r) @ x = show_cmd 1 l @ 59 # ?y" by (simp add: paren_def)
  have f: "follows {41, 38, 59} (59 # ?y)" by (rule follows_symbol) (simp_all add: not_blank)
  have nk: "4 * length (show_cmd 1 l @ 59 # ?y) + 3 \<le> k" "4 * length ?y + 4 \<le> k" using n k unfolding t by simp_all
  from back_rtE [OF assms(1) f nk(1)] obtain c0 s0 l'
    where l: "parsepipe k (show_cmd 1 l @ 59 # ?y) = Some (Ok (c0, s0))" "back_loop c0 s0 = back_loop l' (skipws (59 # ?y))" "map_cmd text_of l' = l" .
  from line_rtE [OF assms(2) x nk(2)] obtain r' where r': "parseline k ?y = Some (Ok (r', skipws x))" "map_cmd text_of r' = r" .
  have "follows {59} (59 # ?y)" by (rule follows_symbol) (simp_all add: not_blank)
  then have b: "back_loop c0 s0 = (l', 59 # ?y)" using l(2) back_stop [of "{59}" "59 # ?y"] by (simp add: skipws_solid not_blank)
  have "parseline n (show_cmd 0 (LIST l r) @ x) = Some (Ok (LIST l' r', skipws x))"
    unfolding t k using l(1) b r'(1) peek_symbol [of 59 "[59]" ?y] not_blank parser_skipws(3) [of k ?y] by (simp add: next_symbol)
  then show "\<exists>c'. parseline n (show_cmd 0 (LIST l r) @ x) = Some (Ok (c', skipws x)) \<and> map_cmd text_of c' = LIST l r" using l(3) r'(2) by auto
qed

lemma parseredirs_text:
  assumes "good_redirections ds" "follows {124, 41, 38, 59} x"
  shows "\<exists>c'. parseredirs b (redirs_text ds @ x) = Ok (c', skipws x) \<and> map_cmd text_of c' = redirs (map_cmd text_of b) ds"
proof -
  obtain ds' where "parseredirs_loop [] (redirs_text ds @ x) = Ok (ds', skipws x)" "map text_redir ds' = ds"
    using redirs_parse [OF assms, of "[]"] by auto
  then show ?thesis by (simp add: parseredirs_def map_redirs text_redir_map)
qed

lemma block_parse:
  assumes l: "line_rt b" and g: "good_redirections ds" and x: "follows {124, 41, 38, 59} x"
    and n: "4 * length ([40] @ show_cmd 0 b @ [41] @ redirs_text ds @ x) + 2 \<le> n"
  shows "\<exists>c'. parseexec n ([40] @ show_cmd 0 b @ [41] @ redirs_text ds @ x) = Some (Ok (c', skipws x)) \<and> map_cmd text_of c' = redirs b ds"
proof -
  let ?z = "redirs_text ds @ x"
  let ?y = "show_cmd 0 b @ 41 # ?z"
  obtain k where k: "n = Suc (Suc k)" using n by (cases n; cases "n - 1") auto
  have f: "follows {41} (41 # ?z)" by (rule follows_symbol) (simp_all add: not_blank)
  have nk: "4 * length ?y + 4 \<le> k" using n k by simp
  from line_rtE [OF l f nk] obtain b' where b': "parseline k ?y = Some (Ok (b', skipws (41 # ?z)))" "map_cmd text_of b' = b" .
  obtain c' where c': "parseredirs b' ?z = Ok (c', skipws x)" "map_cmd text_of c' = redirs b ds"
    using parseredirs_text [OF g x, of b'] b'(2) by auto
  have p: "peek (40 # ?y) [40] = (True, 40 # ?y)" "peek (41 # ?z) [41] = (True, 41 # ?z)" by (simp_all add: peek_symbol not_blank)
  have r: "parseredirs b' (skipws ?z) = parseredirs b' ?z" by (simp add: parseredirs_def parse_skipws)
  have s: "skipws (41 # ?z) = 41 # ?z" by (simp add: skipws_solid not_blank)
  have "parseblock (Suc k) (40 # ?y) = Some (Ok (c', skipws x))"
    unfolding parseblock.simps p Let_def prod.case using b'(1) c'(1) p(2) r s parser_skipws(3) [of k ?y] by (simp add: next_symbol)
  then have "parseexec n (40 # ?y) = Some (Ok (c', skipws x))" unfolding k parseexec.simps p Let_def prod.case by simp
  then show ?thesis using c'(2) by simp
qed

lemma exec_rt_block:
  assumes "line_rt (fst (unredir c))" "good_cmd good_word c" "show_cmd 3 (fst (unredir c)) = paren True (show_cmd 0 (fst (unredir c)))"
  shows "exec_rt c"
  unfolding exec_rt_def
proof (intro allI impI, elim conjE)
  fix x n assume x: "follows {124, 41, 38, 59} x" and n: "4 * length (show_cmd 3 c @ x) + 2 \<le> n"
  let ?b = "fst (unredir c)" and ?ds = "snd (unredir c)"
  have t: "show_cmd 3 c @ x = [40] @ show_cmd 0 ?b @ [41] @ redirs_text ?ds @ x"
    unfolding unredir_show [of c] assms(3) by (simp add: paren_def)
  have g: "good_redirections ?ds" using unredir_good [OF assms(2)] by blast
  show "\<exists>c'. parseexec n (show_cmd 3 c @ x) = Some (Ok (c', skipws x)) \<and> map_cmd text_of c' = c"
    using block_parse [OF assms(1) g x n [unfolded t]] unfolding t unredir_redirs .
qed

lemma exec_rt_exec:
  assumes "fst (unredir c) = EXEC ws" "good_cmd good_word c"
  shows "exec_rt c"
  unfolding exec_rt_def
proof (intro allI impI, elim conjE)
  fix x n assume x: "follows {124, 41, 38, 59} x" and n: "4 * length (show_cmd 3 c @ x) + 2 \<le> n"
  let ?ds = "snd (unredir c)"
  obtain k where k: "n = Suc k" using n by (cases n) auto
  have t: "show_cmd 3 c @ x = words_text ws @ redirs_text ?ds @ x"
    unfolding unredir_show [of c] assms(1) by (simp add: words_text_def)
  have g: "good_redirections ?ds" "\<forall>w \<in> set ws. good_word w" "length ws < MAXARGS" using unredir_good [OF assms(2)] assms(1) by auto
  have "redirs (EXEC ws) ?ds = c" using unredir_redirs [of c] assms(1) by simp
  then show "\<exists>c'. parseexec n (show_cmd 3 c @ x) = Some (Ok (c', skipws x)) \<and> map_cmd text_of c' = c"
    using exec_parse [OF g x, of k] unfolding t k by simp
qed

text \<open>Commands without redirections around them, from the inside out.\<close>

lemma rt_chain:
  "exec_rt c \<Longrightarrow> show_cmd 2 c = show_cmd 3 c \<Longrightarrow> show_cmd 1 c = show_cmd 2 c \<Longrightarrow> show_cmd 0 c = show_cmd 1 c \<Longrightarrow> pipe_rt c \<and> back_rt c \<and> line_rt c"
  using exec_pipe pipe_back back_line by blast

lemma show_parse: "good_cmd good_word c \<Longrightarrow> exec_rt c \<and> pipe_rt c \<and> back_rt c \<and> line_rt c"
proof (induction c rule: measure_induct_rule [where f = size])
  case (less c)
  show ?case
  proof (cases c)
    case (EXEC ws)
    have "exec_rt c" using EXEC less(2) by (intro exec_rt_exec [of _ ws]) simp_all
    then show ?thesis using rt_chain [of c] EXEC by simp
  next
    case (REDIR d f m fd)
    have e: "exec_rt c"
    proof (cases "fst (unredir c)")
      case (EXEC ws)
      then show ?thesis using less(2) by (rule exec_rt_exec)
    next
      case (REDIR b f m d)
      then show ?thesis using unredir_base [of c b f m d] by simp
    next
      case (PIPE l r)
      then show ?thesis using less REDIR unredir_size [of d] unredir_good [OF less(2)] by (intro exec_rt_block) (auto simp: paren_def)
    next
      case (LIST l r)
      then show ?thesis using less REDIR unredir_size [of d] unredir_good [OF less(2)] by (intro exec_rt_block) (auto simp: paren_def)
    next
      case (BACK b)
      then show ?thesis using less REDIR unredir_size [of d] unredir_good [OF less(2)] by (intro exec_rt_block) (auto simp: paren_def)
    qed
    then show ?thesis using rt_chain [of c] REDIR by simp
  next
    case (PIPE l r)
    have "exec_rt l" "pipe_rt r" using less PIPE by simp_all
    then have p: "pipe_rt c" unfolding PIPE by (rule pipe_pipe)
    then have b: "back_rt c" by (rule pipe_back) (simp add: PIPE paren_def)
    then have l: "line_rt c" by (rule back_line) (simp add: PIPE paren_def)
    have "exec_rt c" by (rule exec_rt_block) (use l less(2) in \<open>simp_all add: PIPE paren_def\<close>)
    then show ?thesis using p b l by blast
  next
    case (LIST l r)
    have "back_rt l" "line_rt r" using less LIST by simp_all
    then have t: "line_rt c" unfolding LIST by (rule line_list)
    have e: "exec_rt c" by (rule exec_rt_block) (use t less(2) in \<open>simp_all add: LIST paren_def\<close>)
    then have p: "pipe_rt c" by (rule exec_pipe) (simp add: LIST paren_def)
    then have "back_rt c" by (rule pipe_back) (simp add: LIST paren_def)
    then show ?thesis using t e p by blast
  next
    case (BACK d)
    have "back_rt d" using less BACK by simp
    then have b: "back_rt c" unfolding BACK by (rule back_back)
    then have t: "line_rt c" by (rule back_line) (simp add: BACK paren_def)
    have e: "exec_rt c" by (rule exec_rt_block) (use t less(2) in \<open>simp_all add: BACK paren_def\<close>)
    then have "pipe_rt c" by (rule exec_pipe) (simp add: BACK paren_def)
    then show ?thesis using t e b by blast
  qed
qed

lemma follows_end: "follows F []"
  by (simp add: follows_def)

lemma show_no_nul:
  assumes "good_cmd (\<lambda>w. good_word w \<and> 0 \<notin> set w) c"
  shows "0 \<notin> set (show_cmd k c)"
  using assms by (induction k c rule: show_cmd.induct) (auto simp: paren_def redir_text_def redir_op_def)

lemma parsecmd_show:
  assumes "good_cmd good_word c"
  shows "\<exists>c' buf. parsecmd (show_cmd 0 c) = Some (Ok (c', buf)) \<and> map_cmd text_of c' = c"
proof -
  let ?s = "show_cmd 0 c"
  have l: "line_rt c" using show_parse [OF assms] by blast
  have n: "4 * length (show_cmd 0 c @ []) + 4 \<le> parse_fuel ?s" by (simp add: parse_fuel_def)
  from line_rtE [OF l follows_end n] obtain c' where c': "parseline (parse_fuel ?s) ?s = Some (Ok (c', []))" "map_cmd text_of c' = c" by auto
  then show ?thesis by (simp add: parsecmd_def peek_def)
qed

section \<open>Correctness of the parser\<close>

text \<open>The tree as \<open>runcmd\<close> finds it: its words are the C strings at their first pointers in the buffer.\<close>

definition read_cmd :: "nat \<Rightarrow> u8 list \<Rightarrow> tword cmd \<Rightarrow> u8 list cmd" where
  "read_cmd n buf c = map_cmd (\<lambda>w. cstring_at buf (ptr_index n (fst w))) c"

lemma parsecmd_reads:
  assumes z: "0 \<notin> set s" and p: "parsecmd s = Some (Ok (c, buf))"
  shows "read_cmd (length s) buf c = map_cmd text_of c" "good_cmd good_word (map_cmd text_of c)"
proof -
  obtain s' where s': "parseline (parse_fuel s) s = Some (Ok (c, s'))" "buf = nulterminate (length s) c (s @ [0])"
    using p unfolding parsecmd_def pbind_ok by (auto simp: peek_def Let_def split: if_splits)
  have g: "good_cmd (word_in s) c" using parser_good [rule_format, of s s "parse_fuel s", OF suffix_order.refl] s'(1) unfolding parsed_ok_def by blast
  then show "good_cmd good_word (map_cmd text_of c)" unfolding good_cmd_map by (rule good_cmd_mono) (rule word_text)
  show "read_cmd (length s) buf c = map_cmd text_of c"
    unfolding s'(2) read_cmd_def by (rule cmd.map_cong0) (rule word_read [OF z g])
qed

lemma parsecmd_returns: "parsecmd s \<noteq> None"
proof -
  have "parseline (parse_fuel s) s \<noteq> None" using fuel_enough [of "parse_fuel s"] by (simp add: parse_fuel_def)
  then show ?thesis unfolding parsecmd_def by (rule pbind_some) (simp split: prod.splits)
qed

text \<open>
  C16: the shell parses every line. On a line of any length, with any bytes, the parser ends. The tree it
  returns, its words read as C strings from the buffer that nulterminate leaves, is well-formed (commands
  have fewer than MAXARGS words, words are non-empty and free of blanks and symbols, redirections open a
  file in one of the three modes), and each word is exactly the bytes the parser delimited in the line:
  terminating one word never damages another. And every well-formed tree over strings without NULs is the
  result of parsing its printed form, with any nesting of lists, background commands, pipelines,
  redirections and parentheses.\<close>

theorem parsecmd_correct:
  "(\<forall>s. parsecmd s \<noteq> None) \<and>
   (\<forall>s c buf. 0 \<notin> set s \<and> parsecmd s = Some (Ok (c, buf)) \<longrightarrow>
      good_cmd good_word (read_cmd (length s) buf c) \<and> read_cmd (length s) buf c = map_cmd text_of c) \<and>
   (\<forall>c. good_cmd (\<lambda>w. good_word w \<and> 0 \<notin> set w) c \<longrightarrow>
      (\<exists>c' buf. parsecmd (show_cmd 0 c) = Some (Ok (c', buf)) \<and> read_cmd (length (show_cmd 0 c)) buf c' = c))"
proof (intro conjI allI impI)
  fix c :: "u8 list cmd" assume g: "good_cmd (\<lambda>w. good_word w \<and> 0 \<notin> set w) c"
  have "good_cmd good_word c" by (rule good_cmd_mono [OF g]) blast
  then obtain c' buf where p: "parsecmd (show_cmd 0 c) = Some (Ok (c', buf))" "map_cmd text_of c' = c" using parsecmd_show by blast
  then show "\<exists>c' buf. parsecmd (show_cmd 0 c) = Some (Ok (c', buf)) \<and> read_cmd (length (show_cmd 0 c)) buf c' = c"
    using parsecmd_reads(1) [OF show_no_nul [OF g] p(1)] by auto
qed (auto simp: parsecmd_returns parsecmd_reads)

theorem parsecmd_correct_witness:
  "\<exists>c buf. parsecmd [40, 108, 115, 32, 59, 99, 100, 32, 41, 124, 119, 99, 32, 62, 120, 32] = Some (Ok (c, buf)) \<and>
    read_cmd 16 buf c = PIPE (LIST (EXEC [[108, 115]]) (EXEC [[99, 100]])) (REDIR (EXEC [[119, 99]]) [120] 1537 1)"
proof -
  let ?c = "PIPE (LIST (EXEC [[108, 115]]) (EXEC [[99, 100]])) (REDIR (EXEC [[119, 99]]) [120] 1537 1) :: u8 list cmd"
  have m: "redir_mode 62 = (1537, 1)" "redir_mode 60 = (0, 0)"
    by (simp_all add: redir_mode_def O_RDONLY_def O_WRONLY_def O_CREATE_def O_TRUNC_def)
  have s: "show_cmd 0 ?c = [40, 108, 115, 32, 59, 99, 100, 32, 41, 124, 119, 99, 32, 62, 120, 32]"
    by (simp add: paren_def redir_text_def redir_op_def m)
  have "good_cmd (\<lambda>w. good_word w \<and> 0 \<notin> set w) ?c"
    by (simp add: MAXARGS_def modes_def m good_word_def delim_def whitespace_def symbols_def)
  then obtain c buf where p: "parsecmd (show_cmd 0 ?c) = Some (Ok (c, buf))" "read_cmd (length (show_cmd 0 ?c)) buf c = ?c"
    using parsecmd_correct [THEN conjunct2, THEN conjunct2, rule_format, of ?c] by blast
  have "length (show_cmd 0 ?c) = 16" unfolding s by simp
  then have "read_cmd 16 buf c = ?c" using p(2) by simp
  then show ?thesis using p(1) unfolding s by blast
qed

end
