(* ===== verification/Sleeplock.thy ===== *)
theory Sleeplock
  imports Xv6_Prelude
begin

text \<open>
  Sleep locks (kernel/sleeplock.c). Each function runs under the spin lock \<open>lk->lk\<close>, so its body up to
  the end or up to \<open>sleep\<close> is one step. A process is named by its pid. \<open>acquiresleep\<close> is its loop taken
  once: None says that the caller went to sleep on the lock. The waiting processes are part of the state
  of the machine at the end, in which any number of processes use one lock in any interleaving.
\<close>

section \<open>The lock\<close>

record sleeplock =
  sl_locked :: bool
  sl_pid :: u32

definition initsleeplock :: sleeplock where
  "initsleeplock = \<lparr>sl_locked = False, sl_pid = 0\<rparr>"

definition acquiresleep :: "u32 \<Rightarrow> sleeplock \<Rightarrow> sleeplock option" where
  "acquiresleep p lk = (if sl_locked lk then None else Some (lk\<lparr>sl_locked := True, sl_pid := p\<rparr>))"

definition releasesleep :: "sleeplock \<Rightarrow> sleeplock" where
  "releasesleep lk = lk\<lparr>sl_locked := False, sl_pid := 0\<rparr>"

definition holdingsleep :: "u32 \<Rightarrow> sleeplock \<Rightarrow> bool" where
  "holdingsleep p lk \<longleftrightarrow> sl_locked lk \<and> sl_pid lk = p"

section \<open>Many processes\<close>

text \<open>Where a process is: outside, in the loop of \<open>acquiresleep\<close>, asleep there, or past it.\<close>

datatype slpos = Outside | Looping | Asleep | Inside

record slsys =
  sl_lk :: sleeplock
  slat :: "u32 \<Rightarrow> slpos"

definition wakeup_sl :: "(u32 \<Rightarrow> slpos) \<Rightarrow> u32 \<Rightarrow> slpos" where
  "wakeup_sl f = (\<lambda>q. if f q = Asleep then Looping else f q)"

text \<open>A process calls \<open>releasesleep\<close> when \<open>holdingsleep\<close> says that it holds the lock, as the callers in
  the buffer cache and in the file system check first.\<close>

inductive slstep :: "slsys \<Rightarrow> slsys \<Rightarrow> bool" where
  enter: "slat s p = Outside \<Longrightarrow> slstep s (s\<lparr>slat := (slat s)(p := Looping)\<rparr>)"
| get: "slat s p = Looping \<Longrightarrow> acquiresleep p (sl_lk s) = Some lk \<Longrightarrow> slstep s \<lparr>sl_lk = lk, slat = (slat s)(p := Inside)\<rparr>"
| wait: "slat s p = Looping \<Longrightarrow> acquiresleep p (sl_lk s) = None \<Longrightarrow> slstep s (s\<lparr>slat := (slat s)(p := Asleep)\<rparr>)"
| release: "slat s p \<in> {Outside, Inside} \<Longrightarrow> holdingsleep p (sl_lk s) \<Longrightarrow>
    slstep s \<lparr>sl_lk = releasesleep (sl_lk s), slat = (wakeup_sl (slat s))(p := Outside)\<rparr>"

definition slinit :: slsys where
  "slinit = \<lparr>sl_lk = initsleeplock, slat = (\<lambda>_. Outside)\<rparr>"

text \<open>The processes past \<open>acquiresleep\<close> are those for which \<open>holdingsleep\<close> answers yes, and a process
  sleeps only while the lock is taken.\<close>

definition slinv :: "slsys \<Rightarrow> bool" where
  "slinv s \<longleftrightarrow> (\<forall>p. slat s p = Inside \<longleftrightarrow> holdingsleep p (sl_lk s)) \<and> (\<forall>p. slat s p = Asleep \<longrightarrow> sl_locked (sl_lk s)) \<and>
     (\<not> sl_locked (sl_lk s) \<longrightarrow> sl_lk s = initsleeplock)"

lemmas sleeplock_defs = acquiresleep_def releasesleep_def holdingsleep_def wakeup_sl_def initsleeplock_def

lemma slstep_inv:
  assumes "slstep s t" "slinv s"
  shows "slinv t"
proof -
  have i: "slat s p = Inside \<longleftrightarrow> holdingsleep p (sl_lk s)" "slat s p = Asleep \<Longrightarrow> sl_locked (sl_lk s)"
      "\<not> sl_locked (sl_lk s) \<Longrightarrow> sl_lk s = initsleeplock" for p
    using assms(2) unfolding slinv_def by blast+
  show ?thesis
    using assms(1)
  proof cases
    case (enter p)
    then show ?thesis using i(1) [of p] i by (auto simp: slinv_def)
  next
    case (get p lk)
    then show ?thesis using i(1,2) by (auto simp: slinv_def sleeplock_defs split: if_splits)
  next
    case (wait p)
    then show ?thesis using i(1) [of p] i by (auto simp: slinv_def acquiresleep_def split: if_splits)
  next
    case (release p)
    then show ?thesis using i by (auto simp: slinv_def sleeplock_defs)
  qed
qed

lemma slreach_inv: "slstep\<^sup>*\<^sup>* slinit s \<Longrightarrow> slinv s"
proof (induction rule: rtranclp_induct)
  case base
  show ?case by (simp add: slinit_def slinv_def initsleeplock_def holdingsleep_def)
qed (rule slstep_inv)

text \<open>
  Sleep locks exclude each other and lose no wakeup. In every interleaving of any number of processes,
  at most one of them is past \<open>acquiresleep\<close>, it is the one for which \<open>holdingsleep\<close> answers yes, and as
  long as any process sleeps on the lock there is such a process, whose \<open>releasesleep\<close> wakes all sleepers.
\<close>

lemma sleeplock_safe:
  assumes "slstep\<^sup>*\<^sup>* slinit s"
  shows "(\<forall>p q. slat s p = Inside \<and> slat s q = Inside \<longrightarrow> p = q) \<and> (\<forall>p. slat s p = Inside \<longleftrightarrow> holdingsleep p (sl_lk s)) \<and>
    (\<forall>p. slat s p = Asleep \<longrightarrow> (\<exists>q t. slat s q = Inside \<and> slstep s t \<and> slat t q = Outside \<and> slat t p = Looping \<and> acquiresleep p (sl_lk t) \<noteq> None))"
proof -
  have i: "slat s p = Inside \<longleftrightarrow> holdingsleep p (sl_lk s)" "slat s p = Asleep \<Longrightarrow> sl_locked (sl_lk s)" for p
    using slreach_inv [OF assms] unfolding slinv_def by blast+
  have "\<exists>q t. slat s q = Inside \<and> slstep s t \<and> slat t q = Outside \<and> slat t p = Looping \<and> acquiresleep p (sl_lk t) \<noteq> None"
    if p: "slat s p = Asleep" for p
  proof -
    let ?q = "sl_pid (sl_lk s)"
    have h: "holdingsleep ?q (sl_lk s)" using i(2) [OF p] by (simp add: holdingsleep_def)
    then have q: "slat s ?q = Inside" using i(1) by blast
    then have "p \<noteq> ?q" using p by auto
    then show ?thesis using slstep.release [OF _ h] q p
      by (intro exI [of _ ?q] exI [of _ "\<lparr>sl_lk = releasesleep (sl_lk s), slat = (wakeup_sl (slat s))(?q := Outside)\<rparr>"])
        (simp add: sleeplock_defs)
  qed
  then show ?thesis using i(1) by (auto simp: holdingsleep_def)
qed

end
