(* ===== verification/Exec.thy ===== *)
theory Exec
  imports Sysfile
begin

text \<open>
  Creating, ending and replacing processes: fork, exit and userinit of kernel/proc.c, exec and its
  loader (kernel/exec.c, kernel/elf.h).
\<close>

unbundle bit_operations_syntax

section \<open>fork, exit, the first process\<close>

text \<open>\<open>safestrcpy\<close> into an array of \<open>n\<close> bytes that holds \<open>old\<close>.\<close>

definition safestrcpy_bytes :: "nat \<Rightarrow> u8 list \<Rightarrow> u8 list \<Rightarrow> u8 list" where
  "safestrcpy_bytes n old src =
     (let c = take (n - 1) (cstr src) in c @ [0] @ drop (length c + 1) old)"

definition upd_kproc :: "nat \<Rightarrow> (proc \<Rightarrow> proc) \<Rightarrow> kern \<Rightarrow> kern" where
  "upd_kproc i f K = K\<lparr>kpt := upd_proc i f (kpt K)\<rparr>"

definition set_tf :: "nat \<Rightarrow> u64 \<Rightarrow> u64 \<Rightarrow> kern \<Rightarrow> kern" where
  "set_tf i off v K =
     set_kmemory ((kmemory K)\<lparr>pmem := store64 (pmem (kmemory K)) (p_trapframe (p_tab (kpt K) i) + off) v\<rparr>) K"

fun fork_files :: "nat \<Rightarrow> nat list \<Rightarrow> kern \<Rightarrow> kern kres" where
  "fork_files np [] K = Ok K"
| "fork_files np (i # is) K =
     (case p_ofile (mycur K) i of
        None \<Rightarrow> fork_files np is K
      | Some f \<Rightarrow>
          kbind (filedup f K) (\<lambda>K.
            fork_files np is (upd_kproc np (\<lambda>p. p\<lparr>p_ofile := (p_ofile p)(i := Some f)\<rparr>) K)))"

definition fork :: "kenv \<Rightarrow> kern \<Rightarrow> (int \<times> kern) kres" where
  "fork E K =
     kbind (get_pt (allocproc (esym E)) K) (\<lambda>(npo, K).
     case npo of
       None \<Rightarrow> Ok (-1, K)
     | Some np \<Rightarrow>
         let p = mycur K; child = p_tab (kpt K) np in
         kbind (uvmcopy (p_pagetable p) (p_pagetable child) (p_sz p) (kmemory K)) (\<lambda>(r, k).
         let K = set_kmemory k K in
         if r < 0 then
           kbind (get_pt (\<lambda>s. kbind (freeproc np s) (\<lambda>s. Ok ((), s))) K) (\<lambda>(_, K). Ok (-1, K))
         else
           let K = upd_kproc np (\<lambda>c. c\<lparr>p_sz := p_sz p\<rparr>) K;
               K = set_kmemory ((kmemory K)\<lparr>pmem := memmove (pmem (kmemory K)) (p_trapframe child) (p_trapframe p) (ucast sizeof_trapframe)\<rparr>) K;
               K = set_tf np (TF_a 0) 0 K
           in kbind (fork_files np [0..<NOFILE] K) (\<lambda>K.
              let K = K\<lparr>kfs := idup (the (p_cwd p)) (kfs K)\<rparr>;
                  K = upd_kproc np (\<lambda>c. c\<lparr>p_cwd := p_cwd p, p_name := safestrcpy_bytes 16 (p_name c) (p_name p)\<rparr>) K;
                  pid = p_pid (p_tab (kpt K) np);
                  K = upd_kproc np (\<lambda>c. c\<lparr>p_parent := Some (me K)\<rparr>) K;
                  K = upd_kproc np (\<lambda>c. c\<lparr>p_state := RUNNABLE\<rparr>) K
              in Ok (sint pid, K))))"

fun exit_files :: "nat list \<Rightarrow> kern \<Rightarrow> kern kres" where
  "exit_files [] K = Ok K"
| "exit_files (fd # fds) K =
     (case p_ofile (mycur K) fd of
        None \<Rightarrow> exit_files fds K
      | Some f \<Rightarrow> kbind (fileclose f K) (\<lambda>K. exit_files fds (set_ofile fd None K)))"

text \<open>The state in which \<open>exit\<close> gives up the CPU for good.\<close>

definition exit :: "kenv \<Rightarrow> int \<Rightarrow> kern \<Rightarrow> kern kres" where
  "exit E status K =
     (if initproc (kpt K) = Some (me K) then Panic ''init exiting''
      else
        kbind (exit_files [0..<NOFILE] K) (\<lambda>K.
        kbind (do_log begin_op K) (\<lambda>K.
        kbind (do_fs (iput (the (p_cwd (mycur K)))) K) (\<lambda>K.
        kbind (do_log end_op K) (\<lambda>K.
          let K = upd_cur (\<lambda>p. p\<lparr>p_cwd := None\<rparr>) K
          in Ok (K\<lparr>kpt := exit_zombie (esym E) (me K) (of_int status) (kpt K)\<rparr>))))))"

definition initcode :: "u8 list" where
  "initcode = [0x17, 0x05, 0x00, 0x00, 0x13, 0x05, 0x45, 0x02,
     0x97, 0x05, 0x00, 0x00, 0x93, 0x85, 0x35, 0x02,
     0x93, 0x08, 0x70, 0x00, 0x73, 0x00, 0x00, 0x00,
     0x93, 0x08, 0x20, 0x00, 0x73, 0x00, 0x00, 0x00,
     0xef, 0xf0, 0x9f, 0xff, 0x2f, 0x69, 0x6e, 0x69,
     0x74, 0x00, 0x00, 0x24, 0x00, 0x00, 0x00, 0x00,
     0x00, 0x00, 0x00, 0x00]"

definition cstring :: "string \<Rightarrow> u8 list" where
  "cstring s = map (\<lambda>c. of_nat (of_char c)) s"

text \<open>Without a process the code writes through the null pointer, and the fault is a panic of
  \<open>kerneltrap\<close>.\<close>

definition userinit :: "kenv \<Rightarrow> kern \<Rightarrow> kern kres" where
  "userinit E K =
     kbind (get_pt (allocproc (esym E)) K) (\<lambda>(po, K).
     let K = K\<lparr>kpt := (kpt K)\<lparr>initproc := po\<rparr>\<rparr> in
     case po of
       None \<Rightarrow> Panic ''kerneltrap''
     | Some i \<Rightarrow>
         let K = set_kmemory ((kmemory K)\<lparr>pmem := put_bytes (initcode_addr E) initcode (pmem (kmemory K))\<rparr>) K in
         kbind (uvmfirst (p_pagetable (p_tab (kpt K) i)) (initcode_addr E) (of_nat (length initcode)) (kmemory K)) (\<lambda>k.
         let K = upd_kproc i (\<lambda>p. p\<lparr>p_sz := PGSIZE\<rparr>) (set_kmemory k K);
             K = set_tf i TF_epc 0 K;
             K = set_tf i TF_sp PGSIZE K;
             K = upd_kproc i (\<lambda>p. p\<lparr>p_name := safestrcpy_bytes 16 (p_name p) (cstring ''initcode'')\<rparr>) K
         in kbind (k_namei E [SLASH] K) (\<lambda>(cwd, K).
            Ok (upd_kproc i (\<lambda>p. p\<lparr>p_cwd := cwd, p_state := RUNNABLE\<rparr>) K))))"

section \<open>exec\<close>

definition ELF_MAGIC :: u32 where "ELF_MAGIC = 0x464C457F"
definition ELF_PROG_LOAD :: u32 where "ELF_PROG_LOAD = 1"
definition sizeof_elfhdr :: u32 where "sizeof_elfhdr = 64"
definition sizeof_proghdr :: u32 where "sizeof_proghdr = 56"

record elfhdr =
  e_magic :: u32
  e_entry :: u64
  e_phoff :: u64
  e_phnum :: u16

record proghdr =
  ph_type :: u32
  ph_flags :: u32
  ph_off :: u64
  ph_vaddr :: u64
  ph_filesz :: u64
  ph_memsz :: u64

definition get_elfhdr :: "u64 \<Rightarrow> mem \<Rightarrow> elfhdr" where
  "get_elfhdr a m =
     \<lparr>e_magic = le_word (bytes m a 4), e_entry = le_word (bytes m (a + 24) 8),
      e_phoff = le_word (bytes m (a + 32) 8), e_phnum = le_word (bytes m (a + 56) 2)\<rparr>"

definition get_proghdr :: "u64 \<Rightarrow> mem \<Rightarrow> proghdr" where
  "get_proghdr a m =
     \<lparr>ph_type = le_word (bytes m a 4), ph_flags = le_word (bytes m (a + 4) 4),
      ph_off = le_word (bytes m (a + 8) 8), ph_vaddr = le_word (bytes m (a + 16) 8),
      ph_filesz = le_word (bytes m (a + 32) 8), ph_memsz = le_word (bytes m (a + 40) 8)\<rparr>"

definition flags2perm :: "u32 \<Rightarrow> u32" where
  "flags2perm flags =
     (let perm = (if flags AND 1 \<noteq> 0 then ucast PTE_X else 0)
      in if flags AND 2 \<noteq> 0 then perm OR ucast PTE_W else perm)"

text \<open>The counter of the loop is an unsigned int that can wrap, so the loop is not known to end.\<close>

partial_function (option) loadseg_loop :: "kenv \<Rightarrow> u64 \<Rightarrow> u64 \<Rightarrow> nat \<Rightarrow> u32 \<Rightarrow> u32 \<Rightarrow> u32 \<Rightarrow> kern \<Rightarrow> (int \<times> kern) kres option" where
  "loadseg_loop E pagetable va ip offset sz i K =
     (if i < sz then
        case walkaddr pagetable (va + ucast i) (kmemory K) of
          Ok pa \<Rightarrow>
            (if pa = 0 then Some (Panic ''loadseg: address should exist'')
             else
               let n = (if sz - i < ucast PGSIZE then sz - i else ucast PGSIZE)
               in case get_fs (readi (fs_env E K) ip False pa (offset + i) n) K of
                    Ok rK \<Rightarrow>
                      if fst rK \<noteq> sint n then Some (Ok (-1, snd rK))
                      else loadseg_loop E pagetable va ip offset sz (i + ucast PGSIZE) (snd rK)
                  | Panic e \<Rightarrow> Some (Panic e)
                  | Wait e \<Rightarrow> Some (Wait e)
                  | NoReturn \<Rightarrow> None)
        | Panic e \<Rightarrow> Some (Panic e)
        | Wait e \<Rightarrow> Some (Wait e)
        | NoReturn \<Rightarrow> None
      else Some (Ok (0, K)))"

definition loadseg :: "kenv \<Rightarrow> u64 \<Rightarrow> u64 \<Rightarrow> nat \<Rightarrow> u32 \<Rightarrow> u32 \<Rightarrow> kern \<Rightarrow> (int \<times> kern) kres" where
  "loadseg E pagetable va ip offset sz K = returns (loadseg_loop E pagetable va ip offset sz 0 K)"

text \<open>The loop over the program headers: whether it got to the end, and the size so far.\<close>

fun exec_segments :: "kenv \<Rightarrow> u64 \<Rightarrow> nat \<Rightarrow> nat \<Rightarrow> u32 \<Rightarrow> u64 \<Rightarrow> kern \<Rightarrow> (bool \<times> u64 \<times> kern) kres" where
  "exec_segments E pagetable ip 0 off sz K = Ok (True, sz, K)"
| "exec_segments E pagetable ip (Suc n) off sz K =
     kbind (get_fs (readi (fs_env E K) ip False (ph_addr E) off sizeof_proghdr) K) (\<lambda>(r, K).
     if r \<noteq> sint sizeof_proghdr then Ok (False, sz, K)
     else
       let ph = get_proghdr (ph_addr E) (pmem (kmemory K)) in
       if ph_type ph \<noteq> ELF_PROG_LOAD then exec_segments E pagetable ip n (off + sizeof_proghdr) sz K
       else if ph_memsz ph < ph_filesz ph \<or> ph_vaddr ph + ph_memsz ph < ph_vaddr ph \<or> ph_vaddr ph mod PGSIZE \<noteq> 0
       then Ok (False, sz, K)
       else
         kbind (uvmalloc pagetable sz (ph_vaddr ph + ph_memsz ph) (flags2perm (ph_flags ph)) (kmemory K)) (\<lambda>(sz1, k).
         let K = set_kmemory k K in
         if sz1 = 0 then Ok (False, sz, K)
         else
           kbind (loadseg E pagetable (ph_vaddr ph) ip (ucast (ph_off ph)) (ucast (ph_filesz ph)) K) (\<lambda>(r, K).
           if r < 0 then Ok (False, sz1, K)
           else exec_segments E pagetable ip n (off + sizeof_proghdr) sz1 K)))"

text \<open>Pushing the argument strings: the stack pointer and the pointers pushed, or None on failure.\<close>

fun exec_args :: "u64 \<Rightarrow> u64 \<Rightarrow> u64 list \<Rightarrow> u64 \<Rightarrow> u64 list \<Rightarrow> kern \<Rightarrow> ((u64 \<times> u64 list) option \<times> kern) kres" where
  "exec_args pagetable stackbase [] sp ustack K = Ok (Some (sp, ustack), K)"
| "exec_args pagetable stackbase (a # argv) sp ustack K =
     (if length ustack \<ge> MAXARG then Ok (None, K)
      else
        kbind (kstrlen a K) (\<lambda>n.
          let sp = sp - of_int (n + 1);
              sp = sp - sp mod 16
          in if sp < stackbase then Ok (None, K)
             else
               kbind (copyout pagetable sp a (of_int (n + 1)) (kmemory K)) (\<lambda>(r, k).
                 let K = set_kmemory k K
                 in if r < 0 then Ok (None, K) else exec_args pagetable stackbase argv sp (ustack @ [sp]) K)))"

fun last_elem :: "u8 list \<Rightarrow> u8 list \<Rightarrow> u8 list" where
  "last_elem last_s [] = last_s"
| "last_elem last_s (c # s) = (if c = SLASH then last_elem s s else last_elem last_s s)"

definition exec_bad :: "u64 \<Rightarrow> u64 \<Rightarrow> nat option \<Rightarrow> kern \<Rightarrow> (int \<times> kern) kres" where
  "exec_bad pagetable sz ip K =
     kbind (if pagetable \<noteq> 0 then kbind (proc_freepagetable pagetable sz (kmemory K)) (\<lambda>k. Ok (set_kmemory k K)) else Ok K) (\<lambda>K.
     case ip of
       None \<Rightarrow> Ok (-1, K)
     | Some ip \<Rightarrow> kbind (do_fs (iunlockput ip) K) fail_op)"

text \<open>The second half: the stack of the new image, and the commit to it.\<close>

definition exec_stack :: "kenv \<Rightarrow> u8 list \<Rightarrow> u64 list \<Rightarrow> elfhdr \<Rightarrow> u64 \<Rightarrow> u64 \<Rightarrow> kern \<Rightarrow> (int \<times> kern) kres" where
  "exec_stack E pth argv elf pagetable sz K =
     (let oldsz = p_sz (mycur K); sz = PGROUNDUP sz in
      kbind (uvmalloc pagetable sz (sz + 2 * PGSIZE) (ucast PTE_W) (kmemory K)) (\<lambda>(sz1, k).
      let K = set_kmemory k K in
      if sz1 = 0 then exec_bad pagetable sz None K
      else
        let sz = sz1 in
        kbind (uvmclear pagetable (sz - 2 * PGSIZE) (kmemory K)) (\<lambda>k.
        let K = set_kmemory k K; stackbase = sz - PGSIZE in
        kbind (exec_args pagetable stackbase argv sz [] K) (\<lambda>(r, K).
        case r of
          None \<Rightarrow> exec_bad pagetable sz None K
        | Some (sp, ustack) \<Rightarrow>
            let argc = length ustack;
                sp = sp - (of_nat argc + 1) * 8;
                sp = sp - sp mod 16
            in if sp < stackbase then exec_bad pagetable sz None K
               else
                 let K = set_kmemory ((kmemory K)\<lparr>pmem :=
                       put_bytes (ustack_addr E) (concat (map (le_bytes 8) (ustack @ [0]))) (pmem (kmemory K))\<rparr>) K in
                 kbind (copyout pagetable sp (ustack_addr E) ((of_nat argc + 1) * 8) (kmemory K)) (\<lambda>(r, k).
                 let K = set_kmemory k K in
                 if r < 0 then exec_bad pagetable sz None K
                 else
                   let K = set_tf (me K) (TF_a 1) sp K;
                       K = upd_cur (\<lambda>p. p\<lparr>p_name := safestrcpy_bytes 16 (p_name p) (last_elem pth pth)\<rparr>) K;
                       oldpagetable = p_pagetable (mycur K);
                       K = upd_cur (\<lambda>p. p\<lparr>p_pagetable := pagetable, p_sz := sz\<rparr>) K;
                       K = set_tf (me K) TF_epc (e_entry elf) K;
                       K = set_tf (me K) TF_sp sp K
                   in kbind (proc_freepagetable oldpagetable oldsz (kmemory K)) (\<lambda>k.
                      Ok (int argc, set_kmemory k K)))))))"

definition exec :: "kenv \<Rightarrow> u8 list \<Rightarrow> u64 list \<Rightarrow> kern \<Rightarrow> (int \<times> kern) kres" where
  "exec E pth argv K =
     kbind (do_log begin_op K) (\<lambda>K.
     kbind (k_namei E pth K) (\<lambda>(ipo, K).
     case ipo of
       None \<Rightarrow> fail_op K
     | Some ip \<Rightarrow>
         kbind (do_fs (ilock (Some ip)) K) (\<lambda>K.
         kbind (get_fs (readi (fs_env E K) ip False (elf_addr E) 0 sizeof_elfhdr) K) (\<lambda>(r, K).
         if r \<noteq> sint sizeof_elfhdr then exec_bad 0 0 (Some ip) K
         else
           let elf = get_elfhdr (elf_addr E) (pmem (kmemory K)) in
           if e_magic elf \<noteq> ELF_MAGIC then exec_bad 0 0 (Some ip) K
           else
             kbind (proc_pagetable (esym E) (p_trapframe (mycur K)) (kmemory K)) (\<lambda>(pagetable, k).
             let K = set_kmemory k K in
             if pagetable = 0 then exec_bad 0 0 (Some ip) K
             else
               kbind (exec_segments E pagetable ip (unat (e_phnum elf)) (ucast (e_phoff elf)) 0 K) (\<lambda>(ok, sz, K).
               if \<not> ok then exec_bad pagetable sz (Some ip) K
               else
                 kbind (do_fs (iunlockput ip) K) (\<lambda>K.
                 kbind (do_log end_op K) (\<lambda>K. exec_stack E pth argv elf pagetable sz K))))))))"

end
