(* ===== verification/Syscall.thy ===== *)
theory Syscall
  imports Exec
begin

text \<open>
  The process system calls (kernel/sysproc.c), sys_exec of kernel/sysfile.c, the dispatch of system
  calls (kernel/syscall.c, kernel/syscall.h), and traps (kernel/trap.c). A handler returns a value for
  register a0, puts the process to sleep, or ends it. What the hardware and the drivers contribute to
  an interrupt is an argument: the interrupt the PLIC reports and the effect of the two drivers.
\<close>

unbundle bit_operations_syntax

section \<open>Process system calls\<close>

datatype sysres = Ret u64 | Blocks | Exits

definition ret :: "(int \<times> kern) kres \<Rightarrow> (sysres \<times> kern) kres" where
  "ret r = kbind r (\<lambda>(v, K). Ok (Ret (of_int v), K))"

definition ret_progress :: "(progress \<times> kern) kres \<Rightarrow> (sysres \<times> kern) kres" where
  "ret_progress r =
     kbind r (\<lambda>(p, K). case p of Done v \<Rightarrow> Ok (Ret (of_int v), K) | Blocked _ \<Rightarrow> Ok (Blocks, K))"

definition sys_exit :: "kenv \<Rightarrow> kern \<Rightarrow> (sysres \<times> kern) kres" where
  "sys_exit E K = kbind (argint 0 K) (\<lambda>n. kbind (exit E n K) (\<lambda>K. Ok (Exits, K)))"

definition sys_getpid :: "kern \<Rightarrow> (sysres \<times> kern) kres" where
  "sys_getpid K = Ok (Ret (scast (p_pid (mycur K))), K)"

definition sys_fork :: "kenv \<Rightarrow> kern \<Rightarrow> (sysres \<times> kern) kres" where
  "sys_fork E K = ret (fork E K)"

definition sys_wait :: "kenv \<Rightarrow> kern \<Rightarrow> (sysres \<times> kern) kres" where
  "sys_wait E K =
     kbind (argaddr 0 K) (\<lambda>p.
     kbind (get_pt (wait (esym E) (xstate_addr E) (me K) p) K) (\<lambda>(r, K).
       case r of
         Reaped pid \<Rightarrow> Ok (Ret (scast pid), K)
       | Failed \<Rightarrow> Ok (Ret (-1), K)
       | Sleeps \<Rightarrow> Ok (Blocks, K)))"

definition sys_sbrk :: "kern \<Rightarrow> (sysres \<times> kern) kres" where
  "sys_sbrk K =
     kbind (argint 0 K) (\<lambda>n.
       let addr = p_sz (mycur K)
       in kbind (get_pt (growproc (me K) n) K) (\<lambda>(r, K).
            if r < 0 then Ok (Ret (-1), K) else Ok (Ret addr, K)))"

text \<open>One pass of the loop of \<open>sys_sleep\<close>; \<open>ta\<close> is the address of \<open>ticks\<close>. The comparison is unsigned.\<close>

definition sleep_until :: "u64 \<Rightarrow> u32 \<Rightarrow> int \<Rightarrow> kern \<Rightarrow> sysres \<times> kern" where
  "sleep_until ta ticks0 n K =
     (if ticks K - ticks0 < of_int n then
        if p_killed (mycur K) then (Ret (-1), K)
        else (Blocks, K\<lparr>kpt := sleep_begin (me K) ta (kpt K)\<rparr>)
      else (Ret 0, K))"

definition sys_sleep :: "u64 \<Rightarrow> kern \<Rightarrow> (sysres \<times> kern) kres" where
  "sys_sleep ta K = kbind (argint 0 K) (\<lambda>n. Ok (sleep_until ta (ticks K) n K))"

definition sys_kill :: "kern \<Rightarrow> (sysres \<times> kern) kres" where
  "sys_kill K =
     kbind (argint 0 K) (\<lambda>pid.
       case kill (of_int pid) (kpt K) of (r, s) \<Rightarrow> Ok (Ret (of_int r), K\<lparr>kpt := s\<rparr>))"

definition sys_uptime :: "kern \<Rightarrow> (sysres \<times> kern) kres" where
  "sys_uptime K = Ok (Ret (ucast (ticks K)), K)"

section \<open>sys_exec\<close>

fun free_argv :: "u64 list \<Rightarrow> kern \<Rightarrow> kern kres" where
  "free_argv [] K = Ok K"
| "free_argv (a # as) K = kbind (kfree a (kmemory K)) (\<lambda>k. free_argv as (set_kmemory k K))"

text \<open>The pages of the arguments copied in so far, and whether the end of the array was found. The
  first argument is \<open>NELEM(argv) - i\<close>.\<close>

fun fetch_argv :: "nat \<Rightarrow> kenv \<Rightarrow> u64 \<Rightarrow> u64 list \<Rightarrow> kern \<Rightarrow> (bool \<times> u64 list \<times> kern) kres" where
  "fetch_argv 0 E uargv argv K = Ok (False, argv, K)"
| "fetch_argv (Suc n) E uargv argv K =
     kbind (fetchaddr (uargv + 8 * of_nat (length argv)) (arg_addr E) K) (\<lambda>(r, K).
     if r < 0 then Ok (False, argv, K)
     else
       let uarg = load64 (pmem (kmemory K)) (arg_addr E) in
       if uarg = 0 then Ok (True, argv, K)
       else
         (case kalloc (kmemory K) of (pa, k) \<Rightarrow>
            let K = set_kmemory k K in
            if pa = 0 then Ok (False, argv, K)
            else
              kbind (fetchstr uarg pa (unat PGSIZE) K) (\<lambda>(r, K).
              if r < 0 then Ok (False, argv @ [pa], K) else fetch_argv n E uargv (argv @ [pa]) K)))"

definition sys_exec :: "kenv \<Rightarrow> kern \<Rightarrow> (sysres \<times> kern) kres" where
  "sys_exec E K =
     kbind (argaddr 1 K) (\<lambda>uargv.
     kbind (argstr 0 (path_buf E) MAXPATH K) (\<lambda>(r, K).
     if r < 0 then Ok (Ret (-1), K)
     else
       kbind (fetch_argv MAXARG E uargv [] K) (\<lambda>(ok, argv, K).
       if ok then
         kbind (exec E (path_at (path_buf E) K) argv K) (\<lambda>(r, K).
         kbind (free_argv argv K) (\<lambda>K. Ok (Ret (of_int r), K)))
       else kbind (free_argv argv K) (\<lambda>K. Ok (Ret (-1), K)))))"

section \<open>Dispatch\<close>

definition SYS_fork :: int where "SYS_fork = 1"
definition SYS_exit :: int where "SYS_exit = 2"
definition SYS_wait :: int where "SYS_wait = 3"
definition SYS_pipe :: int where "SYS_pipe = 4"
definition SYS_read :: int where "SYS_read = 5"
definition SYS_kill :: int where "SYS_kill = 6"
definition SYS_exec :: int where "SYS_exec = 7"
definition SYS_fstat :: int where "SYS_fstat = 8"
definition SYS_chdir :: int where "SYS_chdir = 9"
definition SYS_dup :: int where "SYS_dup = 10"
definition SYS_getpid :: int where "SYS_getpid = 11"
definition SYS_sbrk :: int where "SYS_sbrk = 12"
definition SYS_sleep :: int where "SYS_sleep = 13"
definition SYS_uptime :: int where "SYS_uptime = 14"
definition SYS_open :: int where "SYS_open = 15"
definition SYS_write :: int where "SYS_write = 16"
definition SYS_mknod :: int where "SYS_mknod = 17"
definition SYS_unlink :: int where "SYS_unlink = 18"
definition SYS_link :: int where "SYS_link = 19"
definition SYS_mkdir :: int where "SYS_mkdir = 20"
definition SYS_close :: int where "SYS_close = 21"

lemmas SYS_defs = SYS_fork_def SYS_exit_def SYS_wait_def SYS_pipe_def SYS_read_def SYS_kill_def
  SYS_exec_def SYS_fstat_def SYS_chdir_def SYS_dup_def SYS_getpid_def SYS_sbrk_def SYS_sleep_def
  SYS_uptime_def SYS_open_def SYS_write_def SYS_mknod_def SYS_unlink_def SYS_link_def SYS_mkdir_def
  SYS_close_def

definition syscalls :: "kenv \<Rightarrow> u64 \<Rightarrow> int \<rightharpoonup> (kern \<Rightarrow> (sysres \<times> kern) kres)" where
  "syscalls E ta =
     [SYS_fork \<mapsto> sys_fork E, SYS_exit \<mapsto> sys_exit E, SYS_wait \<mapsto> sys_wait E,
      SYS_pipe \<mapsto> ret \<circ> sys_pipe E, SYS_read \<mapsto> ret_progress \<circ> sys_read E, SYS_kill \<mapsto> sys_kill,
      SYS_exec \<mapsto> sys_exec E, SYS_fstat \<mapsto> ret \<circ> sys_fstat E, SYS_chdir \<mapsto> ret \<circ> sys_chdir E,
      SYS_dup \<mapsto> ret \<circ> sys_dup, SYS_getpid \<mapsto> sys_getpid, SYS_sbrk \<mapsto> sys_sbrk,
      SYS_sleep \<mapsto> sys_sleep ta, SYS_uptime \<mapsto> sys_uptime, SYS_open \<mapsto> ret \<circ> sys_open E,
      SYS_write \<mapsto> ret_progress \<circ> sys_write E, SYS_mknod \<mapsto> ret \<circ> sys_mknod E,
      SYS_unlink \<mapsto> ret \<circ> sys_unlink E, SYS_link \<mapsto> ret \<circ> sys_link E,
      SYS_mkdir \<mapsto> ret \<circ> sys_mkdir E, SYS_close \<mapsto> ret \<circ> sys_close]"

text \<open>The call number is register a7; \<open>NELEM(syscalls)\<close> is 22. The message about an unknown call is
  printed.\<close>

definition syscall :: "kenv \<Rightarrow> u64 \<Rightarrow> kern \<Rightarrow> (sysres \<times> kern) kres" where
  "syscall E ta K =
     (let num = sint (ucast (load64 (pmem (kmemory K)) (p_trapframe (mycur K) + TF_a 7)) :: u32)
      in case (if num > 0 \<and> num < 22 then syscalls E ta num else None) of
           Some f \<Rightarrow>
             kbind (f K) (\<lambda>(r, K).
               case r of
                 Ret v \<Rightarrow> Ok (Ret v, set_tf (me K) (TF_a 0) v K)
               | _ \<Rightarrow> Ok (r, K))
         | None \<Rightarrow>
             let K = K\<lparr>kfs := fs_printf ''unknown sys call'' (kfs K)\<rparr>
             in Ok (Ret (-1), set_tf (me K) (TF_a 0) (-1) K))"

section \<open>Traps\<close>

definition SSTATUS_SPP :: u64 where "SSTATUS_SPP = push_bit 8 1"
definition SSTATUS_SPIE :: u64 where "SSTATUS_SPIE = push_bit 5 1"
definition SSTATUS_SIE :: u64 where "SSTATUS_SIE = push_bit 1 1"
definition SATP_SV39 :: u64 where "SATP_SV39 = push_bit 60 8"
definition MAKE_SATP :: "u64 \<Rightarrow> u64" where "MAKE_SATP pagetable = SATP_SV39 OR drop_bit 12 pagetable"

definition UART0_IRQ :: int where "UART0_IRQ = 10"
definition VIRTIO0_IRQ :: int where "VIRTIO0_IRQ = 1"

text \<open>The control registers of a hart that trap handling reads and writes.\<close>

record csrs =
  sstatus :: u64
  stvec :: u64
  sepc :: u64
  scause :: u64
  satp :: u64
  sip :: u64
  tp :: u64

definition intr_on :: "csrs \<Rightarrow> csrs" where
  "intr_on c = c\<lparr>sstatus := sstatus c OR SSTATUS_SIE\<rparr>"

definition intr_off :: "csrs \<Rightarrow> csrs" where
  "intr_off c = c\<lparr>sstatus := sstatus c AND NOT SSTATUS_SIE\<rparr>"

definition intr_get :: "csrs \<Rightarrow> bool" where
  "intr_get c \<longleftrightarrow> sstatus c AND SSTATUS_SIE \<noteq> 0"

text \<open>Addresses of trap code, the interrupt source (\<open>irq\<close>, what \<open>plic_claim\<close> returns) and the effect of
  the drivers' interrupt handlers.\<close>

record tenv =
  kernelvec :: u64
  uservec :: u64
  userret :: u64
  usertrap_addr :: u64
  ticks_addr :: u64
  irq :: int
  uart_intr :: "kern \<Rightarrow> kern"
  disk_intr :: "kern \<Rightarrow> kern"

definition trapinithart :: "tenv \<Rightarrow> csrs \<Rightarrow> csrs" where
  "trapinithart T c = c\<lparr>stvec := kernelvec T\<rparr>"

text \<open>\<open>cur\<close> is \<open>myproc()\<close>, None when the hart was in its scheduler.\<close>

definition clockintr :: "tenv \<Rightarrow> nat option \<Rightarrow> kern \<Rightarrow> kern" where
  "clockintr T cur K = K\<lparr>ticks := ticks K + 1, kpt := wakeup cur (ticks_addr T) (kpt K)\<rparr>"

definition devintr :: "tenv \<Rightarrow> nat option \<Rightarrow> csrs \<Rightarrow> kern \<Rightarrow> int \<times> csrs \<times> kern" where
  "devintr T cur c K =
     (if scause c AND 0x8000000000000000 \<noteq> 0 \<and> scause c AND 0xff = 9 then
        let K = (if irq T = UART0_IRQ then uart_intr T K
                 else if irq T = VIRTIO0_IRQ then disk_intr T K
                 else if irq T \<noteq> 0 then K\<lparr>kfs := fs_printf ''unexpected interrupt'' (kfs K)\<rparr>
                 else K)
        in (1, c, K)
      else if scause c = 0x8000000000000001 then
        let K = (if (ucast (tp c) :: u32) = 0 then clockintr T cur K else K)
        in (2, c\<lparr>sip := sip c AND NOT 2\<rparr>, K)
      else (0, c, K))"

text \<open>The registers with which \<open>userret\<close> is entered.\<close>

definition usertrapret :: "kenv \<Rightarrow> tenv \<Rightarrow> csrs \<Rightarrow> kern \<Rightarrow> u64 \<times> u64 \<times> csrs \<times> kern" where
  "usertrapret E T c K =
     (let p = mycur K;
          c = intr_off c;
          c = c\<lparr>stvec := TRAMPOLINE + (uservec T - trampoline (esym E))\<rparr>;
          K = set_tf (me K) TF_kernel_satp (satp c) K;
          K = set_tf (me K) TF_kernel_sp (p_kstack p + PGSIZE) K;
          K = set_tf (me K) TF_kernel_trap (usertrap_addr T) K;
          K = set_tf (me K) TF_kernel_hartid (tp c) K;
          x = sstatus c AND NOT SSTATUS_SPP;
          x = x OR SSTATUS_SPIE;
          c = c\<lparr>sstatus := x\<rparr>;
          c = c\<lparr>sepc := load64 (pmem (kmemory K)) (p_trapframe p + TF_epc)\<rparr>;
          user_satp = MAKE_SATP (p_pagetable p);
          trampoline_userret = TRAMPOLINE + (userret T - trampoline (esym E))
      in (trampoline_userret, user_satp, c, K))"

text \<open>How a trap from user space ends: back in user space, or with the CPU given up because the process
  exits, sleeps or yields.\<close>

datatype trap_end = ToUser u64 u64 | GaveUp

definition usertrap_tail :: "kenv \<Rightarrow> tenv \<Rightarrow> int \<Rightarrow> csrs \<Rightarrow> kern \<Rightarrow> (trap_end \<times> csrs \<times> kern) kres" where
  "usertrap_tail E T which_dev c K =
     (if p_killed (mycur K) then kbind (exit E (-1) K) (\<lambda>K. Ok (GaveUp, c, K))
      else if which_dev = 2 then Ok (GaveUp, c, K\<lparr>kpt := yield (me K) (kpt K)\<rparr>)
      else case usertrapret E T c K of (pc, a0, c, K) \<Rightarrow> Ok (ToUser pc a0, c, K))"

definition usertrap :: "kenv \<Rightarrow> tenv \<Rightarrow> csrs \<Rightarrow> kern \<Rightarrow> (trap_end \<times> csrs \<times> kern) kres" where
  "usertrap E T c K =
     (if sstatus c AND SSTATUS_SPP \<noteq> 0 then Panic ''usertrap: not from user mode''
      else
        let c = c\<lparr>stvec := kernelvec T\<rparr>;
            K = set_tf (me K) TF_epc (sepc c) K
        in if scause c = 8 then
             if p_killed (mycur K) then kbind (exit E (-1) K) (\<lambda>K. Ok (GaveUp, c, K))
             else
               let K = set_tf (me K) TF_epc (load64 (pmem (kmemory K)) (p_trapframe (mycur K) + TF_epc) + 4) K;
                   c = intr_on c
               in kbind (syscall E (ticks_addr T) K) (\<lambda>(r, K).
                  case r of
                    Ret _ \<Rightarrow> usertrap_tail E T 0 c K
                  | _ \<Rightarrow> Ok (GaveUp, c, K))
           else
             (case devintr T (Some (me K)) c K of (which_dev, c, K) \<Rightarrow>
                if which_dev \<noteq> 0 then usertrap_tail E T which_dev c K
                else
                  let K = K\<lparr>kfs := fs_printf ''usertrap(): unexpected scause'' (kfs K)\<rparr>;
                      K = K\<lparr>kpt := setkilled (me K) (kpt K)\<rparr>
                  in usertrap_tail E T 0 c K))"

text \<open>A trap in the kernel: whether it yields before returning to the interrupted code.\<close>

definition kerneltrap :: "tenv \<Rightarrow> nat option \<Rightarrow> csrs \<Rightarrow> kern \<Rightarrow> (bool \<times> csrs \<times> kern) kres" where
  "kerneltrap T cur c K =
     (let sepc0 = sepc c; sstatus0 = sstatus c
      in if sstatus0 AND SSTATUS_SPP = 0 then Panic ''kerneltrap: not from supervisor mode''
         else if intr_get c then Panic ''kerneltrap: interrupts enabled''
         else
           (case devintr T cur c K of (which_dev, c, K) \<Rightarrow>
              if which_dev = 0 then Panic ''kerneltrap''
              else
                let y = (which_dev = 2 \<and> (case cur of None \<Rightarrow> False | Some i \<Rightarrow> p_state (p_tab (kpt K) i) = RUNNING));
                    K = (if y then K\<lparr>kpt := yield (the cur) (kpt K)\<rparr> else K)
                in Ok (y, c\<lparr>sepc := sepc0, sstatus := sstatus0\<rparr>, K)))"

end
