(* ===== verification/Virtio.thy ===== *)
theory Virtio
  imports Ring Bio Kalloc
begin

text \<open>
  The virtio disk driver (kernel/virtio_disk.c, kernel/virtio.h). The state holds struct disk, the rings
  it shares with the device, the buffers, and for every process where it stands in \<open>virtio_disk_rw\<close>;
  the device contributes its position in the avail ring, the requests it has taken and the medium.
  The critical sections of \<open>vdisk_lock\<close> are atomic: a request is a first part up to the sleep on the
  descriptors or on the buffer, and a last part after the buffer is done. Addresses that the driver
  gives to the device are those of three kinds of objects, and are named by a datatype. Initialisation
  is a separate function over the page allocator; the state after it is \<open>vinit\<close>.
\<close>

unbundle bit_operations_syntax

definition NUM :: nat where "NUM = 8"
definition VRING_DESC_F_NEXT :: u16 where "VRING_DESC_F_NEXT = 1"
definition VRING_DESC_F_WRITE :: u16 where "VRING_DESC_F_WRITE = 2"
definition VIRTIO_BLK_T_IN :: u32 where "VIRTIO_BLK_T_IN = 0"
definition VIRTIO_BLK_T_OUT :: u32 where "VIRTIO_BLK_T_OUT = 1"
definition sizeof_blk_req :: u32 where "sizeof_blk_req = 16"

datatype daddr = DNull | DReq nat | DData nat | DStatus nat

record virtq_desc =
  d_addr :: daddr
  d_len :: u32
  d_flags :: u16
  d_next :: u16

record virtio_blk_req =
  rq_type :: u32
  rq_reserved :: u32
  rq_sector :: u64

record vbuf =
  vblockno :: u32
  vdisk :: bool
  vdata :: block

text \<open>A process outside the driver, asleep on \<open>disk.free\<close> for buffer \<open>b\<close>, or asleep on buffer \<open>b\<close>
  with the first descriptor of its chain. The last flag says that it has been woken up.\<close>

datatype vproc = VIdle | WantDesc nat bool bool | WantIO nat bool nat bool

record vstate =
  desc :: "nat \<Rightarrow> virtq_desc"
  avail_ring :: "u16 list"
  avail_idx :: u16
  used_ring :: "u32 list"
  used_ring_idx :: u16
  vfree :: "nat \<Rightarrow> bool"
  used_idx :: u16
  info_b :: "nat \<Rightarrow> nat option"
  info_status :: "nat \<Rightarrow> u8"
  vops :: "nat \<Rightarrow> virtio_blk_req"
  vbufs :: "nat \<Rightarrow> vbuf"
  vprocs :: "nat \<Rightarrow> vproc"
  seen :: u16
  busy :: "nat list"
  media :: "u64 \<Rightarrow> block"

section \<open>The driver\<close>

definition vwake_free :: "vstate \<Rightarrow> vstate" where
  "vwake_free s = s\<lparr>vprocs := \<lambda>p. case vprocs s p of WantDesc b w _ \<Rightarrow> WantDesc b w True | x \<Rightarrow> x\<rparr>"

definition vwake_buf :: "nat \<Rightarrow> vstate \<Rightarrow> vstate" where
  "vwake_buf c s = s\<lparr>vprocs := \<lambda>p. case vprocs s p of WantIO b w i a \<Rightarrow> WantIO b w i (a \<or> b = c) | x \<Rightarrow> x\<rparr>"

text \<open>None is the result -1.\<close>

definition alloc_desc :: "vstate \<Rightarrow> nat option \<times> vstate" where
  "alloc_desc s =
     (case find (vfree s) [0..<NUM] of
        Some i \<Rightarrow> (Some i, s\<lparr>vfree := (vfree s)(i := False)\<rparr>)
      | None \<Rightarrow> (None, s))"

definition no_desc :: virtq_desc where
  "no_desc = \<lparr>d_addr = DNull, d_len = 0, d_flags = 0, d_next = 0\<rparr>"

definition free_desc :: "nat \<Rightarrow> vstate \<Rightarrow> vstate kres" where
  "free_desc i s =
     (if i \<ge> NUM then Panic ''free_desc 1''
      else if vfree s i then Panic ''free_desc 2''
      else Ok (vwake_free (s\<lparr>desc := (desc s)(i := no_desc), vfree := (vfree s)(i := True)\<rparr>)))"

lemma free_desc_fewer:
  assumes "free_desc i s = Ok s'"
  shows "card {j. j < NUM \<and> \<not> vfree s' j} < card {j. j < NUM \<and> \<not> vfree s j}"
proof -
  have "i < NUM" "\<not> vfree s i" "vfree s' = (vfree s)(i := True)"
    using assms by (auto simp: free_desc_def vwake_free_def split: if_splits)
  then have "{j. j < NUM \<and> \<not> vfree s' j} \<subset> {j. j < NUM \<and> \<not> vfree s j}" by auto
  then show ?thesis by (intro psubset_card_mono) simp_all
qed

function free_chain :: "nat \<Rightarrow> vstate \<Rightarrow> vstate kres" where
  "free_chain i s =
     (let flag = d_flags (desc s i);
          nxt = d_next (desc s i)
      in kbind (free_desc i s) (\<lambda>s.
           if flag AND VRING_DESC_F_NEXT \<noteq> 0 then free_chain (unat nxt) s else Ok s))"
  by pat_completeness auto
termination by (relation "measure (\<lambda>(i, s). card {j. j < NUM \<and> \<not> vfree s j})") (auto dest: free_desc_fewer)

declare free_chain.simps [simp del]

definition alloc3_desc :: "vstate \<Rightarrow> ((nat \<times> nat \<times> nat) option \<times> vstate) kres" where
  "alloc3_desc s =
     (case alloc_desc s of
        (None, s) \<Rightarrow> Ok (None, s)
      | (Some i0, s) \<Rightarrow>
          (case alloc_desc s of
             (None, s) \<Rightarrow> kbind (free_desc i0 s) (\<lambda>s. Ok (None, s))
           | (Some i1, s) \<Rightarrow>
               (case alloc_desc s of
                  (None, s) \<Rightarrow> kbind (free_desc i0 s) (\<lambda>s. kbind (free_desc i1 s) (\<lambda>s. Ok (None, s)))
                | (Some i2, s) \<Rightarrow> Ok (Some (i0, i1, i2), s))))"

definition sector_of :: "vbuf \<Rightarrow> u64" where
  "sector_of b = ucast (vblockno b * of_nat (BSIZE div 512))"

text \<open>The three descriptors of a request, the entry of the avail ring, and the notification.\<close>

definition format_request :: "nat \<Rightarrow> bool \<Rightarrow> nat \<Rightarrow> nat \<Rightarrow> nat \<Rightarrow> vstate \<Rightarrow> vstate" where
  "format_request b write i0 i1 i2 s =
     (let s = s\<lparr>vops := (vops s)(i0 := \<lparr>rq_type = (if write then VIRTIO_BLK_T_OUT else VIRTIO_BLK_T_IN), rq_reserved = 0,
                                       rq_sector = sector_of (vbufs s b)\<rparr>)\<rparr>;
          s = s\<lparr>desc := (desc s)(i0 := \<lparr>d_addr = DReq i0, d_len = sizeof_blk_req, d_flags = VRING_DESC_F_NEXT, d_next = of_nat i1\<rparr>)\<rparr>;
          s = s\<lparr>desc := (desc s)(i1 := \<lparr>d_addr = DData b, d_len = of_nat BSIZE,
                                       d_flags = (if write then 0 else VRING_DESC_F_WRITE) OR VRING_DESC_F_NEXT, d_next = of_nat i2\<rparr>)\<rparr>;
          s = s\<lparr>info_status := (info_status s)(i0 := 0xff)\<rparr>;
          s = s\<lparr>desc := (desc s)(i2 := \<lparr>d_addr = DStatus i0, d_len = 1, d_flags = VRING_DESC_F_WRITE, d_next = 0\<rparr>)\<rparr>;
          s = s\<lparr>vbufs := (vbufs s)(b := (vbufs s b)\<lparr>vdisk := True\<rparr>)\<rparr>
      in s\<lparr>info_b := (info_b s)(i0 := Some b)\<rparr>)"

definition avail_put :: "u16 \<Rightarrow> vstate \<Rightarrow> vstate" where
  "avail_put i s = s\<lparr>avail_ring := (avail_ring s)[unat (avail_idx s mod of_nat NUM) := i], avail_idx := avail_idx s + 1\<rparr>"

text \<open>\<open>virtio_disk_rw\<close> of process \<open>p\<close>: the loop around \<open>alloc3_desc\<close> once, which ends asleep on
  \<open>disk.free\<close> or, with the request submitted and \<open>b->disk\<close> set, asleep on the buffer.\<close>

definition virtio_disk_rw_start :: "nat \<Rightarrow> nat \<Rightarrow> bool \<Rightarrow> vstate \<Rightarrow> vstate kres" where
  "virtio_disk_rw_start p b write s =
     kbind (alloc3_desc s) (\<lambda>(r, s).
       case r of
         None \<Rightarrow> Ok (s\<lparr>vprocs := (vprocs s)(p := WantDesc b write False)\<rparr>)
       | Some (i0, i1, i2) \<Rightarrow>
           let s = avail_put (of_nat i0) (format_request b write i0 i1 i2 s)
           in Ok (s\<lparr>vprocs := (vprocs s)(p := WantIO b write i0 False)\<rparr>))"

text \<open>The loop on \<open>b->disk\<close> once, for a process that has been woken up, and the end of the function.\<close>

definition virtio_disk_rw_end :: "nat \<Rightarrow> nat \<Rightarrow> bool \<Rightarrow> nat \<Rightarrow> vstate \<Rightarrow> vstate kres" where
  "virtio_disk_rw_end p b write i0 s =
     (if vdisk (vbufs s b) then Ok (s\<lparr>vprocs := (vprocs s)(p := WantIO b write i0 False)\<rparr>)
      else
        kbind (free_chain i0 (s\<lparr>info_b := (info_b s)(i0 := None)\<rparr>)) (\<lambda>s.
          Ok (s\<lparr>vprocs := (vprocs s)(p := VIdle)\<rparr>)))"

definition used_get :: "vstate \<Rightarrow> u32 \<times> vstate" where
  "used_get s = (used_ring s ! unat (used_idx s mod of_nat NUM), s\<lparr>used_idx := used_idx s + 1\<rparr>)"

definition vclear_disk :: "nat \<Rightarrow> vstate \<Rightarrow> vstate" where
  "vclear_disk b s = s\<lparr>vbufs := (vbufs s)(b := (vbufs s b)\<lparr>vdisk := False\<rparr>)\<rparr>"

text \<open>One completion. Following the null pointer, when no buffer is recorded, is an error.\<close>

definition intr_one :: "vstate \<Rightarrow> vstate kres" where
  "intr_one s =
     (let (id, s') = used_get s
      in if info_status s (unat id) \<noteq> 0 then Panic ''virtio_disk_intr status''
         else case info_b s (unat id) of
                None \<Rightarrow> Panic ''null pointer''
              | Some b \<Rightarrow> Ok (snd (used_get (vwake_buf b (vclear_disk b s)))))"

lemma intr_one_idx: "intr_one s = Ok s' \<Longrightarrow> used_idx s' = used_idx s + 1 \<and> used_ring_idx s' = used_ring_idx s"
  by (auto simp: intr_one_def used_get_def vwake_buf_def vclear_disk_def split: if_splits option.splits)

function virtio_disk_intr :: "vstate \<Rightarrow> vstate kres" where
  "virtio_disk_intr s =
     (if used_idx s \<noteq> used_ring_idx s then kbind (intr_one s) virtio_disk_intr else Ok s)"
  by pat_completeness auto
termination
proof (relation "measure (\<lambda>s. unat (used_ring_idx s - used_idx s))")
  fix s s' assume a: "used_idx s \<noteq> used_ring_idx s" "intr_one s = Ok s'"
  have "Suc (unat (used_ring_idx s - used_idx s - 1)) = unat (used_ring_idx s - used_idx s)"
    by (rule unat_pred_less) (use a(1) in simp)
  then show "(s', s) \<in> measure (\<lambda>s. unat (used_ring_idx s - used_idx s))"
    using intr_one_idx [OF a(2)] by (simp add: algebra_simps)
qed simp

declare virtio_disk_intr.simps [simp del]

section \<open>Initialisation\<close>

definition VIRTIO_MMIO_MAGIC_VALUE :: u32 where "VIRTIO_MMIO_MAGIC_VALUE = 0x000"
definition VIRTIO_MMIO_VERSION :: u32 where "VIRTIO_MMIO_VERSION = 0x004"
definition VIRTIO_MMIO_DEVICE_ID :: u32 where "VIRTIO_MMIO_DEVICE_ID = 0x008"
definition VIRTIO_MMIO_VENDOR_ID :: u32 where "VIRTIO_MMIO_VENDOR_ID = 0x00c"
definition VIRTIO_MMIO_DEVICE_FEATURES :: u32 where "VIRTIO_MMIO_DEVICE_FEATURES = 0x010"
definition VIRTIO_MMIO_DRIVER_FEATURES :: u32 where "VIRTIO_MMIO_DRIVER_FEATURES = 0x020"
definition VIRTIO_MMIO_QUEUE_SEL :: u32 where "VIRTIO_MMIO_QUEUE_SEL = 0x030"
definition VIRTIO_MMIO_QUEUE_NUM_MAX :: u32 where "VIRTIO_MMIO_QUEUE_NUM_MAX = 0x034"
definition VIRTIO_MMIO_QUEUE_NUM :: u32 where "VIRTIO_MMIO_QUEUE_NUM = 0x038"
definition VIRTIO_MMIO_QUEUE_READY :: u32 where "VIRTIO_MMIO_QUEUE_READY = 0x044"
definition VIRTIO_MMIO_STATUS :: u32 where "VIRTIO_MMIO_STATUS = 0x070"
definition VIRTIO_MMIO_QUEUE_DESC_LOW :: u32 where "VIRTIO_MMIO_QUEUE_DESC_LOW = 0x080"
definition VIRTIO_MMIO_QUEUE_DESC_HIGH :: u32 where "VIRTIO_MMIO_QUEUE_DESC_HIGH = 0x084"
definition VIRTIO_MMIO_DRIVER_DESC_LOW :: u32 where "VIRTIO_MMIO_DRIVER_DESC_LOW = 0x090"
definition VIRTIO_MMIO_DRIVER_DESC_HIGH :: u32 where "VIRTIO_MMIO_DRIVER_DESC_HIGH = 0x094"
definition VIRTIO_MMIO_DEVICE_DESC_LOW :: u32 where "VIRTIO_MMIO_DEVICE_DESC_LOW = 0x0a0"
definition VIRTIO_MMIO_DEVICE_DESC_HIGH :: u32 where "VIRTIO_MMIO_DEVICE_DESC_HIGH = 0x0a4"

definition VIRTIO_CONFIG_S_ACKNOWLEDGE :: u32 where "VIRTIO_CONFIG_S_ACKNOWLEDGE = 1"
definition VIRTIO_CONFIG_S_DRIVER :: u32 where "VIRTIO_CONFIG_S_DRIVER = 2"
definition VIRTIO_CONFIG_S_DRIVER_OK :: u32 where "VIRTIO_CONFIG_S_DRIVER_OK = 4"
definition VIRTIO_CONFIG_S_FEATURES_OK :: u32 where "VIRTIO_CONFIG_S_FEATURES_OK = 8"

text \<open>The feature bits that the driver clears, in the order of the code: RO, SCSI, CONFIG_WCE, MQ,
  ANY_LAYOUT, EVENT_IDX, INDIRECT_DESC.\<close>

definition refused_features :: "nat list" where
  "refused_features = [5, 7, 11, 12, 27, 29, 28]"

text \<open>What the device answers to the reads is \<open>reg\<close>: every register is read once, after the writes
  that precede it in the code. The result has the writes in order and the three queue pages.\<close>

definition virtio_disk_init :: "(u32 \<Rightarrow> u32) \<Rightarrow> kst \<Rightarrow> ((u32 \<times> u32) list \<times> u64 \<times> u64 \<times> u64 \<times> kst) kres" where
  "virtio_disk_init reg k =
     (if reg VIRTIO_MMIO_MAGIC_VALUE \<noteq> 0x74726976 \<or> reg VIRTIO_MMIO_VERSION \<noteq> 2 \<or> reg VIRTIO_MMIO_DEVICE_ID \<noteq> 2 \<or> reg VIRTIO_MMIO_VENDOR_ID \<noteq> 0x554d4551
      then Panic ''could not find virtio disk''
      else
        let status0 = 0;
            status1 = status0 OR VIRTIO_CONFIG_S_ACKNOWLEDGE;
            status2 = status1 OR VIRTIO_CONFIG_S_DRIVER;
            features = fold (\<lambda>i f. f AND NOT (push_bit i 1)) refused_features (ucast (reg VIRTIO_MMIO_DEVICE_FEATURES) :: u64);
            status3 = status2 OR VIRTIO_CONFIG_S_FEATURES_OK;
            w1 = [(VIRTIO_MMIO_STATUS, status0), (VIRTIO_MMIO_STATUS, status1), (VIRTIO_MMIO_STATUS, status2),
                  (VIRTIO_MMIO_DRIVER_FEATURES, ucast features), (VIRTIO_MMIO_STATUS, status3)];
            status = reg VIRTIO_MMIO_STATUS
        in if status AND VIRTIO_CONFIG_S_FEATURES_OK = 0 then Panic ''virtio disk FEATURES_OK unset''
           else if reg VIRTIO_MMIO_QUEUE_READY \<noteq> 0 then Panic ''virtio disk should not be ready''
           else if reg VIRTIO_MMIO_QUEUE_NUM_MAX = 0 then Panic ''virtio disk has no queue 0''
           else if reg VIRTIO_MMIO_QUEUE_NUM_MAX < of_nat NUM then Panic ''virtio disk max queue too short''
           else
             let (d, k) = kalloc k; (a, k) = kalloc k; (u, k) = kalloc k
             in if d = 0 \<or> a = 0 \<or> u = 0 then Panic ''virtio disk kalloc''
                else
                  let k = k\<lparr>pmem := memset (pmem k) d 0 (ucast PGSIZE)\<rparr>;
                      k = k\<lparr>pmem := memset (pmem k) a 0 (ucast PGSIZE)\<rparr>;
                      k = k\<lparr>pmem := memset (pmem k) u 0 (ucast PGSIZE)\<rparr>
                  in Ok (w1 @ [(VIRTIO_MMIO_QUEUE_SEL, 0), (VIRTIO_MMIO_QUEUE_NUM, of_nat NUM),
                               (VIRTIO_MMIO_QUEUE_DESC_LOW, ucast d), (VIRTIO_MMIO_QUEUE_DESC_HIGH, ucast (drop_bit 32 d)),
                               (VIRTIO_MMIO_DRIVER_DESC_LOW, ucast a), (VIRTIO_MMIO_DRIVER_DESC_HIGH, ucast (drop_bit 32 a)),
                               (VIRTIO_MMIO_DEVICE_DESC_LOW, ucast u), (VIRTIO_MMIO_DEVICE_DESC_HIGH, ucast (drop_bit 32 u)),
                               (VIRTIO_MMIO_QUEUE_READY, 1), (VIRTIO_MMIO_STATUS, status OR VIRTIO_CONFIG_S_DRIVER_OK)], d, a, u, k))"

section \<open>The device\<close>

text \<open>What the virtio specification says of the device: it takes the entries of the avail ring in
  order, carries out the requests it has taken in any order, follows the chain of descriptors of each,
  writes the status byte and adds the head of the chain to the used ring. The status is 0 for a request
  whose three descriptors have the lengths and flags the specification asks for, and 1 for any other,
  of which no data is transferred. That the medium itself does not fail is an assumption of the model.\<close>

definition dev_fetch :: "vstate \<Rightarrow> u16 \<times> vstate" where
  "dev_fetch s = (avail_ring s ! unat (seen s mod of_nat NUM), s\<lparr>seen := seen s + 1\<rparr>)"

definition dev_take :: "vstate \<Rightarrow> vstate" where
  "dev_take s = (let (h, s) = dev_fetch s in s\<lparr>busy := busy s @ [unat h]\<rparr>)"

definition used_put :: "u32 \<Rightarrow> vstate \<Rightarrow> vstate" where
  "used_put i s = s\<lparr>used_ring := (used_ring s)[unat (used_ring_idx s mod of_nat NUM) := i], used_ring_idx := used_ring_idx s + 1\<rparr>"

definition dev_transfer :: "nat \<Rightarrow> nat \<Rightarrow> vstate \<Rightarrow> vstate" where
  "dev_transfer r b s =
     (if rq_type (vops s r) = VIRTIO_BLK_T_IN
      then s\<lparr>vbufs := (vbufs s)(b := (vbufs s b)\<lparr>vdata := media s (rq_sector (vops s r))\<rparr>)\<rparr>
      else s\<lparr>media := (media s)(rq_sector (vops s r) := vdata (vbufs s b))\<rparr>)"

definition dev_accepts :: "virtq_desc \<Rightarrow> virtq_desc \<Rightarrow> virtq_desc \<Rightarrow> virtio_blk_req \<Rightarrow> bool" where
  "dev_accepts d0 d1 d2 r \<longleftrightarrow>
     d_len d0 = sizeof_blk_req \<and> d_flags d0 = VRING_DESC_F_NEXT \<and>
     d_len d1 = of_nat BSIZE \<and> d_flags d1 = (if rq_type r = VIRTIO_BLK_T_IN then VRING_DESC_F_WRITE else 0) OR VRING_DESC_F_NEXT \<and>
     d_len d2 = 1 \<and> d_flags d2 = VRING_DESC_F_WRITE"

definition dev_complete :: "nat \<Rightarrow> vstate \<Rightarrow> vstate" where
  "dev_complete h s =
     (let d0 = desc s h; d1 = desc s (unat (d_next d0)); d2 = desc s (unat (d_next d1))
      in case (d_addr d0, d_addr d1, d_addr d2) of
           (DReq r, DData b, DStatus j) \<Rightarrow>
             let ok = dev_accepts d0 d1 d2 (vops s r);
                 s = (if ok then dev_transfer r b s else s);
                 s = s\<lparr>info_status := (info_status s)(j := if ok then 0 else 1), busy := remove1 h (busy s)\<rparr>
             in used_put (of_nat h) s
         | _ \<Rightarrow> s)"

section \<open>All interleavings\<close>

definition claims :: "vproc \<Rightarrow> nat option" where
  "claims x = (case x of VIdle \<Rightarrow> None | WantDesc b w a \<Rightarrow> Some b | WantIO b w i a \<Rightarrow> Some b)"

text \<open>The caller holds the sleep lock of its buffer, and the buffer cache keeps one buffer for a block:
  a request starts only when no other process has one for the same block. Between requests the buffers
  are used by their holders, who change their data and block numbers.\<close>

definition may_start :: "nat \<Rightarrow> vstate \<Rightarrow> bool" where
  "may_start b s \<longleftrightarrow> (\<forall>q c. claims (vprocs s q) = Some c \<longrightarrow> sector_of (vbufs s c) \<noteq> sector_of (vbufs s b))"

inductive vstep :: "vstate \<Rightarrow> vstate \<Rightarrow> bool" where
  start: "vprocs s p = VIdle \<Longrightarrow> may_start b s \<Longrightarrow> virtio_disk_rw_start p b w s = Ok s' \<Longrightarrow> vstep s s'"
| retry: "vprocs s p = WantDesc b w True \<Longrightarrow> virtio_disk_rw_start p b w s = Ok s' \<Longrightarrow> vstep s s'"
| resume: "vprocs s p = WantIO b w i True \<Longrightarrow> virtio_disk_rw_end p b w i s = Ok s' \<Longrightarrow> vstep s s'"
| intr: "virtio_disk_intr s = Ok s' \<Longrightarrow> vstep s s'"
| fetch: "seen s \<noteq> avail_idx s \<Longrightarrow> s' = dev_take s \<Longrightarrow> vstep s s'"
| client: "\<forall>q. claims (vprocs s q) \<noteq> Some b \<Longrightarrow> s' = s\<lparr>vbufs := (vbufs s)(b := (vbufs s b)\<lparr>vblockno := n, vdata := d\<rparr>)\<rparr> \<Longrightarrow> vstep s s'"
| complete: "h \<in> set (busy s) \<Longrightarrow> s' = dev_complete h s \<Longrightarrow> vstep s s'"

definition vinit :: "(nat \<Rightarrow> u32) \<Rightarrow> (nat \<Rightarrow> block) \<Rightarrow> (u64 \<Rightarrow> block) \<Rightarrow> vstate" where
  "vinit bno dat med = \<lparr>desc = (\<lambda>_. no_desc), avail_ring = replicate NUM 0, avail_idx = 0, used_ring = replicate NUM 0, used_ring_idx = 0,
     vfree = (\<lambda>i. i < NUM), used_idx = 0, info_b = (\<lambda>_. None), info_status = (\<lambda>_. 0),
     vops = (\<lambda>_. \<lparr>rq_type = 0, rq_reserved = 0, rq_sector = 0\<rparr>), vbufs = (\<lambda>b. \<lparr>vblockno = bno b, vdisk = False, vdata = dat b\<rparr>),
     vprocs = (\<lambda>_. VIdle), seen = 0, busy = [], media = med\<rparr>"

inductive vreach :: "vstate \<Rightarrow> bool" where
  init: "vreach (vinit bno dat med)"
| step: "vreach s \<Longrightarrow> vstep s s' \<Longrightarrow> vreach s'"

end
