(* ===== verification/Virtio_Safe.thy ===== *)
theory Virtio_Safe
  imports Virtio
begin

text \<open>
  The virtio disk driver in all interleavings of processes, device and interrupt handler: the two rings
  as queues, the invariant of the descriptors and of the requests in flight, that every step keeps it,
  and that every request is carried out without a panic and without a lost wakeup.
\<close>

unbundle bit_operations_syntax

section \<open>The rings\<close>

lemma unat_mod_NUM: "unat (x mod of_nat NUM :: u16) = unat x mod NUM"
  by (simp add: NUM_def unat_mod)

interpretation av: ring_buffer NUM avail_ring seen avail_idx avail_put dev_fetch
  by unfold_locales (simp_all add: avail_put_def dev_fetch_def unat_mod_NUM, simp_all add: NUM_def)

interpretation us: ring_buffer NUM used_ring used_idx used_ring_idx used_put used_get
  by unfold_locales (simp_all add: used_put_def used_get_def unat_mod_NUM, simp_all add: NUM_def)

text \<open>The heads of the chains that the device has not taken yet, and of those it has finished.\<close>

definition availq :: "vstate \<Rightarrow> nat list" where
  "availq s = map unat (av.queue s)"

definition usedq :: "vstate \<Rightarrow> nat list" where
  "usedq s = map unat (us.queue s)"

lemma queue_cong:
  "avail_ring s' = avail_ring s \<Longrightarrow> seen s' = seen s \<Longrightarrow> avail_idx s' = avail_idx s \<Longrightarrow> availq s' = availq s"
  "used_ring s' = used_ring s \<Longrightarrow> used_idx s' = used_idx s \<Longrightarrow> used_ring_idx s' = used_ring_idx s \<Longrightarrow> usedq s' = usedq s"
  by (simp_all add: availq_def usedq_def av.queue_def us.queue_def)

lemma availq_put:
  assumes "length (avail_ring s) = NUM" "length (availq s) < NUM" "i < NUM"
  shows "availq (avail_put (of_nat i) s) = availq s @ [i]"
proof -
  have "av.ok s" using assms(1,2) by (simp add: av.ok_def availq_def av.length_queue)
  then show ?thesis using av.put_queue(1) [of s "of_nat i"] assms(2,3) by (simp add: availq_def unat_of_nat NUM_def)
qed

lemma usedq_put:
  assumes "length (used_ring s) = NUM" "length (usedq s) < NUM" "i < NUM"
  shows "usedq (used_put (of_nat i) s) = usedq s @ [i]"
proof -
  have "us.ok s" using assms(1,2) by (simp add: us.ok_def usedq_def us.length_queue)
  then show ?thesis using us.put_queue(1) [of s "of_nat i"] assms(2,3) by (simp add: usedq_def unat_of_nat NUM_def)
qed

lemma availq_get:
  assumes "length (avail_ring s) = NUM" "length (availq s) \<le> NUM" "seen s \<noteq> avail_idx s"
  shows "availq s = unat (fst (dev_fetch s)) # availq (snd (dev_fetch s))"
proof -
  have "av.ok s" using assms(1,2) by (simp add: av.ok_def availq_def av.length_queue)
  then show ?thesis using av.get_queue(1) [of s] assms(3) av.queue_Nil [of s] unfolding availq_def by (metis list.simps(9))
qed

lemma usedq_get:
  assumes "length (used_ring s) = NUM" "length (usedq s) \<le> NUM" "used_idx s \<noteq> used_ring_idx s"
  shows "usedq s = unat (fst (used_get s)) # usedq (snd (used_get s))"
proof -
  have "us.ok s" using assms(1,2) by (simp add: us.ok_def usedq_def us.length_queue)
  then show ?thesis using us.get_queue(1) [of s] assms(3) us.queue_Nil [of s] unfolding usedq_def by (metis list.simps(9))
qed

section \<open>The invariant\<close>

definition dchain :: "vstate \<Rightarrow> nat \<Rightarrow> nat list" where
  "dchain s i = [i, unat (d_next (desc s i)), unat (d_next (desc s (unat (d_next (desc s i)))))]"

definition formatted :: "vstate \<Rightarrow> nat \<Rightarrow> bool \<Rightarrow> nat \<Rightarrow> nat \<Rightarrow> nat \<Rightarrow> bool" where
  "formatted s b w i0 i1 i2 \<longleftrightarrow>
     i0 < NUM \<and> i1 < NUM \<and> i2 < NUM \<and> distinct [i0, i1, i2] \<and> \<not> vfree s i0 \<and> \<not> vfree s i1 \<and> \<not> vfree s i2 \<and>
     desc s i0 = \<lparr>d_addr = DReq i0, d_len = sizeof_blk_req, d_flags = VRING_DESC_F_NEXT, d_next = of_nat i1\<rparr> \<and>
     desc s i1 = \<lparr>d_addr = DData b, d_len = of_nat BSIZE, d_flags = (if w then 0 else VRING_DESC_F_WRITE) OR VRING_DESC_F_NEXT, d_next = of_nat i2\<rparr> \<and>
     desc s i2 = \<lparr>d_addr = DStatus i0, d_len = 1, d_flags = VRING_DESC_F_WRITE, d_next = 0\<rparr> \<and>
     vops s i0 = \<lparr>rq_type = (if w then VIRTIO_BLK_T_OUT else VIRTIO_BLK_T_IN), rq_reserved = 0, rq_sector = sector_of (vbufs s b)\<rparr> \<and>
     info_b s i0 = Some b"

definition request_ok :: "vstate \<Rightarrow> nat \<Rightarrow> bool \<Rightarrow> nat \<Rightarrow> bool" where
  "request_ok s b w i \<longleftrightarrow> (\<exists>i1 i2. formatted s b w i i1 i2)"

definition pending :: "vstate \<Rightarrow> nat \<Rightarrow> bool" where
  "pending s i \<longleftrightarrow> (\<exists>p b w a. vprocs s p = WantIO b w i a \<and> vdisk (vbufs s b))"

definition transferred :: "vstate \<Rightarrow> nat \<Rightarrow> bool" where
  "transferred s b \<longleftrightarrow> media s (sector_of (vbufs s b)) = vdata (vbufs s b)"

definition free_set :: "vstate \<Rightarrow> nat set" where
  "free_set s = {i. i < NUM \<and> vfree s i}"

definition inv_req :: "vstate \<Rightarrow> bool" where
  "inv_req s \<longleftrightarrow> (\<forall>p b w i a. vprocs s p = WantIO b w i a \<longrightarrow>
     request_ok s b w i \<and> (a \<or> vdisk (vbufs s b)) \<and> (vdisk (vbufs s b) \<or> transferred s b))"

definition inv_block :: "vstate \<Rightarrow> bool" where
  "inv_block s \<longleftrightarrow> (\<forall>p q b c. p \<noteq> q \<longrightarrow> claims (vprocs s p) = Some b \<longrightarrow> claims (vprocs s q) = Some c \<longrightarrow> sector_of (vbufs s b) \<noteq> sector_of (vbufs s c))"

definition inv_disj :: "vstate \<Rightarrow> bool" where
  "inv_disj s \<longleftrightarrow> (\<forall>p q b w i a c v j d. p \<noteq> q \<longrightarrow> vprocs s p = WantIO b w i a \<longrightarrow> vprocs s q = WantIO c v j d \<longrightarrow> set (dchain s i) \<inter> set (dchain s j) = {})"

definition inv_own :: "vstate \<Rightarrow> bool" where
  "inv_own s \<longleftrightarrow> (\<forall>i < NUM. \<not> vfree s i \<longrightarrow> (\<exists>p b w j a. vprocs s p = WantIO b w j a \<and> i \<in> set (dchain s j)))"

definition inv_queue :: "vstate \<Rightarrow> bool" where
  "inv_queue s \<longleftrightarrow> length (avail_ring s) = NUM \<and> length (used_ring s) = NUM \<and> distinct (availq s @ busy s @ usedq s) \<and>
     (\<forall>i. i \<in> set (availq s @ busy s @ usedq s) \<longleftrightarrow> pending s i)"

definition inv_used :: "vstate \<Rightarrow> bool" where
  "inv_used s \<longleftrightarrow> (\<forall>i \<in> set (usedq s). info_status s i = 0 \<and> (\<forall>b. info_b s i = Some b \<longrightarrow> transferred s b))"

definition inv_wait :: "vstate \<Rightarrow> bool" where
  "inv_wait s \<longleftrightarrow> (\<forall>p b w. vprocs s p = WantDesc b w False \<longrightarrow> card (free_set s) < 3)"

definition vinv :: "vstate \<Rightarrow> bool" where
  "vinv s \<longleftrightarrow> inv_req s \<and> inv_block s \<and> inv_disj s \<and> inv_own s \<and> inv_queue s \<and> inv_used s \<and> inv_wait s"

lemmas vinv_defs = inv_req_def inv_block_def inv_disj_def inv_own_def inv_queue_def inv_used_def inv_wait_def

section \<open>Allocating three descriptors\<close>

lemma finite_free_set [simp]: "finite (free_set s)"
  by (simp add: free_set_def)

lemma alloc_desc_cases:
  obtains (none) "alloc_desc s = (None, s)" "free_set s = {}"
  | (some) i where "i \<in> free_set s" "alloc_desc s = (Some i, s\<lparr>vfree := (vfree s)(i := False)\<rparr>)"
proof (cases "find (vfree s) [0..<NUM]")
  case None
  then have "alloc_desc s = (None, s)" unfolding alloc_desc_def by simp
  moreover have "free_set s = {}" using None by (auto simp: free_set_def find_None_iff)
  ultimately show ?thesis by (rule none)
next
  case (Some i)
  then have "i \<in> free_set s" by (auto simp: free_set_def find_Some_iff)
  then show ?thesis using Some by (intro some [of i]) (simp_all add: alloc_desc_def)
qed

lemma free_set_taken: "free_set (s\<lparr>vfree := (vfree s)(i := False)\<rparr>) = free_set s - {i}"
  by (auto simp: free_set_def)

text \<open>The state when descriptors were given back: their entries are cleared, and sleepers woken.\<close>

definition tidied :: "nat set \<Rightarrow> vstate \<Rightarrow> vstate" where
  "tidied A s = s\<lparr>desc := (\<lambda>i. if i \<in> A then no_desc else desc s i)\<rparr>"

lemma wake_twice [simp]: "vwake_free (vwake_free s) = vwake_free s"
  by (rule vstate.equality) (auto simp: vwake_free_def fun_eq_iff split: vproc.splits)

lemma alloc3_desc_cases:
  obtains (none) t A where "alloc3_desc s = Ok (None, t)" "card (free_set s) < 3" "A \<subseteq> free_set s" "t = tidied A s \<or> t = vwake_free (tidied A s)"
  | (some) i0 i1 i2 where "alloc3_desc s = Ok (Some (i0, i1, i2), s\<lparr>vfree := (vfree s)(i0 := False, i1 := False, i2 := False)\<rparr>)"
      "i0 \<in> free_set s" "i1 \<in> free_set s" "i2 \<in> free_set s" "distinct [i0, i1, i2]"
proof (cases rule: alloc_desc_cases [of s])
  case none
  then show ?thesis by (intro that(1) [of s "{}"]) (simp_all add: alloc3_desc_def tidied_def)
next
  case (some i0)
  note s0 = this
  let ?s1 = "s\<lparr>vfree := (vfree s)(i0 := False)\<rparr>"
  have f0: "vfree s i0" "i0 < NUM" using s0(1) by (simp_all add: free_set_def)
  show ?thesis
  proof (cases rule: alloc_desc_cases [of ?s1])
    case none
    then have "free_set s = {i0}" using s0(1) by (auto simp: free_set_taken)
    moreover have "alloc3_desc s = Ok (None, vwake_free (tidied {i0} s))"
      using s0(2) none(1) f0 by (auto simp: alloc3_desc_def free_desc_def tidied_def vwake_free_def fun_eq_iff intro!: vstate.equality)
    ultimately show ?thesis by (intro that(1) [of _ "{i0}"]) auto
  next
    case (some i1)
    note s1 = this
    let ?s2 = "?s1\<lparr>vfree := (vfree ?s1)(i1 := False)\<rparr>"
    have f1: "vfree s i1" "i1 < NUM" "i1 \<noteq> i0" using s1(1) unfolding free_set_taken by (auto simp: free_set_def)
    show ?thesis
    proof (cases rule: alloc_desc_cases [of ?s2])
      case none
      then have e: "free_set s = {i0, i1}" using s0(1) s1(1) unfolding free_set_taken by auto
      have "alloc3_desc s = Ok (None, vwake_free (tidied {i0, i1} s))"
        using s0(2) s1(2) none(1) f0 f1
        by (auto simp: alloc3_desc_def free_desc_def tidied_def vwake_free_def fun_eq_iff split: vproc.splits intro!: vstate.equality)
      then show ?thesis using e by (intro that(1) [of _ "{i0, i1}"]) (auto simp: card_insert_if)
    next
      case (some i2)
      then have "i2 \<in> free_set s" "i2 \<noteq> i0" "i2 \<noteq> i1" unfolding free_set_taken by auto
      then show ?thesis using s0 s1 some f1 unfolding free_set_taken
        by (intro that(2) [of i0 i1 i2]) (auto simp: alloc3_desc_def)
    qed
  qed
qed

section \<open>Every step keeps the invariant\<close>

lemma formatted_chain:
  assumes "formatted s b w i i1 i2"
  shows "dchain s i = [i, i1, i2]"
proof -
  have "unat (of_nat i1 :: u16) = i1" "unat (of_nat i2 :: u16) = i2"
    using assms by (simp_all add: formatted_def NUM_def unat_of_nat)
  then show ?thesis using assms by (simp add: dchain_def formatted_def)
qed

lemma requestE:
  assumes "vinv s" "vprocs s p = WantIO b w i a"
  obtains i1 i2 where "formatted s b w i i1 i2" "dchain s i = [i, i1, i2]" "a \<or> vdisk (vbufs s b)" "vdisk (vbufs s b) \<or> transferred s b"
  using assms formatted_chain by (fastforce simp: vinv_def inv_req_def request_ok_def)

lemma formatted_cong:
  assumes "formatted s b w i i1 i2" "\<And>j. \<not> vfree s j \<Longrightarrow> j \<in> {i, i1, i2} \<Longrightarrow> \<not> vfree t j \<and> desc t j = desc s j"
    "vops t i = vops s i" "info_b t i = info_b s i" "sector_of (vbufs t b) = sector_of (vbufs s b)"
  shows "formatted t b w i i1 i2"
  using assms unfolding formatted_def by simp

lemma pendingE:
  assumes "vinv s" "i \<in> set (availq s @ busy s @ usedq s)"
  obtains p b w a i1 i2 where "vprocs s p = WantIO b w i a" "vdisk (vbufs s b)" "formatted s b w i i1 i2" "dchain s i = [i, i1, i2]"
proof -
  have "pending s i" using assms by (auto simp: vinv_def inv_queue_def)
  then obtain p b w a where p: "vprocs s p = WantIO b w i a" "vdisk (vbufs s b)" by (auto simp: pending_def)
  show ?thesis using requestE [OF assms(1) p(1)] that [OF p] by blast
qed

lemma queued_head:
  assumes "vinv s" "i \<in> set (availq s @ busy s @ usedq s)"
  shows "i < NUM" "\<not> vfree s i"
proof -
  obtain p b w a i1 i2 where "vprocs s p = WantIO b w i a" "vdisk (vbufs s b)" "formatted s b w i i1 i2" "dchain s i = [i, i1, i2]"
    using pendingE [OF assms] .
  then show "i < NUM" "\<not> vfree s i" by (simp_all add: formatted_def)
qed

lemma queue_length:
  assumes "vinv s"
  shows "length (availq s) + length (busy s) + length (usedq s) \<le> NUM"
proof -
  have "set (availq s @ busy s @ usedq s) \<subseteq> {..<NUM}" using queued_head(1) [OF assms] by blast
  then have "card (set (availq s @ busy s @ usedq s)) \<le> NUM" using card_mono [of "{..<NUM}"] by fastforce
  moreover have "distinct (availq s @ busy s @ usedq s)" using assms by (simp add: vinv_def inv_queue_def)
  ultimately show ?thesis using distinct_card [of "availq s @ busy s @ usedq s"] by simp
qed

lemma queue_room:
  assumes "vinv s" "i \<in> free_set s"
  shows "length (availq s) < NUM"
proof -
  let ?L = "availq s @ busy s @ usedq s"
  have "set ?L \<subseteq> {..<NUM} - {i}" using queued_head [OF assms(1)] assms(2) by (auto simp: free_set_def)
  then have "card (set ?L) \<le> card ({..<NUM} - {i})" by (intro card_mono) auto
  also have "\<dots> < NUM" using assms(2) by (simp add: free_set_def)
  finally show ?thesis using assms(1) distinct_card [of ?L] by (simp add: vinv_def inv_queue_def)
qed

lemma same_head:
  assumes "vinv s" "vprocs s p = WantIO b w i a" "vprocs s q = WantIO c v i d"
  shows "p = q"
proof (rule ccontr)
  assume "p \<noteq> q"
  then have "set (dchain s i) \<inter> set (dchain s i) = {}" using assms by (fastforce simp: vinv_def inv_disj_def)
  then show False by (simp add: dchain_def)
qed

lemma other_buffer:
  assumes "vinv s" "claims (vprocs s p) = Some b" "claims (vprocs s q) = Some c" "p \<noteq> q"
  shows "sector_of (vbufs s b) \<noteq> sector_of (vbufs s c)" "b \<noteq> c"
proof -
  show "sector_of (vbufs s b) \<noteq> sector_of (vbufs s c)" using assms unfolding vinv_def inv_block_def by blast
  then show "b \<noteq> c" by blast
qed

lemma claims_IO [simp]: "claims (WantIO b w i a) = Some b"
  by (simp add: claims_def)

text \<open>Changes that leave every request in flight as it is.\<close>

lemma vinv_frame:
  assumes s: "vinv s" and f: "vfree t = vfree s" "info_b t = info_b s" "info_status t = info_status s" "vops t = vops s" "vbufs t = vbufs s" "busy t = busy s" "media t = media s"
      "avail_ring t = avail_ring s" "seen t = seen s" "avail_idx t = avail_idx s" "used_ring t = used_ring s" "used_idx t = used_idx s" "used_ring_idx t = used_ring_idx s"
    and d: "\<And>i. i \<notin> free_set s \<Longrightarrow> desc t i = desc s i"
    and io: "\<And>p b w i a. vprocs t p = WantIO b w i a \<longleftrightarrow> vprocs s p = WantIO b w i a"
    and bw: "inv_block t" "inv_wait t"
  shows "vinv t"
proof -
  have fm: "formatted t b w i i1 i2" if "formatted s b w i i1 i2" for b w i i1 i2
    by (rule formatted_cong [OF that]) (use f d that in \<open>auto simp: free_set_def\<close>)
  have rq: "request_ok t b w i \<and> dchain t i = dchain s i" if r: "vprocs s p = WantIO b w i a" for p b w i a
  proof -
    obtain i1 i2 where x: "formatted s b w i i1 i2" "dchain s i = [i, i1, i2]" using requestE [OF s r] by blast
    show ?thesis using fm [OF x(1)] formatted_chain [OF fm [OF x(1)]] x(2) by (auto simp: request_ok_def)
  qed
  have q: "availq t = availq s" "usedq t = usedq s" using queue_cong(1) [OF f(8,9,10)] queue_cong(2) [OF f(11,12,13)] .
  have tr: "transferred t = transferred s" using f by (simp add: transferred_def fun_eq_iff)
  have "request_ok t b w i \<and> (a \<or> vdisk (vbufs t b)) \<and> (vdisk (vbufs t b) \<or> transferred t b)" if r: "vprocs t p = WantIO b w i a" for p b w i a
    using rq [OF r [unfolded io]] requestE [OF s r [unfolded io]] unfolding f(5) tr by blast
  then have "inv_req t" by (simp add: inv_req_def)
  moreover have "set (dchain t i) \<inter> set (dchain t j) = {}"
    if n: "p \<noteq> q" and r: "vprocs t p = WantIO b w i a" and r': "vprocs t q = WantIO c v j d" for p q b w i a c v j d
    using s rq [OF r [unfolded io]] rq [OF r' [unfolded io]] r r' n unfolding vinv_def inv_disj_def io by simp
  then have "inv_disj t" unfolding inv_disj_def by blast
  moreover have "\<exists>p b w j a. vprocs t p = WantIO b w j a \<and> i \<in> set (dchain t j)" if i: "i < NUM" "\<not> vfree t i" for i
  proof -
    obtain p b w j a where r: "vprocs s p = WantIO b w j a" "i \<in> set (dchain s j)"
      using s i unfolding vinv_def inv_own_def f(1) by blast
    then show ?thesis using rq [OF r(1)] io by metis
  qed
  then have "inv_own t" by (simp add: inv_own_def)
  moreover have "pending t = pending s" by (simp add: pending_def io f fun_eq_iff)
  then have "inv_queue t" using s unfolding vinv_def inv_queue_def q f by simp
  moreover have "inv_used t" using s unfolding vinv_def inv_used_def q f tr by simp
  ultimately show ?thesis using bw by (simp add: vinv_def)
qed

lemma wait_woken [simp]: "vprocs (vwake_free s) p \<noteq> WantDesc b w False"
  by (simp add: vwake_free_def split: vproc.splits)

lemma claims_woken [simp]: "claims (vprocs (vwake_free s) p) = claims (vprocs s p)"
  by (simp add: vwake_free_def claims_def split: vproc.splits)

lemma IO_woken [simp]: "vprocs (vwake_free s) p = WantIO b w i a \<longleftrightarrow> vprocs s p = WantIO b w i a"
  by (simp add: vwake_free_def split: vproc.splits)

lemma wake_fields [simp]:
  "desc (vwake_free s) = desc s" "vfree (vwake_free s) = vfree s" "info_b (vwake_free s) = info_b s" "info_status (vwake_free s) = info_status s"
  "vops (vwake_free s) = vops s" "vbufs (vwake_free s) = vbufs s" "busy (vwake_free s) = busy s" "media (vwake_free s) = media s"
  "avail_ring (vwake_free s) = avail_ring s" "seen (vwake_free s) = seen s" "avail_idx (vwake_free s) = avail_idx s"
  "used_ring (vwake_free s) = used_ring s" "used_idx (vwake_free s) = used_idx s" "used_ring_idx (vwake_free s) = used_ring_idx s"
  by (simp_all add: vwake_free_def)

definition apart :: "nat \<Rightarrow> nat \<Rightarrow> vstate \<Rightarrow> bool" where
  "apart p b s \<longleftrightarrow> (\<forall>q c. q \<noteq> p \<longrightarrow> claims (vprocs s q) = Some c \<longrightarrow> sector_of (vbufs s c) \<noteq> sector_of (vbufs s b))"

lemma start_fails:
  assumes s: "vinv s" and p: "\<And>c w i a. vprocs s p \<noteq> WantIO c w i a" and ap: "apart p b s"
    and c: "card (free_set s) < 3" and A: "A \<subseteq> free_set s" and t: "t = tidied A s \<or> t = vwake_free (tidied A s)"
  shows "vinv (t\<lparr>vprocs := (vprocs t)(p := WantDesc b w False)\<rparr>)"
proof -
  let ?t = "t\<lparr>vprocs := (vprocs t)(p := WantDesc b w False)\<rparr>"
  have cl: "claims (vprocs ?t q) = (if q = p then Some b else claims (vprocs s q))" for q
    using t by (auto simp: tidied_def) (simp_all add: claims_def)
  have io: "vprocs ?t q = WantIO c v i a \<longleftrightarrow> vprocs s q = WantIO c v i a" for q c v i a
    using t p by (auto simp: tidied_def)
  have vb: "vbufs ?t = vbufs s" "vfree ?t = vfree s" using t by (auto simp: tidied_def)
  have "inv_block ?t"
    unfolding inv_block_def cl vb
  proof (intro allI impI)
    fix x y d e assume "x \<noteq> y" "(if x = p then Some b else claims (vprocs s x)) = Some d" "(if y = p then Some b else claims (vprocs s y)) = Some e"
    then show "sector_of (vbufs s d) \<noteq> sector_of (vbufs s e)"
      using other_buffer(1) [OF s, of x d y e] ap unfolding apart_def by (metis option.inject)
  qed
  moreover have "inv_wait ?t" using c vb by (simp add: inv_wait_def free_set_def)
  ultimately show ?thesis
    using t A by (intro vinv_frame [OF s, of ?t]) (auto simp: tidied_def io [simplified] subset_iff)
qed

section \<open>Submitting a request\<close>

definition submitted :: "nat \<Rightarrow> nat \<Rightarrow> bool \<Rightarrow> nat \<Rightarrow> nat \<Rightarrow> nat \<Rightarrow> vstate \<Rightarrow> vstate" where
  "submitted p b w i0 i1 i2 s =
     (let t = avail_put (of_nat i0) (format_request b w i0 i1 i2 (s\<lparr>vfree := (vfree s)(i0 := False, i1 := False, i2 := False)\<rparr>))
      in t\<lparr>vprocs := (vprocs t)(p := WantIO b w i0 False)\<rparr>)"

lemma submitted_fields [simp]:
  "vprocs (submitted p b w i0 i1 i2 s) = (vprocs s)(p := WantIO b w i0 False)"
  "vfree (submitted p b w i0 i1 i2 s) = (vfree s)(i0 := False, i1 := False, i2 := False)"
  "vbufs (submitted p b w i0 i1 i2 s) = (vbufs s)(b := (vbufs s b)\<lparr>vdisk := True\<rparr>)"
  "info_b (submitted p b w i0 i1 i2 s) = (info_b s)(i0 := Some b)"
  "info_status (submitted p b w i0 i1 i2 s) = (info_status s)(i0 := 0xff)"
  "vops (submitted p b w i0 i1 i2 s) = (vops s)(i0 := \<lparr>rq_type = (if w then VIRTIO_BLK_T_OUT else VIRTIO_BLK_T_IN), rq_reserved = 0, rq_sector = sector_of (vbufs s b)\<rparr>)"
  "busy (submitted p b w i0 i1 i2 s) = busy s" "media (submitted p b w i0 i1 i2 s) = media s"
  "used_ring (submitted p b w i0 i1 i2 s) = used_ring s"
  "used_idx (submitted p b w i0 i1 i2 s) = used_idx s" "used_ring_idx (submitted p b w i0 i1 i2 s) = used_ring_idx s"
  "length (avail_ring (submitted p b w i0 i1 i2 s)) = length (avail_ring s)"
  by (simp_all add: submitted_def avail_put_def format_request_def Let_def)

lemma submitted_desc: "j \<notin> {i0, i1, i2} \<Longrightarrow> desc (submitted p b w i0 i1 i2 s) j = desc s j"
  by (simp add: submitted_def avail_put_def format_request_def Let_def)

lemma sector_update [simp]: "sector_of (x\<lparr>vdisk := d\<rparr>) = sector_of x" "sector_of (x\<lparr>vdata := e\<rparr>) = sector_of x"
  by (simp_all add: sector_of_def)

lemma submitted_formatted:
  assumes "i0 < NUM" "i1 < NUM" "i2 < NUM" "distinct [i0, i1, i2]"
  shows "formatted (submitted p b w i0 i1 i2 s) b w i0 i1 i2"
  using assms unfolding formatted_def by (simp add: submitted_def avail_put_def format_request_def Let_def)

lemma submitted_availq:
  assumes "length (avail_ring s) = NUM" "length (availq s) < NUM" "i0 < NUM"
  shows "availq (submitted p b w i0 i1 i2 s) = availq s @ [i0]"
proof -
  define t where "t = format_request b w i0 i1 i2 (s\<lparr>vfree := (vfree s)(i0 := False, i1 := False, i2 := False)\<rparr>)"
  have "availq t = availq s" "avail_ring t = avail_ring s" by (auto intro!: queue_cong(1) simp: t_def format_request_def Let_def)
  then have "availq (avail_put (of_nat i0) t) = availq s @ [i0]" using availq_put [of t i0] assms by simp
  moreover have "availq (submitted p b w i0 i1 i2 s) = availq (avail_put (of_nat i0) t)"
    unfolding submitted_def t_def Let_def by (rule queue_cong(1)) simp_all
  ultimately show ?thesis by simp
qed

text \<open>The invariant, part by part, from what a change does to the requests in flight.\<close>

lemma vinvI:
  assumes "\<And>p b w i a. vprocs t p = WantIO b w i a \<Longrightarrow> request_ok t b w i \<and> (a \<or> vdisk (vbufs t b)) \<and> (vdisk (vbufs t b) \<or> transferred t b)"
    "\<And>p q b c. p \<noteq> q \<Longrightarrow> claims (vprocs t p) = Some b \<Longrightarrow> claims (vprocs t q) = Some c \<Longrightarrow> sector_of (vbufs t b) \<noteq> sector_of (vbufs t c)"
    "\<And>p q b w i a c v j d. p \<noteq> q \<Longrightarrow> vprocs t p = WantIO b w i a \<Longrightarrow> vprocs t q = WantIO c v j d \<Longrightarrow> set (dchain t i) \<inter> set (dchain t j) = {}"
    "\<And>i. i < NUM \<Longrightarrow> \<not> vfree t i \<Longrightarrow> \<exists>p b w j a. vprocs t p = WantIO b w j a \<and> i \<in> set (dchain t j)"
    "length (avail_ring t) = NUM" "length (used_ring t) = NUM" "distinct (availq t @ busy t @ usedq t)"
    "\<And>i. i \<in> set (availq t @ busy t @ usedq t) \<longleftrightarrow> pending t i"
    "\<And>i. i \<in> set (usedq t) \<Longrightarrow> info_status t i = 0" "\<And>i b. i \<in> set (usedq t) \<Longrightarrow> info_b t i = Some b \<Longrightarrow> transferred t b"
    "\<And>p b w. vprocs t p = WantDesc b w False \<Longrightarrow> card (free_set t) < 3"
  shows "vinv t"
proof -
  have "inv_req t" unfolding inv_req_def using assms(1) by blast
  moreover have "inv_block t" unfolding inv_block_def using assms(2) by blast
  moreover have "inv_disj t" unfolding inv_disj_def using assms(3) by blast
  moreover have "inv_own t" unfolding inv_own_def using assms(4) by blast
  moreover have "inv_queue t" unfolding inv_queue_def using assms(5-8) by blast
  moreover have "inv_used t" unfolding inv_used_def using assms(9,10) by blast
  moreover have "inv_wait t" unfolding inv_wait_def using assms(11) by blast
  ultimately show ?thesis by (simp add: vinv_def)
qed

text \<open>A request of another process is not touched by a new one.\<close>

definition can_submit :: "nat \<Rightarrow> nat \<Rightarrow> nat \<Rightarrow> nat \<Rightarrow> nat \<Rightarrow> vstate \<Rightarrow> bool" where
  "can_submit p b i0 i1 i2 s \<longleftrightarrow> vinv s \<and> (\<forall>c w i a. vprocs s p \<noteq> WantIO c w i a) \<and> apart p b s \<and>
     i0 \<in> free_set s \<and> i1 \<in> free_set s \<and> i2 \<in> free_set s \<and> distinct [i0, i1, i2]"

lemma submit_old:
  assumes c: "can_submit p b i0 i1 i2 s" and q: "vprocs s q = WantIO c v j d"
  shows "\<exists>j1 j2. formatted (submitted p b w i0 i1 i2 s) c v j j1 j2" "dchain (submitted p b w i0 i1 i2 s) j = dchain s j"
    "{i0, i1, i2} \<inter> set (dchain s j) = {}" "c \<noteq> b" "q \<noteq> p"
proof -
  have s: "vinv s" using c by (simp add: can_submit_def)
  obtain j1 j2 where f: "formatted s c v j j1 j2" using requestE [OF s q] by blast
  show "q \<noteq> p" using c q by (auto simp: can_submit_def)
  then show cb: "c \<noteq> b" using c q unfolding can_submit_def apart_def by (metis claims_IO)
  have n: "{i0, i1, i2} \<inter> {j, j1, j2} = {}" using f c by (auto simp: formatted_def can_submit_def free_set_def)
  have f': "formatted (submitted p b w i0 i1 i2 s) c v j j1 j2"
    by (rule formatted_cong [OF f]) (use n cb in \<open>auto simp: submitted_desc\<close>)
  then show "\<exists>j1 j2. formatted (submitted p b w i0 i1 i2 s) c v j j1 j2" by blast
  show "dchain (submitted p b w i0 i1 i2 s) j = dchain s j" unfolding formatted_chain [OF f] by (rule formatted_chain [OF f'])
  show "{i0, i1, i2} \<inter> set (dchain s j) = {}" unfolding formatted_chain [OF f] using n by simp
qed

lemma submit_new:
  assumes "can_submit p b i0 i1 i2 s"
  shows "formatted (submitted p b w i0 i1 i2 s) b w i0 i1 i2" "dchain (submitted p b w i0 i1 i2 s) i0 = [i0, i1, i2]"
proof -
  show f: "formatted (submitted p b w i0 i1 i2 s) b w i0 i1 i2"
    using assms by (intro submitted_formatted) (simp_all add: can_submit_def free_set_def)
  show "dchain (submitted p b w i0 i1 i2 s) i0 = [i0, i1, i2]" by (rule formatted_chain [OF f])
qed

lemma submit_pending:
  assumes c: "can_submit p b i0 i1 i2 s"
  shows "pending (submitted p b w i0 i1 i2 s) j \<longleftrightarrow> j = i0 \<or> pending s j"
proof
  assume "pending (submitted p b w i0 i1 i2 s) j"
  then obtain q c v d where q: "((vprocs s)(p := WantIO b w i0 False)) q = WantIO c v j d" "vdisk (((vbufs s)(b := (vbufs s b)\<lparr>vdisk := True\<rparr>)) c)"
    unfolding pending_def submitted_fields by blast
  show "j = i0 \<or> pending s j"
  proof (cases "q = p")
    case False
    then have "vprocs s q = WantIO c v j d" "vdisk (vbufs s c)" using q submit_old(4) [OF c, of q c v j d] by simp_all
    then show ?thesis unfolding pending_def by blast
  qed (use q(1) in simp)
next
  assume "j = i0 \<or> pending s j"
  then show "pending (submitted p b w i0 i1 i2 s) j"
  proof
    assume "j = i0"
    then show ?thesis unfolding pending_def submitted_fields by (intro exI [of _ p] exI [of _ b] exI [of _ w] exI [of _ False]) simp
  next
    assume "pending s j"
    then obtain q c v d where q: "vprocs s q = WantIO c v j d" "vdisk (vbufs s c)" by (auto simp: pending_def)
    then show ?thesis unfolding pending_def submitted_fields using submit_old(5) [OF c q(1)]
      by (intro exI [of _ q] exI [of _ c] exI [of _ v] exI [of _ d]) simp
  qed
qed

lemma submit_disjoint:
  assumes c: "can_submit p b i0 i1 i2 s" and n: "x \<noteq> y"
    and x: "vprocs (submitted p b w i0 i1 i2 s) x = WantIO e v j d" and y: "vprocs (submitted p b w i0 i1 i2 s) y = WantIO e' v' j' d'"
  shows "set (dchain (submitted p b w i0 i1 i2 s) j) \<inter> set (dchain (submitted p b w i0 i1 i2 s) j') = {}"
proof -
  note o = submit_old(2,3) [OF c]
  consider "x = p" | "y = p" | "x \<noteq> p" "y \<noteq> p" by blast
  then show ?thesis
  proof cases
    case 1
    then show ?thesis using x y n o [of y e' v' j' d'] submit_new(2) [OF c, of w] by auto
  next
    case 2
    then show ?thesis using x y n o [of x e v j d] submit_new(2) [OF c, of w] by auto
  next
    case 3
    then have "vprocs s x = WantIO e v j d" "vprocs s y = WantIO e' v' j' d'" using x y by simp_all
    moreover from this have "set (dchain s j) \<inter> set (dchain s j') = {}"
      using n c unfolding can_submit_def vinv_def inv_disj_def by blast
    ultimately show ?thesis using o(1) by simp
  qed
qed

lemma submit_owned:
  assumes c: "can_submit p b i0 i1 i2 s" and k: "k < NUM" "\<not> vfree (submitted p b w i0 i1 i2 s) k"
  shows "\<exists>q c v j d. vprocs (submitted p b w i0 i1 i2 s) q = WantIO c v j d \<and> k \<in> set (dchain (submitted p b w i0 i1 i2 s) j)"
proof (cases "k \<in> {i0, i1, i2}")
  case True
  then have "vprocs (submitted p b w i0 i1 i2 s) p = WantIO b w i0 False" "k \<in> set (dchain (submitted p b w i0 i1 i2 s) i0)"
    unfolding submit_new(2) [OF c] by simp_all
  then show ?thesis by blast
next
  case False
  then have "\<not> vfree s k" using k by auto
  then obtain q e v j d where q: "vprocs s q = WantIO e v j d" "k \<in> set (dchain s j)"
    using c k(1) unfolding can_submit_def vinv_def inv_own_def by blast
  then have "vprocs (submitted p b w i0 i1 i2 s) q = WantIO e v j d" "k \<in> set (dchain (submitted p b w i0 i1 i2 s) j)"
    using submit_old(2,5) [OF c q(1)] by simp_all
  then show ?thesis by blast
qed

lemma start_submits:
  assumes c: "can_submit p b i0 i1 i2 s"
  shows "vinv (submitted p b w i0 i1 i2 s)"
proof (rule vinvI)
  let ?t = "submitted p b w i0 i1 i2 s"
  have s: "vinv s" and i0: "i0 \<in> free_set s" and ap: "apart p b s" using c by (simp_all add: can_submit_def)
  have tr: "transferred ?t e = transferred s e" if "e \<noteq> b" for e using that by (simp add: transferred_def)
  have len: "length (avail_ring s) = NUM" "length (used_ring s) = NUM" and
    sq: "distinct (availq s @ busy s @ usedq s)" "\<And>j. j \<in> set (availq s @ busy s @ usedq s) \<longleftrightarrow> pending s j"
    using s by (simp_all add: vinv_def inv_queue_def)
  have aq: "availq ?t = availq s @ [i0]" using i0 by (intro submitted_availq [OF len(1) queue_room [OF s i0]]) (simp add: free_set_def)
  have uq: "usedq ?t = usedq s" by (rule queue_cong(2)) simp_all
  have notq: "i0 \<notin> set (availq s @ busy s @ usedq s)" using queued_head(2) [OF s] i0 by (auto simp: free_set_def)
  {
    fix q e v j d assume q: "vprocs ?t q = WantIO e v j d"
    show "request_ok ?t e v j \<and> (d \<or> vdisk (vbufs ?t e)) \<and> (vdisk (vbufs ?t e) \<or> transferred ?t e)"
    proof (cases "q = p")
      case True
      then show ?thesis using q submit_new(1) [OF c, of w] by (auto simp: request_ok_def)
    next
      case False
      then have q': "vprocs s q = WantIO e v j d" using q by simp
      then show ?thesis using submit_old(1,4) [OF c q'] requestE [OF s q'] tr [of e] unfolding request_ok_def by auto
    qed
  next
    fix x y e d assume a: "x \<noteq> y" "claims (vprocs ?t x) = Some e" "claims (vprocs ?t y) = Some d"
    have sec: "sector_of (vbufs ?t z) = sector_of (vbufs s z)" for z by simp
    show "sector_of (vbufs ?t e) \<noteq> sector_of (vbufs ?t d)"
      unfolding sec using a ap other_buffer(1) [OF s, of x e y d] unfolding apart_def
      by (cases "x = p"; cases "y = p") (simp_all, metis)
  next
    fix k assume k: "k \<in> set (usedq ?t)"
    then have k0: "k \<noteq> i0" "k \<in> set (usedq s)" using notq unfolding uq by auto
    then show "info_status ?t k = 0" using s by (simp add: vinv_def inv_used_def)
    fix e assume "info_b ?t k = Some e"
    then have e: "info_b s k = Some e" using k0 by simp
    have "k \<in> set (availq s @ busy s @ usedq s)" using k0(2) by simp
    from pendingE [OF s this] obtain q e' v d k1 k2
      where q: "vprocs s q = WantIO e' v k d" "vdisk (vbufs s e')" "formatted s e' v k k1 k2" "dchain s k = [k, k1, k2]" .
    then have "e \<noteq> b" using e submit_old(4) [OF c q(1)] by (simp add: formatted_def)
    then show "transferred ?t e" using tr e k0(2) s by (simp add: vinv_def inv_used_def)
  next
    fix q e v assume q: "vprocs ?t q = WantDesc e v False"
    then have "card (free_set s) < 3" using s by (auto simp: vinv_def inv_wait_def split: if_splits)
    moreover have "free_set ?t \<subseteq> free_set s" by (auto simp: free_set_def)
    then have "card (free_set ?t) \<le> card (free_set s)" by (intro card_mono) simp_all
    ultimately show "card (free_set ?t) < 3" by simp
  }
  show "distinct (availq ?t @ busy ?t @ usedq ?t)" using sq(1) notq unfolding aq uq by auto
  show "k \<in> set (availq ?t @ busy ?t @ usedq ?t) \<longleftrightarrow> pending ?t k" for k
    unfolding submit_pending [OF c] sq(2) [symmetric] aq uq by auto
  show "length (avail_ring ?t) = NUM" "length (used_ring ?t) = NUM" using len by simp_all
qed (fact submit_disjoint [OF c], fact submit_owned [OF c])

text \<open>Changes that keep the descriptors and who waits for what.\<close>

lemma vinv_keep:
  assumes s: "vinv s" and f: "desc t = desc s" "vfree t = vfree s" "vops t = vops s" "info_b t = info_b s"
      "length (avail_ring t) = length (avail_ring s)" "length (used_ring t) = length (used_ring s)"
    and io: "\<And>p b w i a. vprocs t p = WantIO b w i a \<Longrightarrow> \<exists>a'. vprocs s p = WantIO b w i a'"
      "\<And>p b w i a. vprocs s p = WantIO b w i a \<Longrightarrow> \<exists>a'. vprocs t p = WantIO b w i a'"
    and cl: "\<And>p. claims (vprocs t p) = claims (vprocs s p)" "\<And>p b. claims (vprocs s p) = Some b \<Longrightarrow> sector_of (vbufs t b) = sector_of (vbufs s b)"
    and wd: "\<And>p b w. vprocs t p = WantDesc b w False \<Longrightarrow> vprocs s p = WantDesc b w False"
    and rq: "\<And>p b w i a. vprocs t p = WantIO b w i a \<Longrightarrow> (a \<or> vdisk (vbufs t b)) \<and> (vdisk (vbufs t b) \<or> transferred t b)"
    and q: "distinct (availq t @ busy t @ usedq t)" "\<And>i. i \<in> set (availq t @ busy t @ usedq t) \<longleftrightarrow> pending t i"
    and u: "\<And>i. i \<in> set (usedq t) \<Longrightarrow> info_status t i = 0" "\<And>i b. i \<in> set (usedq t) \<Longrightarrow> info_b s i = Some b \<Longrightarrow> transferred t b"
  shows "vinv t"
proof (rule vinvI)
  have ch: "dchain t = dchain s" by (simp add: dchain_def fun_eq_iff f)
  {
    fix p b w i a assume p: "vprocs t p = WantIO b w i a"
    then obtain a' where p': "vprocs s p = WantIO b w i a'" using io(1) by blast
    obtain i1 i2 where x: "formatted s b w i i1 i2" using requestE [OF s p'] by blast
    have "sector_of (vbufs t b) = sector_of (vbufs s b)" by (rule cl(2) [of p]) (simp add: p')
    then have "formatted t b w i i1 i2" by (intro formatted_cong [OF x]) (simp_all add: f)
    then have "request_ok t b w i" by (auto simp: request_ok_def)
    then show "request_ok t b w i \<and> (a \<or> vdisk (vbufs t b)) \<and> (vdisk (vbufs t b) \<or> transferred t b)" using rq [OF p] by blast
  next
    fix p q b c assume "p \<noteq> q" "claims (vprocs t p) = Some b" "claims (vprocs t q) = Some c"
    then show "sector_of (vbufs t b) \<noteq> sector_of (vbufs t c)" using other_buffer(1) [OF s] cl by metis
  next
    fix p q b w i a c v j d assume a: "p \<noteq> q" "vprocs t p = WantIO b w i a" "vprocs t q = WantIO c v j d"
    then show "set (dchain t i) \<inter> set (dchain t j) = {}"
      using s io(1) [OF a(2)] io(1) [OF a(3)] unfolding ch vinv_def inv_disj_def by blast
  next
    fix i assume i: "i < NUM" "\<not> vfree t i"
    then obtain p b w j a where p: "vprocs s p = WantIO b w j a" "i \<in> set (dchain s j)" using s unfolding f vinv_def inv_own_def by blast
    then show "\<exists>p b w j a. vprocs t p = WantIO b w j a \<and> i \<in> set (dchain t j)" using io(2) [OF p(1)] unfolding ch by blast
  next
    fix p b w assume "vprocs t p = WantDesc b w False"
    then have "vprocs s p = WantDesc b w False" by (rule wd)
    then have "card (free_set s) < 3" using s unfolding vinv_def inv_wait_def by blast
    then show "card (free_set t) < 3" by (simp add: free_set_def f)
  }
  show "length (avail_ring t) = NUM" "length (used_ring t) = NUM" using s f by (simp_all add: vinv_def inv_queue_def)
qed (use q u f in simp_all)

lemma queueD:
  assumes "vinv s"
  shows "distinct (availq s @ busy s @ usedq s)" "i \<in> set (availq s @ busy s @ usedq s) \<longleftrightarrow> pending s i"
    "length (avail_ring s) = NUM" "length (used_ring s) = NUM"
  using assms by (auto simp: vinv_def inv_queue_def)

lemma usedD:
  assumes "vinv s" "i \<in> set (usedq s)"
  shows "info_status s i = 0" "info_b s i = Some b \<Longrightarrow> transferred s b"
  using assms by (auto simp: vinv_def inv_used_def)

lemma fetch_keeps:
  assumes s: "vinv s" and n: "seen s \<noteq> avail_idx s"
  shows "vinv (dev_take s)"
proof -
  let ?t = "dev_take s"
  have f: "desc ?t = desc s" "vfree ?t = vfree s" "vops ?t = vops s" "info_b ?t = info_b s" "vprocs ?t = vprocs s" "vbufs ?t = vbufs s"
    "avail_ring ?t = avail_ring s" "used_ring ?t = used_ring s" "info_status ?t = info_status s" "media ?t = media s"
    by (simp_all add: dev_take_def dev_fetch_def)
  have aq: "availq s = unat (fst (dev_fetch s)) # availq (snd (dev_fetch s))"
    using queue_length [OF s] by (intro availq_get [OF queueD(3) [OF s] _ n]) simp
  have "availq ?t = availq (snd (dev_fetch s))" by (rule queue_cong(1)) (simp_all add: dev_take_def dev_fetch_def)
  moreover have "busy ?t = busy s @ [unat (fst (dev_fetch s))]" by (simp add: dev_take_def dev_fetch_def)
  moreover have uq: "usedq ?t = usedq s" by (rule queue_cong(2)) (simp_all add: dev_take_def dev_fetch_def)
  ultimately have q: "distinct (availq ?t @ busy ?t @ usedq ?t)" "set (availq ?t @ busy ?t @ usedq ?t) = set (availq s @ busy s @ usedq s)"
    using queueD(1) [OF s] unfolding aq by auto
  have tr: "transferred ?t = transferred s" by (simp add: fun_eq_iff transferred_def f)
  have pd: "pending ?t = pending s" by (simp add: fun_eq_iff pending_def f)
  show ?thesis
  proof (rule vinv_keep [OF s])
    show "i \<in> set (availq ?t @ busy ?t @ usedq ?t) \<longleftrightarrow> pending ?t i" for i unfolding q(2) pd by (rule queueD(2) [OF s])
    show "(a \<or> vdisk (vbufs ?t b)) \<and> (vdisk (vbufs ?t b) \<or> transferred ?t b)" if p: "vprocs ?t p = WantIO b w i a" for p b w i a
      using requestE [OF s p [unfolded f]] unfolding f tr by blast
    show "info_status ?t i = 0" if "i \<in> set (usedq ?t)" for i using usedD(1) [OF s] that unfolding f uq by blast
    show "transferred ?t b" if "i \<in> set (usedq ?t)" "info_b s i = Some b" for i b using usedD(2) [OF s] that unfolding f uq tr by blast
  qed (simp_all add: f q(1) del: distinct_append)
qed

lemma client_keeps:
  assumes s: "vinv s" and n: "\<forall>q. claims (vprocs s q) \<noteq> Some b" and t: "t = s\<lparr>vbufs := (vbufs s)(b := (vbufs s b)\<lparr>vblockno := n, vdata := d\<rparr>)\<rparr>"
  shows "vinv t"
proof (rule vinv_keep [OF s])
  have pb: "c \<noteq> b" if "vprocs s q = WantIO c w i a" for q c w i a using n that by (metis claims_IO)
  have aq: "availq t = availq s" "usedq t = usedq s" unfolding t by (auto intro!: queue_cong)
  have tr: "c \<noteq> b \<Longrightarrow> transferred t c = transferred s c" for c by (simp add: t transferred_def)
  have "vdisk (vbufs t c) = vdisk (vbufs s c)" "vprocs t = vprocs s" for c by (simp_all add: t)
  then have pd: "pending t = pending s" by (simp add: pending_def fun_eq_iff)
  show "distinct (availq t @ busy t @ usedq t)" "i \<in> set (availq t @ busy t @ usedq t) \<longleftrightarrow> pending t i" for i
    using queueD(1,2) [OF s] unfolding aq pd by (simp_all add: t)
  show "(a \<or> vdisk (vbufs t c)) \<and> (vdisk (vbufs t c) \<or> transferred t c)" if p: "vprocs t p = WantIO c w i a" for p c w i a
  proof -
    have p': "vprocs s p = WantIO c w i a" using p by (simp add: t)
    show ?thesis using requestE [OF s p'] pb [OF p'] tr [OF pb [OF p']] by (auto simp: t)
  qed
  show "info_status t i = 0" if "i \<in> set (usedq t)" for i using usedD(1) [OF s] that unfolding aq by (simp add: t)
  show "transferred t c" if i: "i \<in> set (usedq t)" "info_b s i = Some c" for i c
  proof -
    have "i \<in> set (availq s @ busy s @ usedq s)" using i(1) unfolding aq by simp
    from pendingE [OF s this] obtain q c' v d k1 k2
      where q: "vprocs s q = WantIO c' v i d" "vdisk (vbufs s c')" "formatted s c' v i k1 k2" "dchain s i = [i, k1, k2]" .
    then have "c \<noteq> b" using i(2) pb [OF q(1)] by (simp add: formatted_def)
    then show ?thesis using tr usedD(2) [OF s] i unfolding aq by simp
  qed
  show "sector_of (vbufs t c) = sector_of (vbufs s c)" if "claims (vprocs s p) = Some c" for p c using that n by (auto simp: t)
qed (auto simp: t)

section \<open>Completion\<close>

text \<open>The device finds the descriptors of a request as the driver formatted them.\<close>

lemma complete_request:
  assumes "formatted s b w h i1 i2"
  shows "dev_complete h s =
    used_put (of_nat h) ((dev_transfer h b s)\<lparr>info_status := (info_status s)(h := 0), busy := remove1 h (busy s)\<rparr>)"
proof -
  have "unat (of_nat i1 :: u16) = i1" "unat (of_nat i2 :: u16) = i2"
    using assms by (simp_all add: formatted_def NUM_def unat_of_nat)
  moreover have "dev_accepts (desc s h) (desc s i1) (desc s i2) (vops s h)"
    using assms by (simp add: dev_accepts_def formatted_def VIRTIO_BLK_T_IN_def VIRTIO_BLK_T_OUT_def)
  ultimately show ?thesis using assms by (simp add: dev_complete_def Let_def formatted_def dev_transfer_def)
qed

lemma transfer_fields [simp]:
  "vprocs (dev_transfer r b s) = vprocs s" "desc (dev_transfer r b s) = desc s" "vfree (dev_transfer r b s) = vfree s" "vops (dev_transfer r b s) = vops s"
  "info_b (dev_transfer r b s) = info_b s" "info_status (dev_transfer r b s) = info_status s" "busy (dev_transfer r b s) = busy s"
  "avail_ring (dev_transfer r b s) = avail_ring s" "avail_idx (dev_transfer r b s) = avail_idx s" "seen (dev_transfer r b s) = seen s"
  "used_ring (dev_transfer r b s) = used_ring s" "used_idx (dev_transfer r b s) = used_idx s" "used_ring_idx (dev_transfer r b s) = used_ring_idx s"
  "vdisk (vbufs (dev_transfer r b s) c) = vdisk (vbufs s c)" "sector_of (vbufs (dev_transfer r b s) c) = sector_of (vbufs s c)"
  by (simp_all add: dev_transfer_def)

lemma transfer_data:
  assumes "formatted s b w h i1 i2"
  shows "transferred (dev_transfer h b s) b"
    "sector_of (vbufs s c) \<noteq> sector_of (vbufs s b) \<Longrightarrow> transferred (dev_transfer h b s) c = transferred s c"
  using assms by (auto simp: dev_transfer_def transferred_def formatted_def VIRTIO_BLK_T_IN_def VIRTIO_BLK_T_OUT_def split: if_splits)

lemma complete_keeps:
  assumes s: "vinv s" and h: "h \<in> set (busy s)"
  shows "vinv (dev_complete h s)"
proof -
  have "h \<in> set (availq s @ busy s @ usedq s)" using h by simp
  from pendingE [OF s this] obtain p b w a i1 i2
    where p: "vprocs s p = WantIO b w h a" "vdisk (vbufs s b)" "formatted s b w h i1 i2" "dchain s h = [h, i1, i2]" .
  define r where "r = (dev_transfer h b s)\<lparr>info_status := (info_status s)(h := 0), busy := remove1 h (busy s)\<rparr>"
  define t where "t = used_put (of_nat h) r"
  have e: "dev_complete h s = t" unfolding t_def r_def by (rule complete_request [OF p(3)])
  have f: "desc t = desc s" "vfree t = vfree s" "vops t = vops s" "info_b t = info_b s" "vprocs t = vprocs s"
    "info_status t = (info_status s)(h := 0)" "busy t = remove1 h (busy s)" "vbufs t = vbufs (dev_transfer h b s)" "media t = media (dev_transfer h b s)"
    "avail_ring t = avail_ring s" "length (used_ring t) = length (used_ring s)"
    by (simp_all add: t_def r_def used_put_def)
  have aq: "availq t = availq s" by (rule queue_cong(1)) (simp_all add: t_def r_def used_put_def)
  have "usedq r = usedq s" by (rule queue_cong(2)) (simp_all add: r_def)
  moreover have "length (usedq s) < NUM" using queue_length [OF s] h by (cases "busy s") auto
  moreover have "h < NUM" using p(3) by (simp add: formatted_def)
  ultimately have uq: "usedq t = usedq s @ [h]" unfolding t_def using queueD(4) [OF s] by (subst usedq_put) (simp_all add: r_def)
  have d: "distinct (availq s @ busy s @ usedq s)" by (rule queueD(1) [OF s])
  have tr: "transferred t b" "\<And>c. sector_of (vbufs s c) \<noteq> sector_of (vbufs s b) \<Longrightarrow> transferred t c = transferred s c"
    using transfer_data [OF p(3)] by (simp_all add: transferred_def f)
  have other: "transferred t c" if "vprocs s q = WantIO c v j d" "transferred s c \<or> q = p" for q c v j d
    using tr other_buffer(1) [OF s, of q c p b] p(1) that by (cases "q = p") auto
  have pd: "pending t = pending s" by (simp add: fun_eq_iff pending_def f)
  have "vinv t"
  proof (rule vinv_keep [OF s])
    show "distinct (availq t @ busy t @ usedq t)" using d h unfolding aq uq f by (auto simp: distinct_remove1)
    have "set (availq t @ busy t @ usedq t) = set (availq s @ busy s @ usedq s)" using d h unfolding aq uq f by auto
    then show "i \<in> set (availq t @ busy t @ usedq t) \<longleftrightarrow> pending t i" for i unfolding pd using queueD(2) [OF s] by blast
    show "(x \<or> vdisk (vbufs t c)) \<and> (vdisk (vbufs t c) \<or> transferred t c)" if q: "vprocs t q = WantIO c v j x" for q c v j x
      using requestE [OF s q [unfolded f]] other [OF q [unfolded f]] by (auto simp: f)
    show "info_status t i = 0" if "i \<in> set (usedq t)" for i using that usedD(1) [OF s] unfolding uq f by auto
    show "transferred t c" if i: "i \<in> set (usedq t)" "info_b s i = Some c" for i c
    proof -
      have "i \<in> set (availq s @ busy s @ usedq s)" using i(1) h unfolding uq by auto
      from pendingE [OF s this] obtain q c' v d k1 k2
        where q: "vprocs s q = WantIO c' v i d" "vdisk (vbufs s c')" "formatted s c' v i k1 k2" "dchain s i = [i, k1, k2]" .
      then have "c' = c" using i(2) by (simp add: formatted_def)
      moreover have "i = h \<Longrightarrow> q = p" using same_head [OF s] q(1) p(1) by blast
      ultimately show ?thesis using other [OF q(1)] i usedD(2) [OF s, of i c] unfolding uq by auto
    qed
  qed (simp_all add: f)
  then show ?thesis unfolding e .
qed

section \<open>The interrupt handler\<close>

lemma claims_wake_buf [simp]: "claims (vprocs (vwake_buf b s) p) = claims (vprocs s p)"
  by (simp add: vwake_buf_def claims_def split: vproc.splits)

lemma intr_one_keeps:
  assumes s: "vinv s" and n: "used_idx s \<noteq> used_ring_idx s"
  shows "\<exists>t. intr_one s = Ok t \<and> vinv t \<and> media t = media s \<and> (\<forall>c. vdata (vbufs t c) = vdata (vbufs s c))"
proof -
  define h where "h = unat (fst (used_get s))"
  have uq: "usedq s = h # usedq (snd (used_get s))"
    unfolding h_def using queue_length [OF s] by (intro usedq_get [OF queueD(4) [OF s] _ n]) simp
  then have "h \<in> set (availq s @ busy s @ usedq s)" "h \<in> set (usedq s)" by simp_all
  from pendingE [OF s this(1)] obtain p b w a i1 i2
    where p: "vprocs s p = WantIO b w h a" "vdisk (vbufs s b)" "formatted s b w h i1 i2" "dchain s h = [h, i1, i2]" .
  have ib: "info_b s h = Some b" using p(3) by (simp add: formatted_def)
  define t where "t = snd (used_get (vwake_buf b (vclear_disk b s)))"
  have ok: "intr_one s = Ok t" using usedD(1) [OF s \<open>h \<in> set (usedq s)\<close>] ib by (simp add: intr_one_def Let_def t_def h_def case_prod_beta)
  have f: "desc t = desc s" "vfree t = vfree s" "vops t = vops s" "info_b t = info_b s" "info_status t = info_status s" "busy t = busy s" "media t = media s"
    "avail_ring t = avail_ring s" "used_ring t = used_ring s" "vbufs t = (vbufs s)(b := (vbufs s b)\<lparr>vdisk := False\<rparr>)"
    by (simp_all add: t_def used_get_def vwake_buf_def vclear_disk_def)
  have pr: "vprocs t q = (case vprocs s q of WantIO c v i x \<Rightarrow> WantIO c v i (x \<or> c = b) | y \<Rightarrow> y)" for q
    by (simp add: t_def used_get_def vwake_buf_def vclear_disk_def)
  have aq: "availq t = availq s" by (rule queue_cong(1)) (simp_all add: t_def used_get_def vwake_buf_def vclear_disk_def)
  have ut: "usedq s = h # usedq t"
    unfolding uq by (simp, rule queue_cong(2)) (simp_all add: t_def used_get_def vwake_buf_def vclear_disk_def)
  have tr: "transferred t = transferred s" by (simp add: fun_eq_iff transferred_def f)
  have only: "q = p" if "vprocs s q = WantIO b v i x" for q v i x
    using other_buffer(2) [OF s, of q b p b] p(1) that by auto
  have pd: "pending t j \<longleftrightarrow> pending s j \<and> j \<noteq> h" for j
  proof
    assume "pending t j"
    then obtain q c v x where q: "vprocs t q = WantIO c v j x" "vdisk (vbufs t c)" by (auto simp: pending_def)
    then obtain y where y: "vprocs s q = WantIO c v j y" by (auto simp: pr split: vproc.splits)
    have c: "c \<noteq> b" "vdisk (vbufs s c)" using q(2) by (auto simp: f split: if_splits)
    moreover have "j \<noteq> h" using same_head [OF s y] p(1) y c by auto
    ultimately show "pending s j \<and> j \<noteq> h" using y by (auto simp: pending_def)
  next
    assume j: "pending s j \<and> j \<noteq> h"
    then obtain q c v x where q: "vprocs s q = WantIO c v j x" "vdisk (vbufs s c)" by (auto simp: pending_def)
    moreover have "c \<noteq> b" using only q(1) p(1) j by auto
    ultimately have "vprocs t q = WantIO c v j x" "vdisk (vbufs t c)" by (simp_all add: pr f)
    then show "pending t j" unfolding pending_def by blast
  qed
  have "vinv t"
  proof (rule vinv_keep [OF s])
    show "distinct (availq t @ busy t @ usedq t)" using queueD(1) [OF s] unfolding aq ut f by auto
    show "i \<in> set (availq t @ busy t @ usedq t) \<longleftrightarrow> pending t i" for i
      using queueD(1) [OF s] unfolding pd queueD(2) [OF s, symmetric] aq ut f by auto
    show "(x \<or> vdisk (vbufs t c)) \<and> (vdisk (vbufs t c) \<or> transferred t c)" if q: "vprocs t q = WantIO c v j x" for q c v j x
    proof -
      obtain y where y: "vprocs s q = WantIO c v j y" "x = (y \<or> c = b)" using q by (auto simp: pr split: vproc.splits)
      have "transferred s b" using usedD(2) [OF s \<open>h \<in> set (usedq s)\<close> ib] .
      then show ?thesis using requestE [OF s y(1)] y(2) unfolding f tr by (cases "c = b") auto
    qed
    show "info_status t i = 0" if "i \<in> set (usedq t)" for i using that usedD(1) [OF s, of i] unfolding ut f by simp
    show "transferred t c" if "i \<in> set (usedq t)" "info_b s i = Some c" for i c using that usedD(2) [OF s, of i c] unfolding ut tr by simp
  qed (auto simp: f pr claims_def split: vproc.splits)
  then show ?thesis using ok by (simp add: f)
qed

lemma intr_keeps: "vinv s \<Longrightarrow> \<exists>t. virtio_disk_intr s = Ok t \<and> vinv t \<and> media t = media s \<and> (\<forall>c. vdata (vbufs t c) = vdata (vbufs s c))"
proof (induction s rule: virtio_disk_intr.induct)
  case (1 s)
  show ?case
  proof (cases "used_idx s = used_ring_idx s")
    case True
    then show ?thesis using 1(2) by (subst virtio_disk_intr.simps) simp
  next
    case False
    obtain r where r: "intr_one s = Ok r" "vinv r" "media r = media s" "\<forall>c. vdata (vbufs r c) = vdata (vbufs s c)"
      using intr_one_keeps [OF 1(2) False] by blast
    obtain t where "virtio_disk_intr r = Ok t" "vinv t" "media t = media r" "\<forall>c. vdata (vbufs t c) = vdata (vbufs r c)"
      using 1(1) [OF False r(1,2)] by blast
    then show ?thesis using r False by (subst virtio_disk_intr.simps) simp
  qed
qed

section \<open>The end of a request\<close>

lemma wake_once: "vwake_free ((vwake_free s)\<lparr>desc := d, vfree := f\<rparr>) = vwake_free (s\<lparr>desc := d, vfree := f\<rparr>)"
  by (rule vstate.equality) (auto simp: vwake_free_def fun_eq_iff split: vproc.splits)

lemma free_chain_unfold:
  assumes "i < NUM" "\<not> vfree s i"
  shows "free_chain i s =
    (let t = vwake_free (s\<lparr>desc := (desc s)(i := no_desc), vfree := (vfree s)(i := True)\<rparr>)
     in if d_flags (desc s i) AND VRING_DESC_F_NEXT \<noteq> 0 then free_chain (unat (d_next (desc s i))) t else Ok t)"
  using assms by (subst free_chain.simps) (simp add: free_desc_def Let_def)

lemma free_chain_request:
  assumes f: "formatted s b w i i1 i2"
  shows "free_chain i (s\<lparr>info_b := x\<rparr>) =
    Ok (vwake_free (s\<lparr>info_b := x, desc := (desc s)(i := no_desc, i1 := no_desc, i2 := no_desc), vfree := (vfree s)(i := True, i1 := True, i2 := True)\<rparr>))"
proof -
  let ?r = "s\<lparr>info_b := x\<rparr>"
  have u: "unat (of_nat i1 :: u16) = i1" "unat (of_nat i2 :: u16) = i2" using f by (simp_all add: formatted_def NUM_def unat_of_nat)
  have d: "d_flags (desc s i) AND VRING_DESC_F_NEXT \<noteq> 0" "d_flags (desc s i1) AND VRING_DESC_F_NEXT \<noteq> 0" "d_flags (desc s i2) AND VRING_DESC_F_NEXT = 0"
    "unat (d_next (desc s i)) = i1" "unat (d_next (desc s i1)) = i2"
    using f u by (simp_all add: formatted_def VRING_DESC_F_NEXT_def VRING_DESC_F_WRITE_def)
  have n: "i < NUM" "i1 < NUM" "i2 < NUM" "i1 \<noteq> i" "i2 \<noteq> i" "i2 \<noteq> i1" "\<not> vfree s i" "\<not> vfree s i1" "\<not> vfree s i2" using f by (auto simp: formatted_def)
  define r1 where "r1 = vwake_free (?r\<lparr>desc := (desc s)(i := no_desc), vfree := (vfree s)(i := True)\<rparr>)"
  define r2 where "r2 = vwake_free (r1\<lparr>desc := (desc r1)(i1 := no_desc), vfree := (vfree r1)(i1 := True)\<rparr>)"
  define r3 where "r3 = vwake_free (r2\<lparr>desc := (desc r2)(i2 := no_desc), vfree := (vfree r2)(i2 := True)\<rparr>)"
  have "free_chain i ?r = free_chain i1 r1" using n d by (subst free_chain_unfold) (simp_all add: r1_def Let_def)
  also have "\<dots> = free_chain i2 r2" using n d by (subst free_chain_unfold) (simp_all add: r1_def r2_def Let_def)
  also have "\<dots> = Ok r3" using n d by (subst free_chain_unfold) (simp_all add: r1_def r2_def r3_def Let_def)
  also have "r3 = vwake_free (?r\<lparr>desc := (desc s)(i := no_desc, i1 := no_desc, i2 := no_desc), vfree := (vfree s)(i := True, i1 := True, i2 := True)\<rparr>)"
    by (simp add: r1_def r2_def r3_def wake_once)
  finally show ?thesis by simp
qed

definition finished :: "nat \<Rightarrow> nat \<Rightarrow> nat \<Rightarrow> nat \<Rightarrow> vstate \<Rightarrow> vstate" where
  "finished p i i1 i2 s =
     (let t = vwake_free (s\<lparr>info_b := (info_b s)(i := None), desc := (desc s)(i := no_desc, i1 := no_desc, i2 := no_desc), vfree := (vfree s)(i := True, i1 := True, i2 := True)\<rparr>)
      in t\<lparr>vprocs := (vprocs t)(p := VIdle)\<rparr>)"

lemma finished_fields [simp]:
  "desc (finished p i i1 i2 s) = (desc s)(i := no_desc, i1 := no_desc, i2 := no_desc)"
  "vfree (finished p i i1 i2 s) = (vfree s)(i := True, i1 := True, i2 := True)"
  "info_b (finished p i i1 i2 s) = (info_b s)(i := None)" "info_status (finished p i i1 i2 s) = info_status s"
  "vops (finished p i i1 i2 s) = vops s" "vbufs (finished p i i1 i2 s) = vbufs s" "busy (finished p i i1 i2 s) = busy s" "media (finished p i i1 i2 s) = media s"
  "avail_ring (finished p i i1 i2 s) = avail_ring s" "used_ring (finished p i i1 i2 s) = used_ring s"
  "availq (finished p i i1 i2 s) = availq s" "usedq (finished p i i1 i2 s) = usedq s"
  "vprocs (finished p i i1 i2 s) p = VIdle" "vprocs (finished p i i1 i2 s) q \<noteq> WantDesc b w False"
  "vprocs (finished p i i1 i2 s) q = WantIO b w j a \<longleftrightarrow> q \<noteq> p \<and> vprocs s q = WantIO b w j a"
  "claims (vprocs (finished p i i1 i2 s) q) = (if q = p then None else claims (vprocs s q))"
  by (auto simp: finished_def Let_def intro!: queue_cong) (simp_all add: vwake_free_def claims_def split: vproc.splits)

lemma finish_keeps:
  assumes s: "vinv s" and p: "vprocs s p = WantIO b w i a" and nd: "\<not> vdisk (vbufs s b)" and fm: "formatted s b w i i1 i2"
  shows "vinv (finished p i i1 i2 s)"
proof (rule vinvI)
  let ?t = "finished p i i1 i2 s"
  have ci: "dchain s i = [i, i1, i2]" by (rule formatted_chain [OF fm])
  have tr: "transferred ?t = transferred s" by (simp add: fun_eq_iff transferred_def)
  have keep: "\<exists>j1 j2. formatted ?t c v j j1 j2 \<and> dchain ?t j = dchain s j \<and> {i, i1, i2} \<inter> set (dchain s j) = {}"
    if q: "q \<noteq> p" and r: "vprocs s q = WantIO c v j d" for q c v j d
  proof -
    obtain j1 j2 where f: "formatted s c v j j1 j2" "dchain s j = [j, j1, j2]" using requestE [OF s r] by blast
    have "set (dchain s i) \<inter> set (dchain s j) = {}" using s p r q unfolding vinv_def inv_disj_def by blast
    then have n: "{i, i1, i2} \<inter> {j, j1, j2} = {}" using ci f(2) by simp
    have f': "formatted ?t c v j j1 j2" by (rule formatted_cong [OF f(1)]) (use n in auto)
    then show ?thesis using formatted_chain [OF f'] f(2) n by auto
  qed
  have notq: "i \<notin> set (availq s @ busy s @ usedq s)"
  proof
    assume "i \<in> set (availq s @ busy s @ usedq s)"
    from pendingE [OF s this] obtain q c v d k1 k2
      where "vprocs s q = WantIO c v i d" "vdisk (vbufs s c)" "formatted s c v i k1 k2" "dchain s i = [i, k1, k2]" .
    then show False using same_head [OF s, of q c v i d p] p nd by auto
  qed
  have pd: "pending ?t j \<longleftrightarrow> pending s j" for j
  proof
    assume "pending s j"
    then obtain q c v d where q: "vprocs s q = WantIO c v j d" "vdisk (vbufs s c)" by (auto simp: pending_def)
    then have "q \<noteq> p" using p nd by auto
    then show "pending ?t j" using q unfolding pending_def by auto
  qed (auto simp: pending_def)
  show "request_ok ?t c v j \<and> (d \<or> vdisk (vbufs ?t c)) \<and> (vdisk (vbufs ?t c) \<or> transferred ?t c)" if q: "vprocs ?t q = WantIO c v j d" for q c v j d
  proof -
    have q': "q \<noteq> p" "vprocs s q = WantIO c v j d" using q by simp_all
    have "request_ok ?t c v j" using keep [OF q'] unfolding request_ok_def by blast
    then show ?thesis using requestE [OF s q'(2)] unfolding tr by auto
  qed
  show "sector_of (vbufs ?t c) \<noteq> sector_of (vbufs ?t e)" if "x \<noteq> y" "claims (vprocs ?t x) = Some c" "claims (vprocs ?t y) = Some e" for x y c e
    using that other_buffer(1) [OF s, of x c y e] by (simp split: if_splits)
  show "set (dchain ?t j) \<inter> set (dchain ?t k) = {}" if x: "x \<noteq> y" "vprocs ?t x = WantIO c v j d" "vprocs ?t y = WantIO c' v' k d'" for x y c v j d c' v' k d'
  proof -
    have x': "x \<noteq> p" "vprocs s x = WantIO c v j d" "y \<noteq> p" "vprocs s y = WantIO c' v' k d'" using x by simp_all
    then have "set (dchain s j) \<inter> set (dchain s k) = {}" using x(1) s unfolding vinv_def inv_disj_def by blast
    then show ?thesis using keep [OF x'(1,2)] keep [OF x'(3,4)] by auto
  qed
  show "\<exists>q c v j d. vprocs ?t q = WantIO c v j d \<and> k \<in> set (dchain ?t j)" if k: "k < NUM" "\<not> vfree ?t k" for k
  proof -
    have k': "\<not> vfree s k" "k \<notin> {i, i1, i2}" using k by (auto split: if_splits)
    then obtain q c v j d where q: "vprocs s q = WantIO c v j d" "k \<in> set (dchain s j)" using s k(1) unfolding vinv_def inv_own_def by blast
    then have "q \<noteq> p" using p k'(2) ci by auto
    then have "vprocs ?t q = WantIO c v j d \<and> k \<in> set (dchain ?t j)" using q keep [OF _ q(1)] by auto
    then show ?thesis by blast
  qed
  show "distinct (availq ?t @ busy ?t @ usedq ?t)" "length (avail_ring ?t) = NUM" "length (used_ring ?t) = NUM" using queueD [OF s] by simp_all
  show "k \<in> set (availq ?t @ busy ?t @ usedq ?t) \<longleftrightarrow> pending ?t k" for k unfolding pd queueD(2) [OF s, symmetric] by simp
  show "info_status ?t k = 0" if "k \<in> set (usedq ?t)" for k using that usedD(1) [OF s] by simp
  show "transferred ?t c" if "k \<in> set (usedq ?t)" "info_b ?t k = Some c" for k c
    using that usedD(2) [OF s, of k c] notq unfolding tr by (auto split: if_splits)
qed simp

section \<open>Reachable states\<close>

lemma start_ok:
  assumes s: "vinv s" and p: "\<And>c w i a. vprocs s p \<noteq> WantIO c w i a" and ap: "apart p b s"
  shows "\<exists>t. virtio_disk_rw_start p b w s = Ok t \<and> vinv t \<and> media t = media s \<and> (\<forall>c. vdata (vbufs t c) = vdata (vbufs s c))"
proof (cases rule: alloc3_desc_cases [of s])
  case (none t A)
  let ?t = "t\<lparr>vprocs := (vprocs t)(p := WantDesc b w False)\<rparr>"
  have "vinv ?t" by (rule start_fails [OF s p ap none(2-4)])
  moreover have "virtio_disk_rw_start p b w s = Ok ?t" using none(1) by (simp add: virtio_disk_rw_start_def)
  moreover have "media ?t = media s" "vbufs ?t = vbufs s" using none(4) by (auto simp: tidied_def)
  ultimately show ?thesis by simp
next
  case (some i0 i1 i2)
  have "vinv (submitted p b w i0 i1 i2 s)" by (rule start_submits) (use s p ap some in \<open>simp add: can_submit_def\<close>)
  moreover have "virtio_disk_rw_start p b w s = Ok (submitted p b w i0 i1 i2 s)"
    using some(1) by (simp add: virtio_disk_rw_start_def submitted_def Let_def)
  ultimately show ?thesis by simp
qed

lemma end_ok:
  assumes s: "vinv s" and p: "vprocs s p = WantIO b w i a"
  shows "\<exists>t. virtio_disk_rw_end p b w i s = Ok t \<and> vinv t \<and> media t = media s \<and> vbufs t = vbufs s \<and>
    (if vdisk (vbufs s b) then vprocs t p = WantIO b w i False else vprocs t p = VIdle \<and> media t (sector_of (vbufs t b)) = vdata (vbufs t b))"
proof -
  obtain i1 i2 where f: "formatted s b w i i1 i2" "vdisk (vbufs s b) \<or> transferred s b" using requestE [OF s p] by blast
  show ?thesis
  proof (cases "vdisk (vbufs s b)")
    case False
    let ?t = "finished p i i1 i2 s"
    have "virtio_disk_rw_end p b w i s = Ok ?t" using False free_chain_request [OF f(1)] by (simp add: virtio_disk_rw_end_def finished_def Let_def)
    then show ?thesis using finish_keeps [OF s p False f(1)] False f(2) by (simp add: transferred_def)
  next
    case True
    let ?t = "s\<lparr>vprocs := (vprocs s)(p := WantIO b w i False)\<rparr>"
    have aq: "availq ?t = availq s" "usedq ?t = usedq s" by (auto intro!: queue_cong)
    have tr: "transferred ?t = transferred s" by (simp add: fun_eq_iff transferred_def)
    have io: "(\<exists>x. vprocs ?t q = WantIO c v j x) \<longleftrightarrow> (\<exists>x. vprocs s q = WantIO c v j x)" for q c v j using p by auto
    have pd: "pending ?t = pending s" unfolding pending_def fun_eq_iff using io by (simp del: fun_upd_apply)
    have "vinv ?t"
    proof (rule vinv_keep [OF s])
      show "distinct (availq ?t @ busy ?t @ usedq ?t)" "k \<in> set (availq ?t @ busy ?t @ usedq ?t) \<longleftrightarrow> pending ?t k" for k
        using queueD(1,2) [OF s] unfolding aq pd by simp_all
      show "(x \<or> vdisk (vbufs ?t c)) \<and> (vdisk (vbufs ?t c) \<or> transferred ?t c)" if q: "vprocs ?t q = WantIO c v j x" for q c v j x
        using q True requestE [OF s, of q c v j x] unfolding tr by (cases "q = p") auto
      show "info_status ?t k = 0" if "k \<in> set (usedq ?t)" for k using that usedD(1) [OF s] unfolding aq by simp
      show "transferred ?t c" if "k \<in> set (usedq ?t)" "info_b s k = Some c" for k c using that usedD(2) [OF s] unfolding aq tr by simp
    qed (use p io in \<open>auto split: if_splits\<close>)
    then show ?thesis using True by (simp add: virtio_disk_rw_end_def)
  qed
qed

lemma start_apart:
  assumes "vinv s" "vprocs s p = VIdle \<and> may_start b s \<or> vprocs s p = WantDesc b w a"
  shows "apart p b s" "vprocs s p \<noteq> WantIO c v i d"
proof -
  show "apart p b s"
  proof (cases "vprocs s p = VIdle \<and> may_start b s")
    case True
    then show ?thesis by (auto simp: apart_def may_start_def)
  next
    case False
    then have "claims (vprocs s p) = Some b" using assms(2) by (auto simp: claims_def)
    then show ?thesis using other_buffer(1) [OF assms(1)] unfolding apart_def by blast
  qed
  show "vprocs s p \<noteq> WantIO c v i d" using assms(2) by auto
qed

lemma start_step:
  assumes "vinv s" "vprocs s p = VIdle \<and> may_start b s \<or> vprocs s p = WantDesc b w a"
  shows "\<exists>t. virtio_disk_rw_start p b w s = Ok t \<and> vinv t \<and> media t = media s \<and> (\<forall>c. vdata (vbufs t c) = vdata (vbufs s c))"
  by (rule start_ok [OF assms(1) start_apart(2) [OF assms] start_apart(1) [OF assms]])

lemma vinv_init: "vinv (vinit bno dat med)"
proof -
  have "availq (vinit bno dat med) = []" "usedq (vinit bno dat med) = []" by (simp_all add: availq_def usedq_def av.queue_def us.queue_def vinit_def)
  then show ?thesis by (simp add: vinv_def vinv_defs vinit_def claims_def pending_def)
qed

lemma vstep_keeps:
  assumes "vstep s t" "vinv s"
  shows "vinv t"
  using assms
proof (cases rule: vstep.cases)
  case (start p b w)
  then show ?thesis using start_step [OF assms(2), of p b w] by auto
next
  case (retry p b w)
  then show ?thesis using start_step [OF assms(2), of p b w True] by auto
next
  case (resume p b w i)
  then show ?thesis using end_ok [OF assms(2) resume(1)] by auto
next
  case intr
  then show ?thesis using intr_keeps [OF assms(2)] by auto
next
  case fetch
  then show ?thesis using fetch_keeps [OF assms(2)] by simp
next
  case (client b n d)
  then show ?thesis using client_keeps [OF assms(2)] by blast
next
  case (complete h)
  then show ?thesis using complete_keeps [OF assms(2)] by simp
qed

lemma vreach_inv: "vreach s \<Longrightarrow> vinv s"
  by (induction rule: vreach.induct) (auto intro: vinv_init vstep_keeps)


lemma waiting_owner:
  assumes "vinv s" "card (free_set s) < 3"
  shows "\<exists>q c v i d. vprocs s q = WantIO c v i d"
proof -
  have "\<not> {..<NUM} \<subseteq> free_set s"
  proof
    assume "{..<NUM} \<subseteq> free_set s"
    then have "card {..<NUM} \<le> card (free_set s)" by (intro card_mono) simp_all
    then show False using assms(2) by (simp add: NUM_def)
  qed
  then obtain k where "k < NUM" "\<not> vfree s k" unfolding free_set_def by blast
  then show ?thesis using assms(1) unfolding vinv_def inv_own_def by blast
qed

lemma complete_effect:
  assumes s: "vinv s" and h: "h \<in> set (busy s)"
  shows "\<exists>p b w a. vprocs s p = WantIO b w h a \<and> (if w then media (dev_complete h s) = (media s)(sector_of (vbufs s b) := vdata (vbufs s b)) \<and> (\<forall>c. vdata (vbufs (dev_complete h s) c) = vdata (vbufs s c))
    else media (dev_complete h s) = media s \<and> (\<forall>c. vdata (vbufs (dev_complete h s) c) = (if c = b then media s (sector_of (vbufs s b)) else vdata (vbufs s c))))"
proof -
  have "h \<in> set (availq s @ busy s @ usedq s)" using h by simp
  from pendingE [OF s this] obtain p b w a i1 i2
    where p: "vprocs s p = WantIO b w h a" "vdisk (vbufs s b)" "formatted s b w h i1 i2" "dchain s h = [h, i1, i2]" .
  then show ?thesis unfolding complete_request [OF p(3)]
    by (intro exI [of _ p] exI [of _ b] exI [of _ w] exI [of _ a])
      (simp add: dev_transfer_def used_put_def formatted_def VIRTIO_BLK_T_IN_def VIRTIO_BLK_T_OUT_def)
qed

text \<open>What a step may change of the medium and of the data of a buffer in use.\<close>

definition moves_data :: "vstate \<Rightarrow> vstate \<Rightarrow> bool" where
  "moves_data s t \<longleftrightarrow>
     (\<forall>x. media t x \<noteq> media s x \<longrightarrow> (\<exists>p b i a. vprocs s p = WantIO b True i a \<and> x = sector_of (vbufs s b) \<and> media t x = vdata (vbufs s b))) \<and>
     (\<forall>q c. claims (vprocs s q) = Some c \<longrightarrow> vdata (vbufs t c) \<noteq> vdata (vbufs s c) \<longrightarrow>
        (\<exists>p i a. vprocs s p = WantIO c False i a \<and> vdata (vbufs t c) = media s (sector_of (vbufs s c))))"

lemma moves_nothing: "media t = media s \<Longrightarrow> (\<And>c q. claims (vprocs s q) = Some c \<Longrightarrow> vdata (vbufs t c) = vdata (vbufs s c)) \<Longrightarrow> moves_data s t"
  by (auto simp: moves_data_def)

lemma vstep_moves:
  assumes "vstep s t" "vinv s"
  shows "moves_data s t"
  using assms
proof (cases rule: vstep.cases)
  case (start p b w)
  then show ?thesis using start_step [OF assms(2), of p b w] by (auto intro: moves_nothing)
next
  case (retry p b w)
  then show ?thesis using start_step [OF assms(2), of p b w True] by (auto intro: moves_nothing)
next
  case (resume p b w i)
  then show ?thesis using end_ok [OF assms(2) resume(1)] by (auto intro: moves_nothing)
next
  case intr
  then show ?thesis using intr_keeps [OF assms(2)] by (auto intro: moves_nothing)
next
  case fetch
  then show ?thesis by (intro moves_nothing) (simp_all add: dev_take_def dev_fetch_def)
next
  case (client b n d)
  then show ?thesis by (intro moves_nothing) auto
next
  case (complete h)
  obtain p b w a where p: "vprocs s p = WantIO b w h a" and
    e: "if w then media t = (media s)(sector_of (vbufs s b) := vdata (vbufs s b)) \<and> (\<forall>c. vdata (vbufs t c) = vdata (vbufs s c))
      else media t = media s \<and> (\<forall>c. vdata (vbufs t c) = (if c = b then media s (sector_of (vbufs s b)) else vdata (vbufs s c)))"
    using complete_effect [OF assms(2) complete(1)] unfolding complete(2) [symmetric] by blast
  then show ?thesis by (cases w) (auto simp: moves_data_def split: if_splits)
qed

text \<open>
  C8: the disk driver is safe and carries out its requests, for any number of processes, any order in
  which the device completes them, and any interleaving with the interrupt handler. In every
  reachable state virtio_disk_rw, its retries and its last part, and virtio_disk_intr run without a
  panic; a process that returns from virtio_disk_rw finds its block on the medium equal to its buffer;
  the medium changes only where a process writes, to what is in its buffer, and a buffer in use only for
  a process that reads, to what is on the medium; a process asleep on its buffer has its request before the device or in the used ring, and one asleep
  on the descriptors sees fewer than three free ones and another request in flight (no wakeup is lost).\<close>

theorem virtio_requests_safe:
  assumes "vreach s"
  shows "(\<forall>p b w a. vprocs s p = VIdle \<and> may_start b s \<or> vprocs s p = WantDesc b w a \<longrightarrow> is_Ok (virtio_disk_rw_start p b w s)) \<and>
    (\<forall>p b w i a. vprocs s p = WantIO b w i a \<longrightarrow>
       (\<exists>t. virtio_disk_rw_end p b w i s = Ok t \<and> (vprocs t p = VIdle \<longrightarrow> media t (sector_of (vbufs t b)) = vdata (vbufs t b)))) \<and>
    is_Ok (virtio_disk_intr s) \<and> (\<forall>t. vstep s t \<longrightarrow> moves_data s t) \<and>
    (\<forall>p b w i. vprocs s p = WantIO b w i False \<longrightarrow> i \<in> set (availq s @ busy s @ usedq s)) \<and>
    (\<forall>p b w. vprocs s p = WantDesc b w False \<longrightarrow> card (free_set s) < 3 \<and> (\<exists>q c v i d. vprocs s q = WantIO c v i d))"
proof (intro conjI allI impI)
  note s = vreach_inv [OF assms]
  show "is_Ok (virtio_disk_rw_start p b w s)" if "vprocs s p = VIdle \<and> may_start b s \<or> vprocs s p = WantDesc b w a" for p b w a
    using start_step [OF s that] by (auto simp: is_Ok_iff)
  show "\<exists>t. virtio_disk_rw_end p b w i s = Ok t \<and> (vprocs t p = VIdle \<longrightarrow> media t (sector_of (vbufs t b)) = vdata (vbufs t b))"
    if "vprocs s p = WantIO b w i a" for p b w i a
    using end_ok [OF s that] by (auto split: if_splits)
  show "is_Ok (virtio_disk_intr s)" using intr_keeps [OF s] by (auto simp: is_Ok_iff)
  show "moves_data s t" if "vstep s t" for t by (rule vstep_moves [OF that s])
  show "i \<in> set (availq s @ busy s @ usedq s)" if "vprocs s p = WantIO b w i False" for p b w i
    using requestE [OF s that] that unfolding queueD(2) [OF s] pending_def by blast
  show w: "card (free_set s) < 3" if "vprocs s p = WantDesc b w False" for p b w using s that unfolding vinv_def inv_wait_def by blast
  show "\<exists>q c v i d. vprocs s q = WantIO c v i d" if "vprocs s p = WantDesc b w False" for p b w by (rule waiting_owner [OF s w [OF that]])
qed

theorem virtio_requests_safe_witness:
  "\<exists>t. virtio_disk_rw_start 5 3 True (vinit of_nat (\<lambda>_ _. 7) (\<lambda>_ _. 0)) = Ok t \<and> is_Ok (virtio_disk_intr (dev_complete 0 (dev_take t)))"
proof -
  let ?s = "vinit of_nat (\<lambda>_ _. 7) (\<lambda>_ _. 0)"
  have r: "vreach ?s" by (rule vreach.init)
  have "vprocs ?s 5 = VIdle" "may_start 3 ?s" by (simp_all add: vinit_def may_start_def claims_def)
  then have "is_Ok (virtio_disk_rw_start 5 3 True ?s)" using virtio_requests_safe [OF r, THEN conjunct1] by blast
  then obtain t where t: "virtio_disk_rw_start 5 3 True ?s = Ok t" unfolding is_Ok_iff by blast
  then have r1: "vreach t" using vreach.step [OF r vstep.start] \<open>vprocs ?s 5 = VIdle\<close> \<open>may_start 3 ?s\<close> by blast
  have "seen t \<noteq> avail_idx t" "busy (dev_take t) = [0]"
    using t by (auto simp: virtio_disk_rw_start_def alloc3_desc_def alloc_desc_def vinit_def NUM_def upt_rec format_request_def avail_put_def
        dev_take_def dev_fetch_def Let_def replicate_numeral)
  then have "vreach (dev_complete 0 (dev_take t))"
    using vreach.step [OF vreach.step [OF r1 vstep.fetch [OF _ refl]] vstep.complete [OF _ refl, of 0]] by simp
  then show ?thesis using virtio_requests_safe t by blast
qed

end
