(* ===== verification/Spec2Isabelle.thy ===== *)
theory Spec2Isabelle
  imports Console Fs_Inode Sh_Correct Sleeplock Syscall Virtio_Safe
begin

text \<open>
  Verification of xv6, the teaching operating system of the MIT 6.S081 labs, as it stands in this
  repository: the kernel (src/kernel) and the parser of the shell (src/user/sh.c).

  \<^bold>\<open>The program and its model.\<close> xv6 is a small Unix for RISC-V multiprocessors. Its layers, from the
  bottom, and the theories that model them:

  \<^item> machine words, byte-addressed memory and the outcome of kernel code: \<open>Xv6_Prelude\<close>, \<open>Bytes\<close>. Addresses,
    sizes, block numbers, registers and ring counters are words of their width in C, so that overflow
    wraps as in C. Signed ints that count things the kernel bounds are unbounded ints: the nesting depth
    \<open>noff\<close>, the reference counts \<open>iref\<close> and \<open>fref\<close>, the counters \<open>lhn\<close> and \<open>outstanding\<close> of the log, the byte counts
    that read and write return; and indices of loops over arrays are nats. What an overflow of these would
    do is outside the model. Memory is a function from 64-bit addresses to bytes; a kernel function
    gives \<open>Ok\<close>, \<open>Panic\<close> with the message, \<open>Wait\<close> when it must wait for another process, or \<open>NoReturn\<close>;
  \<^item> kernel/string.c: \<open>Kstring\<close>; kernel/riscv.h and kernel/memlayout.h, as far as they concern addresses
    and page-table entries: \<open>Riscv\<close>;
  \<^item> kernel/kalloc.c, the free list threaded through the free pages: \<open>Kalloc\<close>;
  \<^item> kernel/vm.c: \<open>Vm\<close> has the definitions, over the same physical memory; \<open>Vm_Tree\<close> the page table as a
    tree and its invariant, \<open>Vm_User\<close> and \<open>Vm_Space\<close> user address spaces and their life cycle, \<open>Vm_Copy\<close> and
    \<open>Vm_Byte\<close> the copies between kernel and user memory, \<open>Vm_Correct\<close> the theorems;
  \<^item> kernel/spinlock.c: \<open>Spinlock\<close>, as atomic steps interleaved over CPUs; kernel/sleeplock.c: \<open>Sleeplock\<close>,
    as critical sections interleaved over processes;
  \<^item> circular buffers with free-running counters: the locale of \<open>Ring\<close>, interpreted for the pipe, the
    UART and both virtio rings; kernel/uart.c: \<open>Uart\<close>; kernel/console.c: \<open>Console\<close>; kernel/pipe.c: \<open>Pipe\<close>;
  \<^item> kernel/virtio_disk.c: \<open>Virtio\<close> and its invariant \<open>Virtio_Safe\<close>;
  \<^item> disk blocks: \<open>Block\<close>; kernel/bio.c: \<open>Bio\<close>; kernel/log.c: \<open>Log\<close>; kernel/fs.c: \<open>Fs\<close>, with the theorems on blocks in
    \<open>Fs_Block\<close> and on inodes, paths and sizes in \<open>Fs_Inode\<close>;
  \<^item> kernel/proc.c: \<open>Proc\<close>; kernel/file.c and the state of the whole kernel: \<open>File\<close>; the argument functions of
    kernel/syscall.c and kernel/sysfile.c: \<open>Sysfile\<close>; fork, exit, userinit and kernel/exec.c: \<open>Exec\<close>;
    kernel/sysproc.c, the dispatch of system calls and kernel/trap.c: \<open>Syscall\<close>;
  \<^item> the parser of user/sh.c: \<open>Sh\<close>, with a printer of commands and the theorem on both in \<open>Sh_Correct\<close>.

  The definitions keep the names of the C functions; a loop is a recursive function, with a name that
  ends in \<open>_loop\<close> where the function has other parts. Pointers into arrays of structures are indices
  (processes, buffers, inodes, open files, descriptors), the null pointer is None or 0. Addresses of
  variables and linker symbols that the code takes are fields of environment records (\<open>fenv\<close>, \<open>kenv\<close>,
  \<open>ksym\<close>, \<open>tenv\<close>).

  \<^bold>\<open>Concurrency.\<close> A critical section is atomic: the code inside it is one function. Where a section is left
  in the middle, by \<open>sleep\<close>, the function is cut there, and the behaviours are the interleavings of the
  parts: the step relations of \<open>Pipe\<close>, \<open>Spinlock\<close>, \<open>Sleeplock\<close>, \<open>Proc\<close>, \<open>Uart\<close> and \<open>Virtio\<close>. The buffer
  cache, the log and the file system are modelled as one process runs them: a lock that another process
  holds makes the call \<open>Wait\<close>, and of the sleep lock of a buffer or an inode only the flag \<open>locked\<close> is
  kept, so that \<open>holdingsleep\<close> in bwrite, brelse and iunlock tests the flag and not the owner; that the
  owner is the only process past acquiresleep is shown in \<open>Sleeplock\<close>. The disk device is assumed to
  complete a request that it accepts without an error; the notification of the queue and the
  acknowledgement of the interrupt are left out.

  \<^bold>\<open>Interfaces.\<close> What a client relies on is a locale, interpreted on the definitions of the provider:
  \<open>page_allocator\<close> (\<open>Kalloc\<close>) for everything that allocates pages, \<open>ring_buffer\<close> (\<open>Ring\<close>), \<open>block_cache\<close> (\<open>Bio\<close>) for the
  log, \<open>logged_store\<close> (\<open>Fs_Block\<close>) for code inside a transaction.

  \<^bold>\<open>What is proved.\<close>
  \<^item> Memory: the allocator never hands out a page twice and never loses one; page tables keep their
    invariant; growing, shrinking, copying and freeing an address space do what they say on every
    branch, including running out of memory, and leave other address spaces alone; copyin, copyout and
    copyinstr move exactly the accessible range or fail.
  \<^item> Synchronisation: mutual exclusion of spinlocks and of sleep locks; no process runs on two CPUs, and no wakeup is lost
    in wait, in pipes and in the disk driver, in every interleaving.
  \<^item> Devices: the UART and the console buffers are queues; the interrupt handler of the console
    implements the line discipline; the disk driver serves every request without a panic.
  \<^item> File system: the buffer cache refines an LRU list; commit and recovery are atomic under a crash at
    any point, also a crash during recovery, for every block outside the log, which is the header and the
    \<open>LOGSIZE\<close> - 1 blocks after it; the block allocator refines a set of allocated blocks;
    inodes survive writing back and loading; the inode table has one entry for an inode and counts references exactly; reads and
    writes stay within the file and its maximum size; paths are taken apart into their elements.
  \<^item> Shell: the parser ends on every line, its words stay intact when they are terminated in place, and
    it reads back every command that the printer writes.
  \<^item> Behaviour that contradicts the intention of the code is proved as well: a killed writer that leaves
    readers asleep on a non-empty pipe, a reservation of log space that can end in a panic, kill(0).

  \<^bold>\<open>Termination and bounds.\<close> Loops that the code bounds are total functions with a termination proof. The
  free-list walk and the page-table walks that follow pointers are total by a measure or by
  \<open>partial_function\<close> with a theorem that they return under the invariant. Two searches have fuel: the walk
  along the buffer list (\<open>bget_cached\<close>, \<open>bget_lru\<close>) has \<open>NBUF\<close> + 1 steps, which the refinement theorem of \<open>Bio\<close>
  shows to be enough; the recursive descent of the shell has \<open>parse_fuel\<close>, four calls for each byte of the
  line and four more, and the theorem of \<open>Sh_Correct\<close> shows that it never runs out. Loops whose end depends
  on a device, on the contents of memory or on a size that may wrap (\<open>wait_idle\<close>, \<open>uartintr_loop\<close>,
  \<open>strlen_loop\<close>, \<open>loadseg_loop\<close>) are \<open>partial_function\<close>s.

  \<^bold>\<open>Not modelled.\<close> The assembly files (entry.S, trampoline.S, kernelvec.S, swtch.S, initcode.S) and the inline
  assembly of kernel/riscv.h; kernel/main.c, kernel/start.c, kernel/plic.c and kvminithart, which only
  write device and control registers in a fixed order; kernel/printf.c and procdump, which only print;
  kernel/ramdisk.c, which does not compile against kernel/buf.h and is not built; mkfs/mkfs.c, a program of
  the host, from which only the size of the log is taken; the user library and the user programs other
  than the parser of the shell (also the rest of user/sh.c), clients of the system calls; the test programs
  (user/usertests.c, user/grind.c, user/stressfs.c, user/forktest.c), which are drivers of system calls
  with no result of their own; the Makefile, the linker scripts and the grading scripts.
\<close>

end
